(* ===== verification/Prelude.thy ===== *)
theory Prelude
  imports Main "HOL-Library.Word" "HOL-Library.Monad_Syntax"
begin

text \<open>
  Shared vocabulary of the development: the machine integers of the Rust sources as words, the
  big-endian byte encodings every signed message is built from, Rust's saturating subtraction,
  the ordered map that stands for \<^verbatim>\<open>BTreeMap\<close> and \<^verbatim>\<open>HashMap\<close>, and the generic
  lemmas the component theories rely on.

  A call that can panic, or whose recursion may not end, has a result in \<open>option\<close>: \<open>None\<close>
  is the abnormal end. Arithmetic on \<open>u64\<close> and its kin wraps, as in the release build of the
  workspace (\<^verbatim>\<open>profile.release\<close> does not turn overflow checks on).
\<close>

unbundle bit_operations_syntax

named_theorems msg_defs \<open>definitions of the byte layouts that are signed\<close>
named_theorems bt_simps \<open>lookup equations of the ordered map\<close>

subsection \<open>Machine integers\<close>

type_synonym byte = "8 word"
type_synonym u16 = "16 word"
type_synonym u32 = "32 word"
type_synonym u64 = "64 word"
type_synonym u128 = "128 word"
type_synonym u256 = "256 word"
type_synonym b256 = "256 word"
type_synonym address = "160 word"

type_synonym keccak_fn = "byte list \<Rightarrow> b256"

definition saturating_sub :: "'a::len word \<Rightarrow> 'a word \<Rightarrow> 'a word" where
  "saturating_sub a b = (if a < b then 0 else a - b)"

lemma unat_saturating_sub: "unat (saturating_sub a b) = unat a - unat b"
  by (auto simp: saturating_sub_def word_less_nat_alt not_less unat_sub_if_size)

lemma unat_Suc_lt: "(a::'a::len word) < b \<Longrightarrow> unat (a + 1) = Suc (unat a)"
proof -
  assume "a < b"
  then have "unat a < unat b" by (simp add: word_less_nat_alt)
  also have "unat b < 2 ^ LENGTH('a)" by (rule unsigned_less)
  finally have "unat a + 1 < 2 ^ LENGTH('a)"
    using \<open>unat a < unat b\<close> \<open>unat b < 2 ^ LENGTH('a)\<close> by linarith
  then show ?thesis by (simp add: unat_word_ariths)
qed

lemma word_Suc_gt: "(a::'a::len word) < b \<Longrightarrow> a < a + 1"
  by (simp add: word_less_nat_alt unat_Suc_lt)

lemma word_Suc_le: "(a::'a::len word) < b \<Longrightarrow> a + 1 \<le> b"
  by (rule inc_le)

lemma unat_of_nat_less: "n < 2 ^ LENGTH('a) \<Longrightarrow> unat (of_nat n :: 'a::len word) = n"
  by (simp add: unat_of_nat take_bit_nat_eq_self)

subsection \<open>Fallible steps\<close>

text \<open>Rust's \<^verbatim>\<open>?\<close>: \<open>None\<close> is a panic or a loop that does not end, \<open>Inl\<close> an error that is returned.\<close>

definition try_bind :: "('e + 'a) option \<Rightarrow> ('a \<Rightarrow> ('e + 'b) option) \<Rightarrow> ('e + 'b) option" where
  "try_bind m f = (case m of None \<Rightarrow> None | Some (Inl e) \<Rightarrow> Some (Inl e) | Some (Inr x) \<Rightarrow> f x)"

lemma try_bind_simps [simp]:
  "try_bind None f = None" "try_bind (Some (Inl e)) f = Some (Inl e)" "try_bind (Some (Inr x)) f = f x"
  by (simp_all add: try_bind_def)

lemma try_bind_cong [fundef_cong]:
  "m = m' \<Longrightarrow> (\<And>x. m' = Some (Inr x) \<Longrightarrow> f x = g x) \<Longrightarrow> try_bind m f = try_bind m' g"
  by (simp add: try_bind_def split: option.splits sum.splits)

lemma try_bind_Inr: "try_bind m f = Some (Inr y) \<longleftrightarrow> (\<exists>x. m = Some (Inr x) \<and> f x = Some (Inr y))"
  by (simp add: try_bind_def split: option.splits sum.splits)

subsection \<open>Big-endian bytes\<close>

text \<open>\<open>nat_be n x\<close>: the low \<open>n\<close> bytes of \<open>x\<close>, most significant first.\<close>

primrec nat_be :: "nat \<Rightarrow> nat \<Rightarrow> byte list" where
  "nat_be 0 x = []"
| "nat_be (Suc n) x = nat_be n (x div 256) @ [of_nat (x mod 256)]"

definition be_nat :: "byte list \<Rightarrow> nat" where
  "be_nat bs = foldl (\<lambda>a b. a * 256 + unat b) 0 bs"

lemma length_nat_be [simp]: "length (nat_be n x) = n"
  by (induction n arbitrary: x) simp_all

lemma be_nat_nat_be: "be_nat (nat_be n x) = x mod 256 ^ n"
proof (induction n arbitrary: x)
  case 0
  then show ?case by (simp add: be_nat_def)
next
  case (Suc n)
  have "be_nat (nat_be (Suc n) x) = be_nat (nat_be n (x div 256)) * 256 + x mod 256"
    by (simp add: be_nat_def unat_of_nat)
  also have "\<dots> = (x div 256 mod 256 ^ n) * 256 + x mod 256"
    by (simp add: Suc)
  also have "\<dots> = x mod 256 ^ Suc n"
    by (simp add: mod_mult2_eq mult.commute)
  finally show ?case .
qed

lemma nat_be_inj:
  assumes "nat_be n x = nat_be n y" "x < 256 ^ n" "y < 256 ^ n"
  shows "x = y"
proof -
  from assms(1) have "be_nat (nat_be n x) = be_nat (nat_be n y)" by simp
  with assms(2,3) show ?thesis by (simp add: be_nat_nat_be)
qed

definition be16 :: "u16 \<Rightarrow> byte list" where
  "be16 w = nat_be 2 (unat w)"

definition be32 :: "u32 \<Rightarrow> byte list" where
  "be32 w = nat_be 4 (unat w)"

definition be64 :: "u64 \<Rightarrow> byte list" where
  "be64 w = nat_be 8 (unat w)"

definition be256 :: "b256 \<Rightarrow> byte list" where
  "be256 w = nat_be 32 (unat w)"

lemma length_be [simp]:
  "length (be16 a) = 2" "length (be32 b) = 4" "length (be64 c) = 8" "length (be256 d) = 32"
  by (simp_all add: be16_def be32_def be64_def be256_def)

lemma unat_lt_pow256:
  "unat (a::u16) < 256 ^ 2" "unat (b::u32) < 256 ^ 4" "unat (c::u64) < 256 ^ 8"
  "unat (d::b256) < 256 ^ 32"
  using unsigned_less [of a, where ?'a = nat] unsigned_less [of b, where ?'a = nat]
    unsigned_less [of c, where ?'a = nat] unsigned_less [of d, where ?'a = nat] by simp_all

lemma be16_inj [simp]: "be16 a = be16 b \<longleftrightarrow> a = b"
  by (auto simp: be16_def word_unat_eq_iff dest!: nat_be_inj [OF _ unat_lt_pow256(1) unat_lt_pow256(1)])

lemma be32_inj [simp]: "be32 a = be32 b \<longleftrightarrow> a = b"
  by (auto simp: be32_def word_unat_eq_iff dest!: nat_be_inj [OF _ unat_lt_pow256(2) unat_lt_pow256(2)])

lemma be64_inj [simp]: "be64 a = be64 b \<longleftrightarrow> a = b"
  by (auto simp: be64_def word_unat_eq_iff dest!: nat_be_inj [OF _ unat_lt_pow256(3) unat_lt_pow256(3)])

lemma be256_inj [simp]: "be256 a = be256 b \<longleftrightarrow> a = b"
  by (auto simp: be256_def word_unat_eq_iff dest!: nat_be_inj [OF _ unat_lt_pow256(4) unat_lt_pow256(4)])

lemma be_nat_be16: "be_nat (be16 w) = unat w"
  using unat_lt_pow256(1) [of w] by (simp add: be16_def be_nat_nat_be)

lemma be_nat_be64: "be_nat (be64 w) = unat w"
  using unat_lt_pow256(3) [of w] by (simp add: be64_def be_nat_nat_be)

text \<open>A byte string literal of the sources.\<close>

definition ascii :: "string \<Rightarrow> byte list" where
  "ascii s = map (\<lambda>c. of_nat (of_char c)) s"

lemma length_ascii [simp]: "length (ascii s) = length s"
  by (simp add: ascii_def)

text \<open>\<open>sort_unstable\<close> then \<open>dedup\<close>.\<close>

lemma sorted_remdups_adj: "sorted xs \<Longrightarrow> sorted (remdups_adj xs) \<and> distinct (remdups_adj xs)"
proof (induction xs rule: remdups_adj.induct)
  case (3 x y xs)
  then show ?case
  proof (cases "x = y")
    case False
    have "set (remdups_adj (y # xs)) = set (y # xs)" by (rule remdups_adj_set)
    moreover have "x \<notin> set (y # xs)" "\<forall>z \<in> set (y # xs). x \<le> z"
      using "3.prems" False by auto
    ultimately show ?thesis using 3 False by simp
  qed simp
qed simp_all

lemma distinct_dedup: "distinct (remdups_adj (sort xs))"
  by (simp add: sorted_remdups_adj)

lemma length_dedup_eq: "length (remdups_adj (sort xs)) = length xs \<longleftrightarrow> distinct xs"
proof
  assume "length (remdups_adj (sort xs)) = length xs"
  then have "distinct_adj (sort xs)" by (simp add: distinct_adj_conv_length_remdups_adj)
  then have "remdups_adj (sort xs) = sort xs" by (simp add: distinct_adj_altdef)
  then show "distinct xs" by (metis distinct_dedup distinct_sort)
qed (simp add: remdups_adj_distinct)

text \<open>Two concatenations with equally long first parts agree part by part.\<close>

lemma append_eq_split:
  "length a = length b \<Longrightarrow> a @ c = b @ d \<longleftrightarrow> a = b \<and> c = d"
  by simp

subsection \<open>Ordered maps\<close>

text \<open>
  \<^verbatim>\<open>BTreeMap\<close> and \<^verbatim>\<open>HashMap\<close>: an association list ordered by strictly ascending keys. For a
  \<^verbatim>\<open>HashMap\<close> the key order stands for the unspecified iteration order.
\<close>

type_synonym ('k, 'v) btmap = "('k \<times> 'v) list"

fun bt_insert :: "'k::linorder \<Rightarrow> 'v \<Rightarrow> ('k, 'v) btmap \<Rightarrow> ('k, 'v) btmap" where
  "bt_insert k v [] = [(k, v)]"
| "bt_insert k v ((k', v') # m) =
     (if k < k' then (k, v) # (k', v') # m
      else if k = k' then (k, v) # m
      else (k', v') # bt_insert k v m)"

definition bt_get :: "'k \<Rightarrow> ('k, 'v) btmap \<Rightarrow> 'v option" where
  "bt_get k m = map_of m k"

definition bt_remove :: "'k \<Rightarrow> ('k, 'v) btmap \<Rightarrow> ('k, 'v) btmap" where
  "bt_remove k m = filter (\<lambda>p. fst p \<noteq> k) m"

definition bt_retain :: "('k \<Rightarrow> 'v \<Rightarrow> bool) \<Rightarrow> ('k, 'v) btmap \<Rightarrow> ('k, 'v) btmap" where
  "bt_retain P m = filter (\<lambda>p. P (fst p) (snd p)) m"

definition bt_has :: "'k \<Rightarrow> ('k, 'v) btmap \<Rightarrow> bool" where
  "bt_has k m \<longleftrightarrow> bt_get k m \<noteq> None"

definition bt_wf :: "('k::linorder, 'v) btmap \<Rightarrow> bool" where
  "bt_wf m \<longleftrightarrow> sorted_wrt (<) (map fst m)"

lemma bt_get_Nil [simp]: "bt_get k [] = None"
  by (simp add: bt_get_def)

lemma bt_get_insert [bt_simps]:
  "bt_get x (bt_insert k v m) = (if x = k then Some v else bt_get x m)"
  by (induction k v m rule: bt_insert.induct) (auto simp: bt_get_def)

lemma bt_get_remove [bt_simps]:
  "bt_get x (bt_remove k m) = (if x = k then None else bt_get x m)"
  by (induction m) (auto simp: bt_get_def bt_remove_def)

lemma bt_keys_insert: "fst ` set (bt_insert k v m) = insert k (fst ` set m)"
  by (induction k v m rule: bt_insert.induct) auto

lemma bt_set_insert: "set (bt_insert k v m) \<subseteq> insert (k, v) (set m)"
  by (induction k v m rule: bt_insert.induct) auto

lemma bt_wf_Nil [simp]: "bt_wf []"
  by (simp add: bt_wf_def)

lemma bt_wf_insert: "bt_wf m \<Longrightarrow> bt_wf (bt_insert k v m)"
proof (induction k v m rule: bt_insert.induct)
  case (2 k v k' v' m)
  then show ?case
    using bt_keys_insert [of k v m] by (auto simp: bt_wf_def)
qed (simp add: bt_wf_def)

lemma bt_wf_filter: "bt_wf m \<Longrightarrow> bt_wf (filter P m)"
  by (induction m) (auto simp: bt_wf_def)

lemma bt_wf_remove: "bt_wf m \<Longrightarrow> bt_wf (bt_remove k m)"
  by (simp add: bt_remove_def bt_wf_filter)

lemma bt_wf_retain: "bt_wf m \<Longrightarrow> bt_wf (bt_retain P m)"
  by (simp add: bt_retain_def bt_wf_filter)

lemma bt_wf_distinct: "bt_wf m \<Longrightarrow> distinct (map fst m)"
  by (simp add: bt_wf_def strict_sorted_iff)

lemma bt_get_iff: "bt_wf m \<Longrightarrow> bt_get k m = Some v \<longleftrightarrow> (k, v) \<in> set m"
  by (simp add: bt_get_def bt_wf_distinct)

lemma bt_get_SomeD: "bt_get k m = Some v \<Longrightarrow> (k, v) \<in> set m"
  by (simp add: bt_get_def map_of_SomeD)

lemma bt_get_retain:
  "bt_wf m \<Longrightarrow> bt_get k (bt_retain P m) =
     (case bt_get k m of Some v \<Rightarrow> if P k v then Some v else None | None \<Rightarrow> None)"
proof (induction m)
  case (Cons p m)
  obtain k' v' where p: "p = (k', v')" by force
  have nin: "(k', v) \<notin> set m" for v
    using Cons.prems p by (force simp: bt_wf_def)
  then have "bt_get k' m = None"
    using bt_get_SomeD [of k' m] by (cases "bt_get k' m") auto
  with Cons p show ?case
    by (auto simp: bt_retain_def bt_get_def bt_wf_def split: option.splits)
qed (simp add: bt_retain_def)

lemma bt_get_retain_SomeD:
  "bt_wf m \<Longrightarrow> bt_get k (bt_retain P m) = Some v \<Longrightarrow> bt_get k m = Some v \<and> P k v"
  by (auto simp: bt_get_retain split: option.splits if_splits)

text \<open>The contract of a map, which every client of the ordered map may use.\<close>

locale map_impl =
  fixes get :: "'k \<Rightarrow> 'm \<Rightarrow> 'v option"
    and ins :: "'k \<Rightarrow> 'v \<Rightarrow> 'm \<Rightarrow> 'm"
    and del :: "'k \<Rightarrow> 'm \<Rightarrow> 'm"
    and wf :: "'m \<Rightarrow> bool"
  assumes get_ins: "wf m \<Longrightarrow> get x (ins k v m) = (if x = k then Some v else get x m)"
    and get_del: "wf m \<Longrightarrow> get x (del k m) = (if x = k then None else get x m)"
    and wf_ins: "wf m \<Longrightarrow> wf (ins k v m)"
    and wf_del: "wf m \<Longrightarrow> wf (del k m)"
begin

lemma get_ins_all:
  "wf m \<Longrightarrow> distinct (map fst kvs) \<Longrightarrow>
     get x (fold (\<lambda>(k, v). ins k v) kvs m) =
       (case map_of kvs x of Some v \<Rightarrow> Some v | None \<Rightarrow> get x m)"
proof (induction kvs arbitrary: m)
  case (Cons kv kvs)
  obtain k v where kv: "kv = (k, v)" by force
  from Cons.prems kv have "k \<notin> fst ` set kvs" by simp
  then have "map_of kvs k = None" by (simp add: map_of_eq_None_iff)
  with Cons kv show ?case
    by (auto simp: get_ins wf_ins split: option.splits)
qed simp

end

interpretation bt: map_impl bt_get bt_insert bt_remove bt_wf
  by unfold_locales (simp_all add: bt_simps bt_wf_insert bt_wf_remove)

subsection \<open>Loops that can fail\<close>

text \<open>\<open>for x in xs { body }\<close> over a state, where the body may panic.\<close>

primrec for_each :: "('a \<Rightarrow> 's \<Rightarrow> 's option) \<Rightarrow> 'a list \<Rightarrow> 's \<Rightarrow> 's option" where
  "for_each f [] s = Some s"
| "for_each f (x # xs) s = do { s' \<leftarrow> f x s; for_each f xs s' }"

text \<open>The same with a \<open>break\<close> after a body that leaves \<open>stop\<close> true.\<close>

primrec for_until :: "('s \<Rightarrow> bool) \<Rightarrow> ('a \<Rightarrow> 's \<Rightarrow> 's option) \<Rightarrow> 'a list \<Rightarrow> 's \<Rightarrow> 's option" where
  "for_until stop f [] s = Some s"
| "for_until stop f (x # xs) s = do { s' \<leftarrow> f x s; if stop s' then Some s' else for_until stop f xs s' }"

lemma for_each_inv:
  assumes "for_each f xs s = Some s'" "P s"
    and "\<And>x s s'. x \<in> set xs \<Longrightarrow> P s \<Longrightarrow> f x s = Some s' \<Longrightarrow> P s'"
  shows "P s'"
  using assms by (induction xs arbitrary: s) (auto simp: bind_eq_Some_conv)

lemma for_until_inv:
  assumes "for_until stop f xs s = Some s'" "P s"
    and "\<And>x s s'. x \<in> set xs \<Longrightarrow> P s \<Longrightarrow> f x s = Some s' \<Longrightarrow> P s'"
  shows "P s'"
  using assms
proof (induction xs arbitrary: s)
  case (Cons x xs)
  from Cons.prems(1) obtain s1 where s1: "f x s = Some s1"
    "(if stop s1 then Some s1 else for_until stop f xs s1) = Some s'"
    by (auto simp: bind_eq_Some_conv)
  have P1: "P s1" by (rule Cons.prems(3) [OF _ Cons.prems(2) s1(1)]) simp
  show ?case
  proof (cases "stop s1")
    case False
    show ?thesis
      by (rule Cons.IH [of s1]) (use s1 False P1 Cons.prems(3) in auto)
  qed (use s1 P1 in simp)
qed simp

text \<open>An invariant whose steps need a property \<open>Q\<close> that is inherited from the end of the loop.\<close>

lemma for_each_back:
  assumes "for_each f xs s = Some s'" "Q s'"
    and "\<And>x s s'. x \<in> set xs \<Longrightarrow> f x s = Some s' \<Longrightarrow> Q s' \<Longrightarrow> Q s"
  shows "Q s"
  using assms
proof (induction xs arbitrary: s)
  case (Cons x xs)
  from Cons.prems(1) obtain s1 where s1: "f x s = Some s1" "for_each f xs s1 = Some s'"
    by (auto simp: bind_eq_Some_conv)
  have "Q s1" by (rule Cons.IH [OF s1(2) Cons.prems(2)]) (meson Cons.prems(3) list.set_intros(2))
  then show ?case by (rule Cons.prems(3) [OF _ s1(1), rotated]) simp
qed simp

lemma for_each_inv_back:
  assumes "for_each f xs s = Some s'" "P s" "Q s'"
    and bk: "\<And>x s s'. x \<in> set xs \<Longrightarrow> f x s = Some s' \<Longrightarrow> Q s' \<Longrightarrow> Q s"
    and step: "\<And>x s s'. x \<in> set xs \<Longrightarrow> P s \<Longrightarrow> f x s = Some s' \<Longrightarrow> Q s' \<Longrightarrow> P s'"
  shows "P s'"
  using assms
proof (induction xs arbitrary: s)
  case (Cons x xs)
  from Cons.prems(1) obtain s1 where s1: "f x s = Some s1" "for_each f xs s1 = Some s'"
    by (auto simp: bind_eq_Some_conv)
  have Q: "Q s1"
    by (rule for_each_back [where Q = Q, OF s1(2) Cons.prems(3)]) (meson Cons.prems(4) list.set_intros(2))
  have "P s1" by (rule Cons.prems(5) [OF _ Cons.prems(2) s1(1) Q]) simp
  from Cons.IH [OF s1(2) this Cons.prems(3)] show ?case
    using Cons.prems(4,5) by (meson list.set_intros(2))
qed simp

lemma for_until_back:
  assumes "for_until stop f xs s = Some s'" "Q s'"
    and "\<And>x s s'. x \<in> set xs \<Longrightarrow> f x s = Some s' \<Longrightarrow> Q s' \<Longrightarrow> Q s"
  shows "Q s"
  using assms
proof (induction xs arbitrary: s)
  case (Cons x xs)
  from Cons.prems(1) obtain s1 where s1: "f x s = Some s1"
    "(if stop s1 then Some s1 else for_until stop f xs s1) = Some s'" by (auto simp: bind_eq_Some_conv)
  have "Q s1"
  proof (cases "stop s1")
    case False
    with s1 have "for_until stop f xs s1 = Some s'" by simp
    then show ?thesis by (rule Cons.IH [OF _ Cons.prems(2)]) (meson Cons.prems(3) list.set_intros(2))
  qed (use s1 Cons.prems(2) in simp)
  then show ?case by (rule Cons.prems(3) [OF _ s1(1), rotated]) simp
qed simp

lemma for_until_inv_back:
  assumes "for_until stop f xs s = Some s'" "P s" "Q s'"
    and bk: "\<And>x s s'. x \<in> set xs \<Longrightarrow> f x s = Some s' \<Longrightarrow> Q s' \<Longrightarrow> Q s"
    and step: "\<And>x s s'. x \<in> set xs \<Longrightarrow> P s \<Longrightarrow> f x s = Some s' \<Longrightarrow> Q s' \<Longrightarrow> P s'"
  shows "P s'"
  using assms
proof (induction xs arbitrary: s)
  case (Cons x xs)
  from Cons.prems(1) obtain s1 where s1: "f x s = Some s1"
    "(if stop s1 then Some s1 else for_until stop f xs s1) = Some s'" by (auto simp: bind_eq_Some_conv)
  show ?case
  proof (cases "stop s1")
    case True
    with s1 have "f x s = Some s'" by simp
    then show ?thesis using Cons.prems(2,3,5) by (meson list.set_intros(1))
  next
    case False
    with s1 have u: "for_until stop f xs s1 = Some s'" by simp
    have Q: "Q s1"
      by (rule for_until_back [where Q = Q, OF u Cons.prems(3)]) (meson Cons.prems(4) list.set_intros(2))
    have "P s1" by (rule Cons.prems(5) [OF _ Cons.prems(2) s1(1) Q]) simp
    from Cons.IH [OF u this Cons.prems(3)] show ?thesis
      using Cons.prems(4,5) by (meson list.set_intros(2))
  qed
qed simp

lemma for_each_total:
  assumes "P s" "\<And>x s. x \<in> set xs \<Longrightarrow> P s \<Longrightarrow> \<exists>s'. f x s = Some s' \<and> P s'"
  shows "\<exists>s'. for_each f xs s = Some s' \<and> P s'"
  using assms
proof (induction xs arbitrary: s)
  case (Cons x xs)
  then obtain s1 where "f x s = Some s1" "P s1" by (meson list.set_intros(1))
  with Cons.IH [of s1] Cons.prems show ?case by simp
qed simp

lemma for_until_total:
  assumes "P s" "\<And>x s. x \<in> set xs \<Longrightarrow> P s \<Longrightarrow> \<exists>s'. f x s = Some s' \<and> P s'"
  shows "\<exists>s'. for_until stop f xs s = Some s' \<and> P s'"
  using assms
proof (induction xs arbitrary: s)
  case (Cons x xs)
  then obtain s1 where "f x s = Some s1" "P s1" by (meson list.set_intros(1))
  with Cons.IH [of s1] Cons.prems show ?case by simp
qed simp

end
