(* ===== verification/Validators.thy ===== *)
theory Validators
  imports Prelude "HOL-Library.Multiset"
begin

text \<open>
  The committee of an epoch (\<^verbatim>\<open>crates/consensus/src/types.rs\<close>): voting weights, leader rotation,
  the two-thirds and one-third thresholds, and the signer bitmap of certificates. The weights are
  \<open>u64\<close> and every sum and product wraps; \<open>set_wf\<close> is the bound under which nothing wraps, and
  the contract \<open>quorum_system\<close> is what the certificates and the agreement argument rely on.
\<close>

subsection \<open>The validator set\<close>

type_synonym round = u64
type_synonym validator_index = u16

record validator_set =
  weights :: "u64 list"
  seats :: "validator_index list"

definition vs_equal :: "nat \<Rightarrow> validator_set" where
  "vs_equal n = \<lparr>weights = replicate n 1, seats = []\<rparr>"

text \<open>\<open>weights[s] += 1\<close> for every seat; indexing past the end panics.\<close>

fun count_seats :: "validator_index list \<Rightarrow> u64 list \<Rightarrow> u64 list option" where
  "count_seats [] ws = Some ws"
| "count_seats (s # ss) ws =
     (if unat s < length ws then count_seats ss (ws[unat s := ws ! unat s + 1]) else None)"

definition from_seats :: "nat \<Rightarrow> validator_index list \<Rightarrow> validator_set option" where
  "from_seats n ss = do {
     ws \<leftarrow> count_seats ss (replicate n 0);
     Some \<lparr>weights = ws, seats = ss\<rparr>
   }"

definition vs_len :: "validator_set \<Rightarrow> nat" where
  "vs_len vs = length (weights vs)"

definition vs_is_empty :: "validator_set \<Rightarrow> bool" where
  "vs_is_empty vs \<longleftrightarrow> weights vs = []"

definition total :: "validator_set \<Rightarrow> u64" where
  "total vs = sum_list (weights vs)"

definition weight_at :: "validator_set \<Rightarrow> validator_index \<Rightarrow> u64" where
  "weight_at vs i = (if unat i < length (weights vs) then weights vs ! unat i else 0)"

definition weight_of :: "validator_set \<Rightarrow> validator_index list \<Rightarrow> u64" where
  "weight_of vs signers = sum_list (map (weight_at vs) signers)"

definition is_quorum :: "validator_set \<Rightarrow> u64 \<Rightarrow> bool" where
  "is_quorum vs w \<longleftrightarrow> w * 3 > total vs * 2"

definition is_one_third :: "validator_set \<Rightarrow> u64 \<Rightarrow> bool" where
  "is_one_third vs w \<longleftrightarrow> w * 3 > total vs"

text \<open>The leader of a round; \<open>None\<close> where \<open>round % 0\<close> panics (an empty set).\<close>

definition leader :: "validator_set \<Rightarrow> round \<Rightarrow> validator_index option" where
  "leader vs r =
     (if seats vs = [] then
        (if weights vs = [] then None else Some (of_nat (unat r mod length (weights vs))))
      else Some (seats vs ! (unat r mod length (seats vs))))"

subsection \<open>Signer bitmaps\<close>

definition bitmap_set :: "nat \<Rightarrow> byte list \<Rightarrow> validator_index \<Rightarrow> byte list" where
  "bitmap_set n b i =
     (if unat i < n
      then b[unat i div 8 := b ! (unat i div 8) OR push_bit (unat i mod 8) 1]
      else b)"

definition bitmap_encode :: "validator_index list \<Rightarrow> nat \<Rightarrow> byte list" where
  "bitmap_encode signers n = foldl (bitmap_set n) (replicate ((n + 7) div 8) 0) signers"

definition byte_signers :: "nat \<Rightarrow> byte \<Rightarrow> validator_index list" where
  "byte_signers byte_i byte =
     map (\<lambda>bit_i. of_nat (byte_i * 8 + bit_i))
       (filter (\<lambda>bit_i. byte AND push_bit bit_i 1 \<noteq> 0) [0..<8])"

fun bitmap_decode_from :: "nat \<Rightarrow> byte list \<Rightarrow> validator_index list" where
  "bitmap_decode_from byte_i [] = []"
| "bitmap_decode_from byte_i (byte # b) = byte_signers byte_i byte @ bitmap_decode_from (Suc byte_i) b"

definition bitmap_decode :: "byte list \<Rightarrow> validator_index list" where
  "bitmap_decode b = bitmap_decode_from 0 b"

subsection \<open>Weights without wrap-around\<close>

definition wt :: "validator_set \<Rightarrow> validator_index \<Rightarrow> nat" where
  "wt vs i = unat (weight_at vs i)"

definition nat_total :: "validator_set \<Rightarrow> nat" where
  "nat_total vs = sum_list (map unat (weights vs))"

definition set_wf :: "validator_set \<Rightarrow> bool" where
  "set_wf vs \<longleftrightarrow> 3 * nat_total vs < 2 ^ 64 \<and> length (weights vs) \<le> 2 ^ 16"

definition members :: "validator_set \<Rightarrow> validator_index set" where
  "members vs = {i. unat i < length (weights vs)}"

lemma unat_sum_list_le:
  "sum_list (map unat ws) < 2 ^ 64 \<Longrightarrow> unat (sum_list (ws :: u64 list)) = sum_list (map unat ws)"
proof (induction ws)
  case (Cons w ws)
  then have "unat (sum_list ws) = sum_list (map unat ws)" by simp
  with Cons.prems show ?case by (simp add: unat_word_ariths)
qed simp

lemma unat_total: "set_wf vs \<Longrightarrow> unat (total vs) = nat_total vs"
  by (simp add: total_def nat_total_def set_wf_def unat_sum_list_le)

lemma sum_wt_members:
  assumes "length (weights vs) \<le> 2 ^ 16"
  shows "sum (wt vs) (members vs) = nat_total vs"
proof -
  let ?n = "length (weights vs)"
  have inj: "inj_on (of_nat :: nat \<Rightarrow> u16) {0..<?n}"
  proof (rule inj_onI)
    fix x y
    assume "x \<in> {0..<?n}" "y \<in> {0..<?n}" "(of_nat x :: u16) = of_nat y"
    with assms show "x = y"
      by (auto simp: word_unat_eq_iff unat_of_nat take_bit_nat_def)
  qed
  have mem: "members vs = of_nat ` {0..<?n}"
    using assms by (force simp: members_def unat_of_nat image_iff take_bit_nat_def
        intro!: bexI [where x = "unat x" for x])
  have "sum (wt vs) (members vs) = (\<Sum>k = 0..<?n. wt vs (of_nat k))"
    by (simp add: mem sum.reindex [OF inj])
  also have "\<dots> = (\<Sum>k = 0..<?n. unat (weights vs ! k))"
    using assms by (intro sum.cong refl)
      (auto simp: wt_def weight_at_def unat_of_nat take_bit_nat_def)
  also have "\<dots> = nat_total vs"
    by (simp add: nat_total_def sum_list_sum_nth)
  finally show ?thesis .
qed

subsection \<open>Quorums\<close>

text \<open>
  What a certificate relies on: a set of signers that passes the check carries more than two
  thirds of the weight, so two of them share a member outside every set of at most a third.
\<close>

locale quorum_system =
  fixes W :: "'i \<Rightarrow> nat"
    and M :: "'i set"
    and quorum :: "'i set \<Rightarrow> bool"
  assumes finite_M: "finite M"
    and quorum_weight: "quorum Q \<Longrightarrow> Q \<subseteq> M \<and> 2 * sum W M < 3 * sum W Q"
begin

lemma quorum_inter_weight:
  assumes "quorum Q" "quorum R"
  shows "sum W M < 3 * sum W (Q \<inter> R)"
proof -
  have sub: "Q \<subseteq> M" "R \<subseteq> M" and q: "2 * sum W M < 3 * sum W Q" "2 * sum W M < 3 * sum W R"
    using assms quorum_weight by blast+
  then have fin: "finite Q" "finite R" using finite_M finite_subset by blast+
  have "sum W (Q \<union> R) + sum W (Q \<inter> R) = sum W Q + sum W R"
    using fin by (rule sum.union_inter)
  moreover have "sum W (Q \<union> R) \<le> sum W M"
    using sub finite_M by (intro sum_mono2) auto
  ultimately show ?thesis using q by linarith
qed

lemma quorum_inter_honest:
  assumes "quorum Q" "quorum R" "3 * sum W F \<le> sum W M" "finite F"
  obtains i where "i \<in> Q" "i \<in> R" "i \<notin> F"
proof -
  have "\<not> Q \<inter> R \<subseteq> F"
  proof
    assume "Q \<inter> R \<subseteq> F"
    then have "sum W (Q \<inter> R) \<le> sum W F"
      using assms(4) by (intro sum_mono2) auto
    with quorum_inter_weight [OF assms(1,2)] assms(3) show False by linarith
  qed
  with that show ?thesis by blast
qed

lemma quorum_has_honest:
  assumes "quorum Q" "3 * sum W F \<le> sum W M" "finite F"
  obtains i where "i \<in> Q" "i \<notin> F"
  using quorum_inter_honest [OF assms(1,1,2,3)] by blast

end

definition vs_quorum :: "validator_set \<Rightarrow> validator_index set \<Rightarrow> bool" where
  "vs_quorum vs Q \<longleftrightarrow>
     Q \<subseteq> members vs \<and> 2 * sum (wt vs) (members vs) < 3 * sum (wt vs) Q"

interpretation vq: quorum_system "wt vs" "members vs" "vs_quorum vs" for vs
  by unfold_locales (simp_all add: vs_quorum_def)

lemma sum_wt_le_total:
  assumes "set_wf vs"
  shows "sum (wt vs) Q \<le> nat_total vs"
proof -
  have "sum (wt vs) Q = sum (wt vs) (Q \<inter> members vs)"
    by (rule sum.mono_neutral_right) (auto simp: wt_def weight_at_def members_def)
  also have "\<dots> \<le> sum (wt vs) (members vs)"
    by (intro sum_mono2) auto
  finally show ?thesis using assms by (simp add: sum_wt_members set_wf_def)
qed

lemma unat_weight_of:
  assumes "set_wf vs" "distinct signers"
  shows "unat (weight_of vs signers) = sum (wt vs) (set signers)"
proof -
  have eq: "sum_list (map unat (map (weight_at vs) signers)) = sum (wt vs) (set signers)"
    using assms(2) by (simp add: sum_list_distinct_conv_sum_set wt_def o_def)
  have "sum (wt vs) (set signers) \<le> nat_total vs" by (rule sum_wt_le_total [OF assms(1)])
  with assms(1) have "sum_list (map unat (map (weight_at vs) signers)) < 2 ^ 64"
    unfolding eq by (simp add: set_wf_def)
  from unat_sum_list_le [OF this] eq show ?thesis by (simp add: weight_of_def)
qed

lemma is_quorum_iff:
  assumes "set_wf vs" "distinct signers"
  shows "is_quorum vs (weight_of vs signers) \<longleftrightarrow> 2 * nat_total vs < 3 * sum (wt vs) (set signers)"
proof -
  have w: "unat (weight_of vs signers) = sum (wt vs) (set signers)"
    using assms by (rule unat_weight_of)
  have "sum (wt vs) (set signers) \<le> nat_total vs" by (rule sum_wt_le_total [OF assms(1)])
  then have "unat (weight_of vs signers * 3) = 3 * sum (wt vs) (set signers)"
    "unat (total vs * 2) = 2 * nat_total vs"
    using assms(1) by (simp_all add: unat_word_ariths w unat_total set_wf_def)
  then show ?thesis by (simp add: is_quorum_def word_less_nat_alt)
qed

lemma vs_quorumI:
  assumes "set_wf vs" "distinct signers" "is_quorum vs (weight_of vs signers)"
    "\<forall>i \<in> set signers. unat i < vs_len vs"
  shows "vs_quorum vs (set signers)"
proof -
  have "set signers \<subseteq> members vs"
    using assms(4) by (auto simp: members_def vs_len_def)
  with assms is_quorum_iff [OF assms(1,2)] show ?thesis
    by (simp add: vs_quorum_def sum_wt_members set_wf_def)
qed

subsection \<open>Bitmap lemmas\<close>

lemma byte_signers_eq:
  "byte_signers k b = map of_nat (filter (\<lambda>x. bit b (x mod 8)) [k * 8..<k * 8 + 8])"
proof -
  have upt: "[k * 8..<k * 8 + 8] = map (\<lambda>t. k * 8 + t) [0..<8]"
    by (simp add: map_add_upt add.commute)
  have "filter (\<lambda>t. b AND push_bit t 1 \<noteq> 0) [0..<8] = filter (\<lambda>t. bit b ((k * 8 + t) mod 8)) [0..<8]"
    by (intro filter_cong refl) (auto simp only: bit_iff_and_push_bit_not_eq_0 [symmetric]
        mod_mult_self3 atLeastLessThan_iff set_upt mod_less)
  then show ?thesis
    unfolding byte_signers_def upt filter_map by (simp add: o_def)
qed

lemma bitmap_decode_from_eq:
  "bitmap_decode_from k b =
     map of_nat (filter (\<lambda>x. bit (b ! (x div 8 - k)) (x mod 8)) [k * 8..<(k + length b) * 8])"
proof (induction b arbitrary: k)
  case (Cons x b)
  let ?P = "\<lambda>k b x. bit (b ! (x div 8 - k)) (x mod 8)"
  have split: "[k * 8..<(k + length (x # b)) * 8] =
      [k * 8..<k * 8 + 8] @ [Suc k * 8..<(Suc k + length b) * 8]"
    using upt_add_eq_append [of "k * 8" "k * 8 + 8" "length b * 8"]
    by (simp add: algebra_simps)
  have first: "filter (?P k (x # b)) [k * 8..<k * 8 + 8] =
      filter (\<lambda>y. bit x (y mod 8)) [k * 8..<k * 8 + 8]"
    by (intro filter_cong) auto
  have "(x # b) ! (y div 8 - k) = b ! (y div 8 - Suc k)" if "Suc k * 8 \<le> y" for y
  proof -
    from that have "Suc k \<le> y div 8" by presburger
    then have "y div 8 - k = Suc (y div 8 - Suc k)" by linarith
    then show ?thesis by simp
  qed
  then have rest: "filter (?P k (x # b)) [Suc k * 8..<(Suc k + length b) * 8] =
      filter (?P (Suc k) b) [Suc k * 8..<(Suc k + length b) * 8]"
    by (intro filter_cong) auto
  show ?case
    unfolding bitmap_decode_from.simps byte_signers_eq Cons.IH split filter_append map_append
      first rest ..
qed simp

lemma of_nat_u16_inj:
  "x < 2 ^ 16 \<Longrightarrow> y < 2 ^ 16 \<Longrightarrow> (of_nat x :: u16) = of_nat y \<longleftrightarrow> x = y"
  by (auto simp: word_unat_eq_iff unat_of_nat take_bit_nat_def)

lemma bitmap_decode_unat:
  assumes "length b \<le> 8192"
  shows "map unat (bitmap_decode b) =
    filter (\<lambda>x. bit (b ! (x div 8)) (x mod 8)) [0..<length b * 8]"
proof -
  have "unat (of_nat x :: u16) = x" if "x < length b * 8" for x
    using that assms by (simp add: unat_of_nat take_bit_nat_def)
  then show ?thesis
    by (auto simp: bitmap_decode_def bitmap_decode_from_eq intro!: map_idI)
qed

lemma bitmap_decode_distinct:
  assumes "length b \<le> 8192"
  shows "distinct (bitmap_decode b)" "sorted (bitmap_decode b)"
proof -
  have "distinct (map unat (bitmap_decode b))" "sorted (map unat (bitmap_decode b))"
    by (simp_all add: bitmap_decode_unat [OF assms] sorted_wrt_filter)
  then show "distinct (bitmap_decode b)" "sorted (bitmap_decode b)"
    by (auto simp: distinct_map sorted_map word_le_nat_alt elim: sorted_wrt_mono_rel [rotated])
qed

lemma length_bitmap_encode_acc: "length (foldl (bitmap_set n) acc xs) = length acc"
  by (induction xs arbitrary: acc) (simp_all add: bitmap_set_def)

lemma length_bitmap_encode [simp]: "length (bitmap_encode xs n) = (n + 7) div 8"
  by (simp add: bitmap_encode_def length_bitmap_encode_acc)

lemma bit_bitmap_encode:
  assumes "j < (n + 7) div 8" "t < 8"
  shows "bit (bitmap_encode xs n ! j) t \<longleftrightarrow> (\<exists>i \<in> set xs. unat i < n \<and> unat i = j * 8 + t)"
proof (induction xs rule: rev_induct)
  case Nil
  with assms show ?case by (simp add: bitmap_encode_def)
next
  case (snoc x xs)
  let ?e = "bitmap_encode xs n"
  have step: "bitmap_encode (xs @ [x]) n = bitmap_set n ?e x"
    by (simp add: bitmap_encode_def)
  show ?case
  proof (cases "unat x < n \<and> unat x div 8 = j")
    case True
    then have "bitmap_set n ?e x ! j = ?e ! j OR push_bit (unat x mod 8) 1"
      using assms by (simp add: bitmap_set_def)
    moreover have "t = unat x mod 8 \<longleftrightarrow> unat x = j * 8 + t"
      using True assms(2) by presburger
    ultimately show ?thesis
      using True snoc assms(2) by (auto simp: step bit_simps)
  next
    case False
    then have "bitmap_set n ?e x ! j = ?e ! j"
      by (auto simp: bitmap_set_def nth_list_update)
    moreover have "unat x < n \<Longrightarrow> unat x \<noteq> j * 8 + t"
      using False assms(2) by auto
    ultimately show ?thesis using snoc by (auto simp: step)
  qed
qed

lemma set_bitmap_decode_encode:
  assumes "n \<le> 2 ^ 16"
  shows "set (bitmap_decode (bitmap_encode xs n)) = {i \<in> set xs. unat i < n}"
proof -
  let ?e = "bitmap_encode xs n"
  have len: "length ?e \<le> 8192" using assms by simp
  have "unat ` set (bitmap_decode ?e) = set (map unat (bitmap_decode ?e))" by simp
  also have "\<dots> = {x. x < length ?e * 8 \<and> bit (?e ! (x div 8)) (x mod 8)}"
    by (auto simp: bitmap_decode_unat [OF len])
  also have "\<dots> = {x. x < length ?e * 8 \<and> (\<exists>i \<in> set xs. unat i < n \<and> unat i = x)}"
    by (auto simp: bit_bitmap_encode less_mult_imp_div_less)
  also have "\<dots> = unat ` {i \<in> set xs. unat i < n}" by auto
  finally have "unat ` set (bitmap_decode ?e) = unat ` {i \<in> set xs. unat i < n}" .
  moreover have "inj (unat :: u16 \<Rightarrow> nat)" by (simp add: inj_def word_unat_eq_iff)
  ultimately show ?thesis by (simp only: inj_image_eq_iff)
qed

lemma bitmap_decode_from_append:
  "bitmap_decode_from k (a @ b) = bitmap_decode_from k a @ bitmap_decode_from (k + length a) b"
  by (induction a arbitrary: k) simp_all

lemma bitmap_decode_from_zeros: "bitmap_decode_from k (replicate m 0) = []"
  by (induction m arbitrary: k) (simp_all add: byte_signers_def)

lemma bitmap_decode_from_alias: "bitmap_decode_from (k + 8192) b = bitmap_decode_from k b"
proof (induction b arbitrary: k)
  case (Cons x b)
  have "(of_nat (k + 8192) * 8 :: u16) = of_nat k * 8"
    by (simp add: distrib_right)
  then have "byte_signers (k + 8192) x = byte_signers k x"
    by (simp add: byte_signers_def)
  with Cons [of "Suc k"] show ?case by simp
qed simp

lemma count_seats_spec:
  "count_seats ss ws = Some ws' \<Longrightarrow>
     length ws' = length ws \<and> (\<forall>s \<in> set ss. unat s < length ws) \<and>
     (\<forall>i < length ws. ws' ! i = ws ! i + of_nat (length (filter (\<lambda>s. unat s = i) ss)))"
  by (induction ss ws rule: count_seats.induct)
    (auto simp: nth_list_update algebra_simps split: if_splits)

lemma sum_list_bump: "k < length ws \<Longrightarrow> sum_list (ws[k := ws ! k + 1]) = sum_list ws + (1 :: u64)"
proof (induction ws arbitrary: k)
  case (Cons w ws)
  then show ?case by (cases k) (simp_all add: add.assoc)
qed simp

lemma count_seats_total:
  "count_seats ss ws = Some ws' \<Longrightarrow> sum_list ws' = sum_list ws + of_nat (length ss)"
proof (induction ss ws rule: count_seats.induct)
  case (2 s ss ws)
  then show ?case
    by (auto simp: sum_list_bump add.assoc split: if_splits)
qed simp

subsection \<open>Properties\<close>

text \<open>
  C5. A bitmap round trip: decoding the bitmap of a signer list gives exactly the signers within
  the committee, in ascending order and without repetition.
\<close>

theorem bitmap_roundtrip:
  assumes "n \<le> 2 ^ 16"
  shows "bitmap_decode (bitmap_encode xs n) = sorted_list_of_set {i \<in> set xs. unat i < n}"
proof -
  have "length (bitmap_encode xs n) \<le> 8192" using assms by simp
  then show ?thesis
    using bitmap_decode_distinct set_bitmap_decode_encode [OF assms]
    by (intro sorted_distinct_set_unique) auto
qed

theorem bitmap_roundtrip_witness:
  "bitmap_decode (bitmap_encode [9, 2, 40, 2] 10) = [2, 9]"
proof -
  have "{i \<in> set [9, 2, 40, 2]. unat i < 10} = set [2, 9 :: u16]" by auto
  then show ?thesis
    using bitmap_roundtrip [of 10 "[9, 2, 40, 2]"]
    by (simp only: sorted_list_of_set_sort_remdups) simp
qed

text \<open>
  C6. Quorum intersection on the checks the code makes: two signer bitmaps of at most 8192 bytes
  whose decoded signers are committee members and pass \<open>is_quorum\<close> share a signer outside any
  set of members that holds at most a third of the weight.
\<close>

theorem quorums_share_honest:
  assumes "set_wf vs" "length b1 \<le> 8192" "length b2 \<le> 8192"
    and "is_quorum vs (weight_of vs (bitmap_decode b1))"
    and "is_quorum vs (weight_of vs (bitmap_decode b2))"
    and "\<forall>i \<in> set (bitmap_decode b1 @ bitmap_decode b2). unat i < vs_len vs"
    and "3 * sum (wt vs) F \<le> nat_total vs"
  shows "\<exists>i. i \<in> set (bitmap_decode b1) \<and> i \<in> set (bitmap_decode b2) \<and> i \<notin> F"
proof -
  have "vs_quorum vs (set (bitmap_decode b1))" "vs_quorum vs (set (bitmap_decode b2))"
    using assms by (auto intro!: vs_quorumI bitmap_decode_distinct)
  moreover have "3 * sum (wt vs) F \<le> sum (wt vs) (members vs)"
    using assms(1,7) by (simp add: sum_wt_members set_wf_def)
  ultimately show ?thesis
    by (rule vq.quorum_inter_honest [of vs "set (bitmap_decode b1)" "set (bitmap_decode b2)" F]) auto
qed

theorem quorums_share_honest_witness:
  "\<exists>i. i \<in> set (bitmap_decode [7]) \<and> i \<in> set (bitmap_decode [14]) \<and> i \<notin> {2}"
proof -
  have d: "bitmap_decode [7] = [0, 1, 2]" "bitmap_decode [14] = [1, 2, 3]"
    by (simp_all add: bitmap_decode_def byte_signers_def upt_rec)
  show ?thesis
    by (rule quorums_share_honest [of "vs_equal 4"])
      (simp_all add: d set_wf_def nat_total_def vs_equal_def is_quorum_def weight_of_def total_def
        weight_at_def vs_len_def wt_def sum_list_replicate)
qed

text \<open>
  C7. The index of a decoded bit is cut to 16 bits, so a bitmap longer than 8192 bytes lists
  signers again: repeating a bitmap at offset 8192 doubles every signer, and with it the weight
  \<open>weight_of\<close> counts.
\<close>

theorem bitmap_decode_alias:
  assumes "length b \<le> 8192"
  shows "bitmap_decode (b @ replicate (8192 - length b) 0 @ b) = bitmap_decode b @ bitmap_decode b
    \<and> weight_of vs (bitmap_decode (b @ replicate (8192 - length b) 0 @ b)) =
        2 * weight_of vs (bitmap_decode b)"
proof -
  have "bitmap_decode (b @ replicate (8192 - length b) 0 @ b) = bitmap_decode b @ bitmap_decode b"
    using assms bitmap_decode_from_alias [of 0 b]
    by (simp add: bitmap_decode_def bitmap_decode_from_append bitmap_decode_from_zeros)
  then show ?thesis by (simp add: weight_of_def)
qed

theorem bitmap_decode_alias_witness:
  "bitmap_decode ([1] @ replicate 8191 0 @ [1]) = [0, 0]"
  using bitmap_decode_alias [of "[1]"]
  by (simp add: bitmap_decode_def byte_signers_def upt_rec)

text \<open>
  C8. Leader rotation is proportional to weight: a set built from seat assignments weighs each
  validator by its number of seats, the weights sum to the number of seats, and over any run of as
  many consecutive rounds as there are seats every validator leads exactly as often as it has
  seats.
\<close>

theorem leader_proportional:
  assumes "from_seats n ss = Some vs" "ss \<noteq> []" "a + length ss \<le> 2 ^ 64" "unat i < n"
  shows "total vs = of_nat (length ss)
    \<and> card {k. k < length ss \<and> leader vs (of_nat (a + k)) = Some i} = count_list ss i
    \<and> weights vs ! unat i = of_nat (count_list ss i)"
proof -
  from assms(1) obtain ws where ws: "count_seats ss (replicate n 0) = Some ws"
    and vs: "vs = \<lparr>weights = ws, seats = ss\<rparr>"
    by (auto simp: from_seats_def split: bind_splits)
  let ?m = "length ss"
  have cnt: "length (filter (\<lambda>s. unat s = unat i) ss) = count_list ss i"
    by (induction ss) (auto simp: word_unat_eq_iff)
  have lead: "leader vs (of_nat (a + k)) = Some (rotate a ss ! k)" if "k < ?m" for k
  proof -
    have "unat (of_nat (a + k) :: u64) = a + k"
      using assms(3) that by (intro unat_of_nat_less) simp
    with assms(2) that show ?thesis
      by (simp add: leader_def vs nth_rotate del: of_nat_add)
  qed
  have "{k. k < ?m \<and> leader vs (of_nat (a + k)) = Some i} = {k. k < ?m \<and> i = rotate a ss ! k}"
    using lead by auto
  then have "card {k. k < ?m \<and> leader vs (of_nat (a + k)) = Some i} = count_list (rotate a ss) i"
    by (simp add: count_list_eq_length_filter length_filter_conv_card)
  also have "\<dots> = count_list ss i"
    by (metis add.commute append_take_drop_id count_list_append rotate_drop_take)
  finally show ?thesis
    using count_seats_spec [OF ws] count_seats_total [OF ws] assms(4) cnt
    by (simp add: vs total_def sum_list_replicate)
qed

theorem leader_proportional_witness:
  "\<exists>vs. from_seats 3 [2, 0, 2] = Some vs
     \<and> card {k. k < length [2, 0, 2 :: u16] \<and> leader vs (of_nat (5 + k)) = Some 2}
         = count_list [2, 0, 2 :: u16] 2"
proof -
  have vs: "from_seats 3 [2, 0, 2] = Some \<lparr>weights = [1, 0, 2], seats = [2, 0, 2]\<rparr>"
    by code_simp
  from leader_proportional [OF vs, of 5 2] vs show ?thesis by auto
qed

end
