(* ===== verification/Messages.thy ===== *)
theory Messages
  imports Validators
begin

text \<open>
  The byte strings validators sign and the certificates built from them
  (\<^verbatim>\<open>crates/consensus/src/types.rs\<close>). The hash function and the signature scheme are parameters:
  \<open>H\<close> stands for \<^verbatim>\<open>keccak256\<close>, a record of type \<open>scheme\<close> for an implementation of the trait
  \<^verbatim>\<open>Scheme\<close>. The RLP decoder of block headers (\<^verbatim>\<open>alloy_consensus\<close>) is the parameter
  \<open>decode_header\<close>, which gives the parent hash and the number of a header.
\<close>

subsection \<open>Signature schemes\<close>

text \<open>\<open>sign\<close> is \<open>None\<close> where the scheme panics: it does not hold that validator's key.\<close>

record ('sig, 'agg) scheme =
  sign :: "validator_index \<Rightarrow> byte list \<Rightarrow> 'sig option"
  verify :: "validator_index \<Rightarrow> byte list \<Rightarrow> 'sig \<Rightarrow> bool"
  aggregate :: "'sig list \<Rightarrow> 'agg option"
  verify_aggregate :: "validator_index list \<Rightarrow> byte list \<Rightarrow> 'agg \<Rightarrow> bool"

definition mock_sig :: "keccak_fn \<Rightarrow> validator_index \<Rightarrow> byte list \<Rightarrow> b256" where
  "mock_sig H signer msg = H (be16 signer @ msg)"

definition mock_scheme :: "keccak_fn \<Rightarrow> (b256, b256 list) scheme" where
  "mock_scheme H = \<lparr>
     sign = (\<lambda>me msg. Some (mock_sig H me msg)),
     verify = (\<lambda>signer msg s. mock_sig H signer msg = s),
     aggregate = Some,
     verify_aggregate = (\<lambda>signers msg agg.
       length signers = length agg \<and>
       list_all (\<lambda>(s, a). mock_sig H s msg = a) (zip signers agg))\<rparr>"

subsection \<open>Signed messages\<close>

definition domain_msg :: "byte list \<Rightarrow> u64 \<Rightarrow> u64 \<Rightarrow> round \<Rightarrow> byte list \<Rightarrow> byte list" where
  "domain_msg tag chain_id epoch r extra = tag @ be64 chain_id @ be64 epoch @ be64 r @ extra"

definition vote_msg :: "u64 \<Rightarrow> u64 \<Rightarrow> round \<Rightarrow> b256 \<Rightarrow> byte list" where
  "vote_msg chain_id epoch r block = domain_msg (ascii ''boltchain/vote/v2'') chain_id epoch r (be256 block)"

definition timeout_msg :: "u64 \<Rightarrow> u64 \<Rightarrow> round \<Rightarrow> round \<Rightarrow> byte list" where
  "timeout_msg chain_id epoch r high_qc_round =
     domain_msg (ascii ''boltchain/timeout/v2'') chain_id epoch r (be64 high_qc_round)"

definition proposal_msg :: "keccak_fn \<Rightarrow> u64 \<Rightarrow> u64 \<Rightarrow> round \<Rightarrow> b256 \<Rightarrow> byte list \<Rightarrow> byte list" where
  "proposal_msg H chain_id epoch r block payload =
     domain_msg (ascii ''boltchain/proposal/v2'') chain_id epoch r (be256 block @ be256 (H payload))"

definition randao_msg :: "u64 \<Rightarrow> u64 \<Rightarrow> byte list" where
  "randao_msg chain_id height = ascii ''boltchain/randao/v1'' @ be64 chain_id @ be64 height"

definition nil_hash :: "keccak_fn \<Rightarrow> u64 \<Rightarrow> b256 \<Rightarrow> round \<Rightarrow> b256" where
  "nil_hash H epoch parent r = H (ascii ''boltchain/nil/v1'' @ be64 epoch @ be256 parent @ be64 r)"

subsection \<open>Quorum certificates\<close>

record 'agg qc =
  qc_epoch :: u64
  qc_round :: round
  qc_block :: b256
  qc_height :: u64
  qc_signers :: "byte list"
  qc_sig :: "'agg option"

definition anchor_cert :: "u64 \<Rightarrow> b256 \<Rightarrow> u64 \<Rightarrow> 'agg qc" where
  "anchor_cert epoch block height = \<lparr>qc_epoch = epoch, qc_round = 0, qc_block = block,
     qc_height = height, qc_signers = [], qc_sig = None\<rparr>"

definition genesis_cert :: "b256 \<Rightarrow> 'agg qc" where
  "genesis_cert h = anchor_cert 0 h 0"

definition is_anchor :: "'agg qc \<Rightarrow> bool" where
  "is_anchor q \<longleftrightarrow> qc_round q = 0 \<and> qc_sig q = None"

definition is_genesis :: "'agg qc \<Rightarrow> bool" where
  "is_genesis q \<longleftrightarrow> is_anchor q \<and> qc_epoch q = 0 \<and> qc_height q = 0"

definition qc_verify ::
    "('sig, 'agg) scheme \<Rightarrow> validator_set \<Rightarrow> u64 \<Rightarrow> u64 \<Rightarrow> b256 \<Rightarrow> 'agg qc \<Rightarrow> bool" where
  "qc_verify sc vs chain_id epoch anchor q =
     (if qc_epoch q \<noteq> epoch then False
      else if is_anchor q then qc_block q = anchor
      else
        (let signers = bitmap_decode (qc_signers q) in
         case qc_sig q of
           None \<Rightarrow> False
         | Some s \<Rightarrow>
             qc_round q > 0 \<and>
             is_quorum vs (weight_of vs signers) \<and>
             list_all (\<lambda>i. unat i < vs_len vs) signers \<and>
             verify_aggregate sc signers (vote_msg chain_id (qc_epoch q) (qc_round q) (qc_block q)) s))"

subsection \<open>Timeout certificates\<close>

record ('sig, 'agg) tc =
  tc_epoch :: u64
  tc_round :: round
  tc_high_qc :: "'agg qc"
  tc_entries :: "(validator_index \<times> round \<times> 'sig) list"

definition max_qc_round :: "('sig, 'agg) tc \<Rightarrow> round" where
  "max_qc_round t = fold (\<lambda>e m. max (fst (snd e)) m) (tc_entries t) 0"

definition tc_verify ::
    "('sig, 'agg) scheme \<Rightarrow> validator_set \<Rightarrow> u64 \<Rightarrow> u64 \<Rightarrow> b256 \<Rightarrow> ('sig, 'agg) tc \<Rightarrow> bool" where
  "tc_verify sc vs chain_id epoch anchor t =
     (let signers = remdups_adj (sort (map fst (tc_entries t))) in
      tc_epoch t = epoch \<and>
      length signers = length (tc_entries t) \<and>
      is_quorum vs (weight_of vs signers) \<and>
      list_all (\<lambda>i. unat i < vs_len vs) signers \<and>
      list_all (\<lambda>(i, qr, s). qr < tc_round t \<and>
        verify sc i (timeout_msg chain_id epoch (tc_round t) qr) s) (tc_entries t) \<and>
      qc_round (tc_high_qc t) = max_qc_round t \<and>
      qc_verify sc vs chain_id epoch anchor (tc_high_qc t))"

subsection \<open>Blocks and messages\<close>

record block_info =
  bi_hash :: b256
  bi_parent :: b256
  bi_round :: round
  bi_height :: u64

record ('sig, 'agg) proposal =
  p_epoch :: u64
  p_block :: block_info
  p_qc :: "'agg qc"
  p_tc :: "('sig, 'agg) tc option"
  p_proposer :: validator_index
  p_payload :: "byte list"
  p_sig :: 'sig

record 'sig vote =
  v_epoch :: u64
  v_round :: round
  v_block :: b256
  v_height :: u64
  v_signer :: validator_index
  v_sig :: 'sig

record ('sig, 'agg) timeout =
  t_epoch :: u64
  t_round :: round
  t_high_qc :: "'agg qc"
  t_signer :: validator_index
  t_sig :: 'sig
  t_last_tc :: "('sig, 'agg) tc option"

datatype ('sig, 'agg) message =
    MProposal "('sig, 'agg) proposal"
  | MVote "'sig vote"
  | MTimeout "('sig, 'agg) timeout"

fun message_epoch :: "('sig, 'agg) message \<Rightarrow> u64" where
  "message_epoch (MProposal p) = p_epoch p"
| "message_epoch (MVote v) = v_epoch v"
| "message_epoch (MTimeout t) = t_epoch t"

subsection \<open>Finality proofs\<close>

record 'agg commit_proof =
  cp_qc :: "'agg qc"
  cp_child_qc :: "'agg qc"
  cp_child_header :: "byte list"
  cp_nil_rounds :: "round list"
  cp_committed :: b256
  cp_committed_height :: u64

text \<open>The nil chain from \<open>committed\<close>: the last two hashes, oldest first.\<close>

fun nil_chain :: "keccak_fn \<Rightarrow> u64 \<Rightarrow> b256 \<Rightarrow> b256 \<Rightarrow> round list \<Rightarrow> b256 \<times> b256" where
  "nil_chain H epoch prev cur [] = (prev, cur)"
| "nil_chain H epoch prev cur (r # rs) = nil_chain H epoch cur (nil_hash H epoch cur r) rs"

definition commit_proof_verify ::
    "keccak_fn \<Rightarrow> (byte list \<Rightarrow> (b256 \<times> u64) option) \<Rightarrow> ('sig, 'agg) scheme \<Rightarrow> validator_set \<Rightarrow> u64
      \<Rightarrow> b256 \<Rightarrow> 'agg commit_proof \<Rightarrow> b256 option" where
  "commit_proof_verify H decode_header sc vs chain_id anchor p =
     (let epoch = qc_epoch (cp_qc p);
          q = cp_qc p;
          c = cp_child_qc p;
          certs_ok =
            qc_round c = qc_round q + 1 \<and>
            qc_height c = qc_height q + 1 \<and>
            qc_epoch c = epoch \<and>
            \<not> is_anchor q \<and>
            qc_verify sc vs chain_id epoch anchor q \<and>
            qc_verify sc vs chain_id epoch anchor c
      in
      if \<not> certs_ok then None
      else if cp_nil_rounds p = [] then
        (case decode_header (cp_child_header p) of
           None \<Rightarrow> None
         | Some (parent_hash, number) \<Rightarrow>
             (if H (cp_child_header p) = qc_block c
                 \<and> parent_hash = qc_block q
                 \<and> number = qc_height q + 1
                 \<and> cp_committed p = qc_block q
                 \<and> cp_committed_height p = qc_height q
              then Some (cp_committed p) else None))
      else
        (let (prev, cur) = nil_chain H epoch (cp_committed p) (cp_committed p) (cp_nil_rounds p) in
         if cur = qc_block c
            \<and> prev = qc_block q
            \<and> qc_round c = last (cp_nil_rounds p)
            \<and> qc_height c = cp_committed_height p + of_nat (length (cp_nil_rounds p))
         then Some (cp_committed p) else None))"

datatype 'agg cert = CQc "'agg qc" | CEpoch "'agg commit_proof"

fun votes_of_cert :: "'agg cert \<Rightarrow> u64 \<times> byte list" where
  "votes_of_cert (CQc q) = (qc_epoch q, qc_signers q)"
| "votes_of_cert (CEpoch p) = (qc_epoch (cp_qc p), qc_signers (cp_qc p))"

text \<open>The wire codec (dag-cbor) is the parameter pair \<open>ser\<close>, \<open>de\<close>.\<close>

definition encode_cert :: "('agg cert \<Rightarrow> byte list) \<Rightarrow> 'agg cert \<Rightarrow> byte list" where
  "encode_cert ser c =
     (case c of
        CQc q \<Rightarrow> if is_genesis q then [] else ser c
      | CEpoch p \<Rightarrow> ser c)"

definition decode_cert :: "(byte list \<Rightarrow> 'agg cert option) \<Rightarrow> byte list \<Rightarrow> 'agg cert option" where
  "decode_cert de b = (if b = [] then None else de b)"

definition cert_votes :: "(byte list \<Rightarrow> 'agg cert option) \<Rightarrow> byte list \<Rightarrow> u64 \<times> u64 \<times> byte list" where
  "cert_votes de b =
     (case decode_cert de b of
        Some c \<Rightarrow>
          (let (e, bm) = votes_of_cert c;
               r = (case c of CQc q \<Rightarrow> qc_round q | CEpoch p \<Rightarrow> qc_round (cp_qc p))
           in (e, r, bm))
      | None \<Rightarrow> (0, 0, []))"

subsection \<open>What a verified certificate shows\<close>

text \<open>
  Unforgeability of a scheme, relative to the messages \<open>says i\<close> each validator \<open>i\<close> signed:
  whatever verifies was signed by every signer outside \<open>F\<close>, the set of validators whose keys may
  sign anything.
\<close>

definition agg_sound ::
    "('sig, 'agg) scheme \<Rightarrow> validator_index set \<Rightarrow> (validator_index \<Rightarrow> byte list \<Rightarrow> bool) \<Rightarrow> bool" where
  "agg_sound sc F says \<longleftrightarrow>
     (\<forall>signers msg a. verify_aggregate sc signers msg a \<longrightarrow> (\<forall>i \<in> set signers - F. says i msg))"

definition sig_sound ::
    "('sig, 'agg) scheme \<Rightarrow> validator_index set \<Rightarrow> (validator_index \<Rightarrow> byte list \<Rightarrow> bool) \<Rightarrow> bool" where
  "sig_sound sc F says \<longleftrightarrow> (\<forall>i msg s. verify sc i msg s \<longrightarrow> i \<notin> F \<longrightarrow> says i msg)"

definition byz_third :: "validator_set \<Rightarrow> validator_index set \<Rightarrow> bool" where
  "byz_third vs F \<longleftrightarrow> 3 * sum (wt vs) F \<le> nat_total vs"

lemma byz_third_members:
  "set_wf vs \<Longrightarrow> byz_third vs F \<Longrightarrow> 3 * sum (wt vs) F \<le> sum (wt vs) (members vs)"
  by (simp add: byz_third_def sum_wt_members set_wf_def)

lemma qc_verify_epoch: "qc_verify sc vs cid e a q \<Longrightarrow> qc_epoch q = e"
  by (simp add: qc_verify_def split: if_splits)

lemma qc_verify_anchor: "qc_verify sc vs cid e a q \<Longrightarrow> is_anchor q \<Longrightarrow> qc_block q = a"
  by (simp add: qc_verify_def split: if_splits)

lemma qc_verify_signed:
  assumes "qc_verify sc vs cid e a q" "\<not> is_anchor q"
  obtains s where "qc_sig q = Some s" "0 < qc_round q"
    "is_quorum vs (weight_of vs (bitmap_decode (qc_signers q)))"
    "\<forall>i \<in> set (bitmap_decode (qc_signers q)). unat i < vs_len vs"
    "verify_aggregate sc (bitmap_decode (qc_signers q)) (vote_msg cid e (qc_round q) (qc_block q)) s"
  using assms by (auto simp: qc_verify_def Let_def list_all_iff split: if_splits option.splits)

lemma qc_verify_round_0:
  "qc_verify sc vs cid e a q \<Longrightarrow> is_anchor q \<longleftrightarrow> qc_round q = 0"
  by (auto simp: qc_verify_def is_anchor_def Let_def split: if_splits option.splits)

text \<open>A certificate that verifies carries the votes of a quorum.\<close>

lemma qc_verify_quorum:
  assumes "set_wf vs" "qc_verify sc vs cid e a q" "0 < qc_round q" "length (qc_signers q) \<le> 8192"
    and "agg_sound sc F says"
  shows "vs_quorum vs (set (bitmap_decode (qc_signers q)))
    \<and> (\<forall>i \<in> set (bitmap_decode (qc_signers q)) - F. says i (vote_msg cid e (qc_round q) (qc_block q)))"
proof -
  have "\<not> is_anchor q" using assms(3) by (auto simp: is_anchor_def)
  from qc_verify_signed [OF assms(2) this] obtain s where
    s: "is_quorum vs (weight_of vs (bitmap_decode (qc_signers q)))"
      "\<forall>i \<in> set (bitmap_decode (qc_signers q)). unat i < vs_len vs"
      "verify_aggregate sc (bitmap_decode (qc_signers q)) (vote_msg cid e (qc_round q) (qc_block q)) s" .
  have "vs_quorum vs (set (bitmap_decode (qc_signers q)))"
    using assms(1,4) s(1,2) by (intro vs_quorumI bitmap_decode_distinct)
  with s(3) assms(5) show ?thesis unfolding agg_sound_def by blast
qed

lemma fold_max_entries:
  "fold (\<lambda>e m. max (fst (snd e)) m) es m0 \<ge> (m0 :: u64)
    \<and> (\<forall>e \<in> set es. fst (snd e) \<le> fold (\<lambda>e m. max (fst (snd e)) m) es m0)"
proof (induction es arbitrary: m0)
  case (Cons x es)
  show ?case
    using Cons [of "max (fst (snd x)) m0"] by (auto intro: order.trans)
qed simp

lemma max_qc_round_ge: "e \<in> set (tc_entries t) \<Longrightarrow> fst (snd e) \<le> max_qc_round t"
  using fold_max_entries [where es = "tc_entries t"] by (auto simp: max_qc_round_def)

text \<open>A timeout certificate carries the timeouts of a quorum, none above the round it reports.\<close>

lemma tc_verify_quorum:
  assumes "set_wf vs" "tc_verify sc vs cid e a t" "sig_sound sc F says"
  obtains Q where "vs_quorum vs Q"
    "\<forall>i \<in> Q - F. \<exists>qr \<le> max_qc_round t. qr < tc_round t \<and> says i (timeout_msg cid e (tc_round t) qr)"
proof
  let ?s = "remdups_adj (sort (map fst (tc_entries t)))"
  have d: "distinct ?s" by (rule distinct_dedup)
  show "vs_quorum vs (set ?s)"
    using assms(1,2) d by (intro vs_quorumI) (auto simp: tc_verify_def Let_def list_all_iff)
  show "\<forall>i \<in> set ?s - F. \<exists>qr \<le> max_qc_round t. qr < tc_round t \<and> says i (timeout_msg cid e (tc_round t) qr)"
  proof
    fix i
    assume "i \<in> set ?s - F"
    then obtain qr s where en: "(i, qr, s) \<in> set (tc_entries t)" and F: "i \<notin> F" by auto
    with assms(2) have "qr < tc_round t" "verify sc i (timeout_msg cid e (tc_round t) qr) s"
      by (auto simp: tc_verify_def Let_def list_all_iff)
    with assms(3) F max_qc_round_ge [OF en]
    show "\<exists>qr \<le> max_qc_round t. qr < tc_round t \<and> says i (timeout_msg cid e (tc_round t) qr)"
      by (auto simp: sig_sound_def)
  qed
qed

lemma vote_msg_inj [simp]:
  "vote_msg c e r b = vote_msg c' e' r' b' \<longleftrightarrow> c = c' \<and> e = e' \<and> r = r' \<and> b = b'"
  by (auto simp: vote_msg_def domain_msg_def)

lemma timeout_msg_inj [simp]:
  "timeout_msg c e r b = timeout_msg c' e' r' b' \<longleftrightarrow> c = c' \<and> e = e' \<and> r = r' \<and> b = b'"
  by (auto simp: timeout_msg_def domain_msg_def)

lemma nil_chain_append:
  "nil_chain H e p c (xs @ ys) = (let (p', c') = nil_chain H e p c xs in nil_chain H e p' c' ys)"
  by (induction xs arbitrary: p c) auto

subsection \<open>Properties of certificates\<close>

text \<open>
  C4. No two blocks are certified in one round without an equivocation: two quorum certificates of
  one epoch and round above 0 that verify, for different blocks, both with signer bitmaps of at most
  8192 bytes, prove that some validator outside the faulty third signed votes for both.
\<close>

theorem qc_conflict_equivocation:
  assumes "set_wf vs" "byz_third vs F" "agg_sound sc F says"
    and "qc_verify sc vs cid e a q" "qc_verify sc vs cid e a q'"
    and "length (qc_signers q) \<le> 8192" "length (qc_signers q') \<le> 8192"
    and "0 < qc_round q" "qc_round q' = qc_round q" "qc_block q \<noteq> qc_block q'"
  shows "\<exists>i. i \<notin> F \<and> says i (vote_msg cid e (qc_round q) (qc_block q))
    \<and> says i (vote_msg cid e (qc_round q) (qc_block q'))"
proof -
  from assms have
    q: "vs_quorum vs (set (bitmap_decode (qc_signers q)))"
       "\<forall>i \<in> set (bitmap_decode (qc_signers q)) - F. says i (vote_msg cid e (qc_round q) (qc_block q))"
    and q': "vs_quorum vs (set (bitmap_decode (qc_signers q')))"
       "\<forall>i \<in> set (bitmap_decode (qc_signers q')) - F. says i (vote_msg cid e (qc_round q') (qc_block q'))"
    using qc_verify_quorum [of vs sc cid e a q F says] qc_verify_quorum [of vs sc cid e a q' F says]
    by simp_all
  from vq.quorum_inter_honest [OF q(1) q'(1) byz_third_members [OF assms(1,2)]] obtain i where
    "i \<in> set (bitmap_decode (qc_signers q))" "i \<in> set (bitmap_decode (qc_signers q'))" "i \<notin> F"
    by auto
  with q(2) q'(2) assms(9) show ?thesis by auto
qed

text \<open>The ideal scheme over a log of signed messages: exactly the logged messages verify.\<close>

definition ideal_scheme :: "(validator_index \<Rightarrow> byte list \<Rightarrow> bool) \<Rightarrow> (unit, unit) scheme" where
  "ideal_scheme says = \<lparr>
     sign = (\<lambda>i msg. Some ()),
     verify = (\<lambda>i msg s. says i msg),
     aggregate = (\<lambda>ss. Some ()),
     verify_aggregate = (\<lambda>is msg a. list_all (\<lambda>i. says i msg) is)\<rparr>"

lemma ideal_scheme_sound [simp]:
  "agg_sound (ideal_scheme says) F says" "sig_sound (ideal_scheme says) F says"
  by (simp_all add: agg_sound_def sig_sound_def ideal_scheme_def list_all_iff)

definition toy_qc :: "round \<Rightarrow> b256 \<Rightarrow> byte \<Rightarrow> unit qc" where
  "toy_qc r b bm = \<lparr>qc_epoch = 1, qc_round = r, qc_block = b, qc_height = ucast r, qc_signers = [bm],
     qc_sig = Some ()\<rparr>"

text \<open>Validators 0, 1, 2 of four voted for block 5 in round 3, validators 1, 2, 3 for block 6.\<close>

definition toy_says :: "validator_index \<Rightarrow> byte list \<Rightarrow> bool" where
  "toy_says i msg \<longleftrightarrow>
     (i \<in> {0, 1, 2} \<and> msg = vote_msg 7 1 3 5) \<or> (i \<in> {1, 2, 3} \<and> msg = vote_msg 7 1 3 6)"

lemma toy_bitmaps: "bitmap_decode [7] = [0, 1, 2]" "bitmap_decode [14] = [1, 2, 3]"
  by (simp_all add: bitmap_decode_def byte_signers_def upt_rec)

lemma set_wf_equal_4: "set_wf (vs_equal 4)"
  by (simp add: set_wf_def nat_total_def vs_equal_def sum_list_replicate)

lemma toy_qc_verify:
  assumes "says = toy_says"
  shows "qc_verify (ideal_scheme says) (vs_equal 4) 7 1 a (toy_qc 3 5 7)"
    and "qc_verify (ideal_scheme says) (vs_equal 4) 7 1 a (toy_qc 3 6 14)"
  by (simp_all add: assms toy_bitmaps toy_says_def toy_qc_def ideal_scheme_def qc_verify_def is_anchor_def
      vs_equal_def is_quorum_def weight_of_def total_def weight_at_def vs_len_def sum_list_replicate)

theorem qc_conflict_equivocation_witness:
  "\<exists>i. i \<notin> {2} \<and> toy_says i (vote_msg 7 1 3 5) \<and> toy_says i (vote_msg 7 1 3 6)"
  using qc_conflict_equivocation [OF set_wf_equal_4 _ ideal_scheme_sound(1)
      toy_qc_verify(1) [OF refl] toy_qc_verify(2) [OF refl], of "{2}"]
  by (simp add: toy_qc_def byz_third_def nat_total_def vs_equal_def wt_def weight_at_def sum_list_replicate)

text \<open>
  C10. The length of a signer bitmap is not bounded, and with the repeated indices of a long bitmap
  one validator's signature certifies any block: in a committee of \<open>n\<close> equal members, \<open>k\<close> copies
  of the first member's signature form a certificate that verifies as soon as \<open>3 k > 2 n\<close>.
\<close>

theorem qc_forged_by_one:
  assumes "0 < n" "2 * n < 3 * k" "k < 2 ^ 32" "n < 2 ^ 32" "0 < r"
  shows "qc_verify (mock_scheme H) (vs_equal n) cid e a
    \<lparr>qc_epoch = e, qc_round = r, qc_block = b, qc_height = h,
     qc_signers = concat (replicate k ([1] @ replicate 8191 0)),
     qc_sig = Some (replicate k (mock_sig H 0 (vote_msg cid e r b)))\<rparr>"
proof -
  have one: "bitmap_decode_from (8192 * m) ([1] @ replicate 8191 0) = [0]" for m
  proof (induction m)
    case (Suc m)
    then show ?case
      using bitmap_decode_from_alias [of "8192 * m" "[1] @ replicate 8191 0"] by (simp add: add.commute)
  qed (simp add: bitmap_decode_from_zeros byte_signers_def upt_rec)
  have "bitmap_decode_from (8192 * m) (concat (replicate k ([1] @ replicate 8191 0))) = replicate k 0" for m
  proof (induction k arbitrary: m)
    case (Suc k)
    have "8192 * m + length ([1 :: byte] @ replicate 8191 0) = 8192 * Suc m" by simp
    then show ?case
      using Suc [of "Suc m"] one [of m]
      by (simp only: replicate.simps concat.simps bitmap_decode_from_append) simp
  qed simp
  from this [of 0] have d: "bitmap_decode (concat (replicate k ([1] @ replicate 8191 0))) = replicate k 0"
    by (simp add: bitmap_decode_def)
  have "is_quorum (vs_equal n) (weight_of (vs_equal n) (replicate k 0))"
    using assms
    by (simp add: is_quorum_def weight_of_def weight_at_def vs_equal_def total_def sum_list_replicate
        word_less_nat_alt unat_word_ariths unat_of_nat_less)
  with assms show ?thesis
    using zip_replicate [of k "0 :: u16" k "mock_sig H 0 (vote_msg cid e r b)"]
    by (auto simp: qc_verify_def d [simplified] is_anchor_def mock_scheme_def list_all_iff vs_len_def
        vs_equal_def Let_def)
qed

theorem qc_forged_by_one_witness:
  "qc_verify (mock_scheme (\<lambda>_. 0)) (vs_equal 4) 7 1 0
    \<lparr>qc_epoch = 1, qc_round = 5, qc_block = 66, qc_height = 9,
     qc_signers = concat (replicate 3 ([1] @ replicate 8191 0)),
     qc_sig = Some (replicate 3 (mock_sig (\<lambda>_. 0) 0 (vote_msg 7 1 5 66)))\<rparr>"
  by (rule qc_forged_by_one) simp_all

end
