(* ===== verification/Bls.thy ===== *)
theory Bls
  imports Messages
begin

text \<open>
  BLS signatures (\<^verbatim>\<open>crates/primitives/src/bls.rs\<close>) and the production scheme \<^verbatim>\<open>BlsScheme\<close>
  (\<^verbatim>\<open>crates/consensus/src/lib.rs\<close>). The curve library \<^verbatim>\<open>blst\<close> is the parameter record
  \<open>blst\<close>: decoding of keys and signatures with their validity checks, signing, the two
  verification functions and aggregation.
\<close>

subsection \<open>Keys and signatures\<close>

record ('pk, 'sg, 'sk) blst =
  key_validate :: "byte list \<Rightarrow> 'pk option"
  sig_validate :: "byte list \<Rightarrow> 'sg option"
  core_sign :: "'sk \<Rightarrow> byte list \<Rightarrow> byte list \<Rightarrow> 'sg"
  sk_to_pk :: "'sk \<Rightarrow> 'pk"
  compress_pk :: "'pk \<Rightarrow> byte list"
  compress_sig :: "'sg \<Rightarrow> byte list"
  core_verify :: "'sg \<Rightarrow> byte list \<Rightarrow> byte list \<Rightarrow> 'pk \<Rightarrow> bool"
  core_fast_aggregate_verify :: "'sg \<Rightarrow> byte list \<Rightarrow> byte list \<Rightarrow> 'pk list \<Rightarrow> bool"
  core_aggregate :: "'sg list \<Rightarrow> 'sg option"
  serialize_pk :: "'pk \<Rightarrow> byte list"
  serialize_sig :: "'sg \<Rightarrow> byte list"

type_synonym bls_public_key = "byte list"
type_synonym bls_signature = "byte list"

definition SIG_DST :: "byte list" where
  "SIG_DST = ascii ''BLS_SIG_BLS12381G2_XMD:SHA-256_SSWU_RO_POP_''"

definition POP_DST :: "byte list" where
  "POP_DST = ascii ''BLS_POP_BLS12381G2_XMD:SHA-256_SSWU_RO_POP_''"

definition public_key :: "('pk, 'sg, 'sk) blst \<Rightarrow> 'sk \<Rightarrow> bls_public_key" where
  "public_key B k = compress_pk B (sk_to_pk B k)"

definition sk_sign :: "('pk, 'sg, 'sk) blst \<Rightarrow> 'sk \<Rightarrow> byte list \<Rightarrow> bls_signature" where
  "sk_sign B k msg = compress_sig B (core_sign B k msg SIG_DST)"

definition proof_of_possession :: "('pk, 'sg, 'sk) blst \<Rightarrow> 'sk \<Rightarrow> bls_signature" where
  "proof_of_possession B k = compress_sig B (core_sign B k (public_key B k) POP_DST)"

definition pubkey_point :: "('pk, 'sg, 'sk) blst \<Rightarrow> bls_public_key \<Rightarrow> byte list option" where
  "pubkey_point B pk_bytes = do {
     p \<leftarrow> key_validate B pk_bytes;
     let raw = serialize_pk B p;
     Some (replicate 16 0 @ take 48 raw @ replicate 16 0 @ take 48 (drop 48 raw))
   }"

definition signature_point :: "('pk, 'sg, 'sk) blst \<Rightarrow> bls_signature \<Rightarrow> byte list option" where
  "signature_point B s = do {
     p \<leftarrow> sig_validate B s;
     let raw = serialize_sig B p;
     Some (concat (map (\<lambda>src. replicate 16 0 @ take 48 (drop src raw)) [48, 0, 144, 96]))
   }"

definition is_valid_public_key :: "('pk, 'sg, 'sk) blst \<Rightarrow> bls_public_key \<Rightarrow> bool" where
  "is_valid_public_key B p \<longleftrightarrow> key_validate B p \<noteq> None"

definition bls_verify ::
    "('pk, 'sg, 'sk) blst \<Rightarrow> bls_public_key \<Rightarrow> byte list \<Rightarrow> bls_signature \<Rightarrow> bool" where
  "bls_verify B p msg s =
     (case (key_validate B p, sig_validate B s) of
        (Some p', Some s') \<Rightarrow> core_verify B s' msg SIG_DST p'
      | _ \<Rightarrow> False)"

definition verify_possession ::
    "('pk, 'sg, 'sk) blst \<Rightarrow> bls_public_key \<Rightarrow> bls_signature \<Rightarrow> bool" where
  "verify_possession B p pop =
     (case (key_validate B p, sig_validate B pop) of
        (Some p', Some s') \<Rightarrow> core_verify B s' p POP_DST p'
      | _ \<Rightarrow> False)"

definition prepare :: "('pk, 'sg, 'sk) blst \<Rightarrow> bls_public_key \<Rightarrow> 'pk option" where
  "prepare B p = key_validate B p"

definition verify_prepared :: "('pk, 'sg, 'sk) blst \<Rightarrow> 'pk \<Rightarrow> byte list \<Rightarrow> bls_signature \<Rightarrow> bool" where
  "verify_prepared B p msg s =
     (case sig_validate B s of Some s' \<Rightarrow> core_verify B s' msg SIG_DST p | None \<Rightarrow> False)"

definition fast_aggregate_verify_prepared ::
    "('pk, 'sg, 'sk) blst \<Rightarrow> 'pk list \<Rightarrow> byte list \<Rightarrow> bls_signature \<Rightarrow> bool" where
  "fast_aggregate_verify_prepared B pks msg agg \<longleftrightarrow>
     pks \<noteq> [] \<and>
     (case sig_validate B agg of
        Some s \<Rightarrow> core_fast_aggregate_verify B s msg SIG_DST pks
      | None \<Rightarrow> False)"

text \<open>\<open>collect::<Option<Vec<_>>>\<close>: all or nothing.\<close>

fun collect :: "'a option list \<Rightarrow> 'a list option" where
  "collect [] = Some []"
| "collect (x # xs) = do { y \<leftarrow> x; ys \<leftarrow> collect xs; Some (y # ys) }"

definition bls_aggregate :: "('pk, 'sg, 'sk) blst \<Rightarrow> bls_signature list \<Rightarrow> bls_signature option" where
  "bls_aggregate B sigs = do {
     parsed \<leftarrow> collect (map (sig_validate B) sigs);
     agg \<leftarrow> core_aggregate B parsed;
     Some (compress_sig B agg)
   }"

definition fast_aggregate_verify ::
    "('pk, 'sg, 'sk) blst \<Rightarrow> bls_public_key list \<Rightarrow> byte list \<Rightarrow> bls_signature \<Rightarrow> bool" where
  "fast_aggregate_verify B pks msg agg =
     (case collect (map (key_validate B) pks) of
        None \<Rightarrow> False
      | Some parsed \<Rightarrow>
          (case sig_validate B agg of
             Some s \<Rightarrow> core_fast_aggregate_verify B s msg SIG_DST parsed
           | None \<Rightarrow> False))"

subsection \<open>The production scheme\<close>

record ('pk, 'sk) bls_scheme =
  bs_keys :: "bls_public_key list"
  bs_prepared :: "'pk option list"
  bs_secrets :: "(validator_index, 'sk) btmap"

definition add_local ::
    "('pk, 'sg, 'sk) blst \<Rightarrow> bls_public_key list \<Rightarrow> 'sk
      \<Rightarrow> (validator_index, 'sk) btmap \<Rightarrow> (validator_index, 'sk) btmap" where
  "add_local B keys sk m =
     fold (\<lambda>(i, k) m. if k = public_key B sk then bt_insert (of_nat i) sk m else m)
       (enumerate 0 keys) m"

definition bls_scheme_new ::
    "('pk, 'sg, 'sk) blst \<Rightarrow> bls_public_key list \<Rightarrow> 'sk list \<Rightarrow> ('pk, 'sk) bls_scheme" where
  "bls_scheme_new B keys local = \<lparr>
     bs_keys = keys,
     bs_prepared = map (prepare B) keys,
     bs_secrets = fold (add_local B keys) local []\<rparr>"

definition bs_signers :: "('pk, 'sk) bls_scheme \<Rightarrow> validator_index list" where
  "bs_signers s = sort (map fst (bs_secrets s))"

definition bs_key :: "('pk, 'sk) bls_scheme \<Rightarrow> validator_index \<Rightarrow> bls_public_key option" where
  "bs_key s i = (if unat i < length (bs_keys s) then Some (bs_keys s ! unat i) else None)"

definition prepared_at :: "('pk, 'sk) bls_scheme \<Rightarrow> validator_index \<Rightarrow> 'pk option" where
  "prepared_at s i = (if unat i < length (bs_prepared s) then bs_prepared s ! unat i else None)"

definition as_scheme ::
    "('pk, 'sg, 'sk) blst \<Rightarrow> ('pk, 'sk) bls_scheme \<Rightarrow> (bls_signature, bls_signature) scheme" where
  "as_scheme B s = \<lparr>
     sign = (\<lambda>me msg. map_option (\<lambda>sk. sk_sign B sk msg) (bt_get me (bs_secrets s))),
     verify = (\<lambda>signer msg g.
       case prepared_at s signer of Some pk \<Rightarrow> verify_prepared B pk msg g | None \<Rightarrow> False),
     aggregate = bls_aggregate B,
     verify_aggregate = (\<lambda>signers msg agg.
       case collect (map (prepared_at s) signers) of
         None \<Rightarrow> False
       | Some pks \<Rightarrow> fast_aggregate_verify_prepared B pks msg agg)\<rparr>"

subsection \<open>Lemmas\<close>

lemma collect_eq_Some: "collect xs = Some ys \<longleftrightarrow> xs = map Some ys"
  by (induction xs arbitrary: ys) (auto simp: bind_eq_Some_conv)

lemma verify_prepared_eq:
  "prepare B p = Some pk \<Longrightarrow> verify_prepared B pk msg s = bls_verify B p msg s"
  by (simp add: prepare_def verify_prepared_def bls_verify_def split: option.splits)

lemma fast_aggregate_verify_prepared_eq:
  "map (prepare B) ps = map Some pks \<Longrightarrow>
     fast_aggregate_verify_prepared B pks msg agg \<longleftrightarrow> ps \<noteq> [] \<and> fast_aggregate_verify B ps msg agg"
proof -
  assume ps: "map (prepare B) ps = map Some pks"
  moreover have "prepare B = key_validate B" by (simp add: prepare_def fun_eq_iff)
  ultimately have "collect (map (key_validate B) ps) = Some pks" by (simp add: collect_eq_Some)
  moreover from ps have "ps = [] \<longleftrightarrow> pks = []" by (metis map_is_Nil_conv)
  ultimately show ?thesis
    by (simp add: fast_aggregate_verify_prepared_def fast_aggregate_verify_def)
qed

text \<open>The local keys a scheme signs with sit at the indices of their own public keys.\<close>

lemma add_local_get:
  assumes "bt_get i (fold (\<lambda>(j, k) m. if k = pk then bt_insert (of_nat j) sk m else m) xs m) = Some sk'"
  shows "(sk' = sk \<and> (\<exists>j. (j, pk) \<in> set xs \<and> i = of_nat j)) \<or> bt_get i m = Some sk'"
  using assms
proof (induction xs arbitrary: m)
  case (Cons x xs)
  obtain j k where x: "x = (j, k)" by force
  from Cons.prems x have "bt_get i (fold (\<lambda>(j, k) m. if k = pk then bt_insert (of_nat j) sk m else m) xs
      (if k = pk then bt_insert (of_nat j) sk m else m)) = Some sk'" by simp
  from Cons.IH [OF this] x show ?case
    by (auto simp: bt_get_insert split: if_splits)
qed simp

lemma bs_secrets_key:
  assumes "bt_get i (fold (add_local B keys) local m) = Some sk"
    and "\<And>i sk. bt_get i m = Some sk \<Longrightarrow> \<exists>j < length keys. keys ! j = public_key B sk \<and> i = of_nat j"
  shows "\<exists>j < length keys. keys ! j = public_key B sk \<and> i = of_nat j"
  using assms
proof (induction local arbitrary: m)
  case (Cons l ls)
  show ?case
  proof (rule Cons.IH)
    show "bt_get i (fold (add_local B keys) ls (add_local B keys l m)) = Some sk"
      using Cons.prems(1) by simp
  next
    fix i' sk'
    assume "bt_get i' (add_local B keys l m) = Some sk'"
    from add_local_get [OF this [unfolded add_local_def]] Cons.prems(2) [of i' sk']
    show "\<exists>j < length keys. keys ! j = public_key B sk' \<and> i' = of_nat j"
      by (auto simp: in_set_enumerate_eq)
  qed
qed simp

subsection \<open>Properties\<close>

text \<open>
  C9. The production scheme signs correctly: whenever it signs as committee index \<open>i\<close> (of a
  committee of at most 65536 keys), the signature verifies as \<open>i\<close>'s, provided the curve library
  verifies what it signs and decodes what it encodes.
\<close>

theorem bls_sign_verifies:
  assumes core: "\<And>sk msg dst. core_verify B (core_sign B sk msg dst) msg dst (sk_to_pk B sk)"
    and pk: "\<And>sk. key_validate B (compress_pk B (sk_to_pk B sk)) = Some (sk_to_pk B sk)"
    and sg: "\<And>sk msg dst. sig_validate B (compress_sig B (core_sign B sk msg dst)) = Some (core_sign B sk msg dst)"
    and len: "length keys \<le> 2 ^ 16"
    and s: "s = bls_scheme_new B keys local"
    and sign: "sign (as_scheme B s) i msg = Some g"
  shows "verify (as_scheme B s) i msg g"
proof -
  from sign obtain sk where sk: "bt_get i (bs_secrets s) = Some sk" and g: "g = sk_sign B sk msg"
    by (auto simp: as_scheme_def)
  from sk s obtain j where j: "j < length keys" "keys ! j = public_key B sk" "i = of_nat j"
    using bs_secrets_key [of i B keys local "[]" sk] by (auto simp: bls_scheme_new_def)
  with len have i: "unat i = j" by (simp add: unat_of_nat_less)
  have "prepared_at s i = Some (sk_to_pk B sk)"
    using i j by (simp add: prepared_at_def s bls_scheme_new_def prepare_def public_key_def pk)
  then show ?thesis
    by (simp add: as_scheme_def verify_prepared_def g sk_sign_def sg core)
qed

definition toy_blst :: "(byte list, byte list, byte list) blst" where
  "toy_blst = \<lparr>key_validate = Some, sig_validate = Some, core_sign = (\<lambda>sk msg dst. sk @ msg @ dst),
     sk_to_pk = id, compress_pk = id, compress_sig = id,
     core_verify = (\<lambda>g msg dst pk. g = pk @ msg @ dst),
     core_fast_aggregate_verify = (\<lambda>g msg dst pks. g = concat (map (\<lambda>pk. pk @ msg @ dst) pks)),
     core_aggregate = (\<lambda>gs. Some (concat gs)), serialize_pk = id, serialize_sig = id\<rparr>"

theorem bls_sign_verifies_witness:
  "verify (as_scheme toy_blst (bls_scheme_new toy_blst [[1], [2]] [[2]])) 1 [7] (sk_sign toy_blst [2] [7])"
proof (rule bls_sign_verifies)
  show "sign (as_scheme toy_blst (bls_scheme_new toy_blst [[1], [2]] [[2]])) 1 [7]
      = Some (sk_sign toy_blst [2] [7])"
    by (simp add: as_scheme_def bls_scheme_new_def add_local_def toy_blst_def public_key_def bt_get_def)
qed (simp_all add: toy_blst_def)

end
