(* ===== verification/Panels.thy ===== *)
theory Panels
  imports Bls
begin

text \<open>
  Panel votes and certificates (\<^verbatim>\<open>crates/consensus/src/audit.rs\<close>): storage audits, compute
  verdicts and attestation results. Each kind has a message, a vote and a certificate that more
  than two thirds of the panel must sign. The dag-cbor codecs of the votes and certificates are
  serde derivations and are not modelled.
\<close>

subsection \<open>Messages\<close>

definition bool_byte :: "bool \<Rightarrow> byte" where
  "bool_byte b = (if b then 1 else 0)"

definition audit_msg :: "u64 \<Rightarrow> u64 \<Rightarrow> u16 \<Rightarrow> bool \<Rightarrow> byte list" where
  "audit_msg chain_id epoch task passed =
     ascii ''boltchain/audit/v1'' @ be64 chain_id @ be64 epoch @ be16 task @ [bool_byte passed]"

definition verdict_msg :: "u64 \<Rightarrow> u64 \<Rightarrow> u64 \<Rightarrow> bool \<Rightarrow> byte list" where
  "verdict_msg chain_id epoch job at_fault =
     ascii ''boltchain/verdict/v1'' @ be64 chain_id @ be64 epoch @ be64 job @ [bool_byte at_fault]"

text \<open>The machine identifier is an array of 32 bytes.\<close>

definition attest_msg :: "u64 \<Rightarrow> u64 \<Rightarrow> u64 \<Rightarrow> bool \<Rightarrow> byte list \<Rightarrow> byte list" where
  "attest_msg chain_id epoch request ok machine =
     ascii ''boltchain/attest/v1'' @ be64 chain_id @ be64 epoch @ be64 request @ [bool_byte ok] @ machine"

subsection \<open>Shared steps\<close>

text \<open>\<open>panel.get(member)\<close> and the check of one signature.\<close>

definition member_verifies ::
    "('pk, 'sg, 'sk) blst \<Rightarrow> bls_public_key list \<Rightarrow> u16 \<Rightarrow> byte list \<Rightarrow> bls_signature \<Rightarrow> bool" where
  "member_verifies B panel member msg s \<longleftrightarrow>
     unat member < length panel \<and> bls_verify B (panel ! unat member) msg s"

text \<open>The sorted members of a list of votes, if they are distinct and more than two thirds of \<open>n\<close>.\<close>

definition panel_members :: "u16 list \<Rightarrow> nat \<Rightarrow> u16 list option" where
  "panel_members votes n =
     (let members = remdups_adj (sort votes) in
      if length members \<noteq> length votes \<or> length members * 3 \<le> n * 2 then None else Some members)"

text \<open>The check of a certificate: signers within the panel, more than two thirds, aggregate valid.\<close>

definition panel_verifies ::
    "('pk, 'sg, 'sk) blst \<Rightarrow> bls_public_key list \<Rightarrow> byte list \<Rightarrow> byte list \<Rightarrow> bls_signature \<Rightarrow> bool" where
  "panel_verifies B panel signers_bm msg s =
     (let signers = bitmap_decode signers_bm in
      if length signers * 3 \<le> length panel * 2 \<or> list_ex (\<lambda>i. unat i \<ge> length panel) signers
      then False
      else fast_aggregate_verify B (map (\<lambda>i. panel ! unat i) signers) msg s)"

subsection \<open>Storage audits\<close>

record audit_vote =
  av_epoch :: u64
  av_task :: u16
  av_passed :: bool
  av_member :: u16
  av_sig :: bls_signature

record audit_cert =
  auc_epoch :: u64
  auc_task :: u16
  auc_passed :: bool
  auc_signers :: "byte list"
  auc_sig :: bls_signature

definition audit_sign ::
    "('pk, 'sg, 'sk) blst \<Rightarrow> 'sk \<Rightarrow> u64 \<Rightarrow> u64 \<Rightarrow> u16 \<Rightarrow> bool \<Rightarrow> u16 \<Rightarrow> audit_vote" where
  "audit_sign B key chain_id epoch task passed member = \<lparr>av_epoch = epoch, av_task = task,
     av_passed = passed, av_member = member, av_sig = sk_sign B key (audit_msg chain_id epoch task passed)\<rparr>"

definition audit_vote_verify ::
    "('pk, 'sg, 'sk) blst \<Rightarrow> u64 \<Rightarrow> bls_public_key list \<Rightarrow> audit_vote \<Rightarrow> bool" where
  "audit_vote_verify B chain_id panel v =
     member_verifies B panel (av_member v) (audit_msg chain_id (av_epoch v) (av_task v) (av_passed v)) (av_sig v)"

definition audit_aggregate ::
    "('pk, 'sg, 'sk) blst \<Rightarrow> audit_vote list \<Rightarrow> nat \<Rightarrow> audit_cert option" where
  "audit_aggregate B votes n =
     (case votes of
        [] \<Rightarrow> None
      | first # _ \<Rightarrow>
          if list_ex (\<lambda>v. av_epoch v \<noteq> av_epoch first \<or> av_task v \<noteq> av_task first
               \<or> av_passed v \<noteq> av_passed first) votes
          then None
          else do {
            members \<leftarrow> panel_members (map av_member votes) n;
            s \<leftarrow> bls_aggregate B (map av_sig votes);
            Some \<lparr>auc_epoch = av_epoch first, auc_task = av_task first, auc_passed = av_passed first,
              auc_signers = bitmap_encode members n, auc_sig = s\<rparr>
          })"

definition audit_cert_verify ::
    "('pk, 'sg, 'sk) blst \<Rightarrow> u64 \<Rightarrow> bls_public_key list \<Rightarrow> audit_cert \<Rightarrow> bool" where
  "audit_cert_verify B chain_id panel c =
     panel_verifies B panel (auc_signers c) (audit_msg chain_id (auc_epoch c) (auc_task c) (auc_passed c)) (auc_sig c)"

subsection \<open>Compute verdicts\<close>

record verdict_vote =
  vv_epoch :: u64
  vv_job :: u64
  vv_fault :: bool
  vv_member :: u16
  vv_sig :: bls_signature

record verdict_cert =
  vc_epoch :: u64
  vc_job :: u64
  vc_fault :: bool
  vc_signers :: "byte list"
  vc_sig :: bls_signature

definition verdict_sign ::
    "('pk, 'sg, 'sk) blst \<Rightarrow> 'sk \<Rightarrow> u64 \<Rightarrow> u64 \<Rightarrow> u64 \<Rightarrow> bool \<Rightarrow> u16 \<Rightarrow> verdict_vote" where
  "verdict_sign B key chain_id epoch job fault member = \<lparr>vv_epoch = epoch, vv_job = job,
     vv_fault = fault, vv_member = member, vv_sig = sk_sign B key (verdict_msg chain_id epoch job fault)\<rparr>"

definition verdict_vote_verify ::
    "('pk, 'sg, 'sk) blst \<Rightarrow> u64 \<Rightarrow> bls_public_key list \<Rightarrow> verdict_vote \<Rightarrow> bool" where
  "verdict_vote_verify B chain_id panel v =
     member_verifies B panel (vv_member v) (verdict_msg chain_id (vv_epoch v) (vv_job v) (vv_fault v)) (vv_sig v)"

definition verdict_aggregate ::
    "('pk, 'sg, 'sk) blst \<Rightarrow> verdict_vote list \<Rightarrow> nat \<Rightarrow> verdict_cert option" where
  "verdict_aggregate B votes n =
     (case votes of
        [] \<Rightarrow> None
      | first # _ \<Rightarrow>
          if list_ex (\<lambda>v. vv_epoch v \<noteq> vv_epoch first \<or> vv_job v \<noteq> vv_job first
               \<or> vv_fault v \<noteq> vv_fault first) votes
          then None
          else do {
            members \<leftarrow> panel_members (map vv_member votes) n;
            s \<leftarrow> bls_aggregate B (map vv_sig votes);
            Some \<lparr>vc_epoch = vv_epoch first, vc_job = vv_job first, vc_fault = vv_fault first,
              vc_signers = bitmap_encode members n, vc_sig = s\<rparr>
          })"

definition verdict_cert_verify ::
    "('pk, 'sg, 'sk) blst \<Rightarrow> u64 \<Rightarrow> bls_public_key list \<Rightarrow> verdict_cert \<Rightarrow> bool" where
  "verdict_cert_verify B chain_id panel c =
     panel_verifies B panel (vc_signers c) (verdict_msg chain_id (vc_epoch c) (vc_job c) (vc_fault c)) (vc_sig c)"

subsection \<open>Attestation results\<close>

record attest_vote =
  tv_epoch :: u64
  tv_request :: u64
  tv_ok :: bool
  tv_machine :: "byte list"
  tv_member :: u16
  tv_sig :: bls_signature

record attest_cert =
  atc_epoch :: u64
  atc_request :: u64
  atc_ok :: bool
  atc_machine :: "byte list"
  atc_signers :: "byte list"
  atc_sig :: bls_signature

definition machine32 :: "byte list \<Rightarrow> byte list option" where
  "machine32 m = (if length m = 32 then Some m else None)"

definition attest_sign ::
    "('pk, 'sg, 'sk) blst \<Rightarrow> 'sk \<Rightarrow> u64 \<Rightarrow> u64 \<Rightarrow> u64 \<Rightarrow> bool \<Rightarrow> byte list \<Rightarrow> u16 \<Rightarrow> attest_vote" where
  "attest_sign B key chain_id epoch request ok machine member = \<lparr>tv_epoch = epoch,
     tv_request = request, tv_ok = ok, tv_machine = machine, tv_member = member,
     tv_sig = sk_sign B key (attest_msg chain_id epoch request ok machine)\<rparr>"

definition attest_vote_verify ::
    "('pk, 'sg, 'sk) blst \<Rightarrow> u64 \<Rightarrow> bls_public_key list \<Rightarrow> attest_vote \<Rightarrow> bool" where
  "attest_vote_verify B chain_id panel v =
     (case machine32 (tv_machine v) of
        None \<Rightarrow> False
      | Some m \<Rightarrow>
          member_verifies B panel (tv_member v)
            (attest_msg chain_id (tv_epoch v) (tv_request v) (tv_ok v) m) (tv_sig v))"

definition attest_aggregate ::
    "('pk, 'sg, 'sk) blst \<Rightarrow> attest_vote list \<Rightarrow> nat \<Rightarrow> attest_cert option" where
  "attest_aggregate B votes n =
     (case votes of
        [] \<Rightarrow> None
      | first # _ \<Rightarrow>
          if list_ex (\<lambda>v. tv_epoch v \<noteq> tv_epoch first \<or> tv_request v \<noteq> tv_request first
               \<or> tv_ok v \<noteq> tv_ok first \<or> tv_machine v \<noteq> tv_machine first) votes
          then None
          else do {
            members \<leftarrow> panel_members (map tv_member votes) n;
            s \<leftarrow> bls_aggregate B (map tv_sig votes);
            Some \<lparr>atc_epoch = tv_epoch first, atc_request = tv_request first, atc_ok = tv_ok first,
              atc_machine = tv_machine first, atc_signers = bitmap_encode members n, atc_sig = s\<rparr>
          })"

definition machine_id :: "attest_cert \<Rightarrow> byte list" where
  "machine_id c = (case machine32 (atc_machine c) of Some m \<Rightarrow> m | None \<Rightarrow> replicate 32 0)"

definition attest_cert_verify ::
    "('pk, 'sg, 'sk) blst \<Rightarrow> u64 \<Rightarrow> bls_public_key list \<Rightarrow> attest_cert \<Rightarrow> bool" where
  "attest_cert_verify B chain_id panel c =
     (case machine32 (atc_machine c) of
        None \<Rightarrow> False
      | Some m \<Rightarrow>
          panel_verifies B panel (atc_signers c)
            (attest_msg chain_id (atc_epoch c) (atc_request c) (atc_ok c) m) (atc_sig c))"

subsection \<open>Everything a validator key signs\<close>

text \<open>A validator also signs its encryption key for dispute files (\<^verbatim>\<open>node/src/storage.rs\<close>).\<close>

definition verifier_key_msg :: "u64 \<Rightarrow> u32 \<Rightarrow> byte list \<Rightarrow> byte list" where
  "verifier_key_msg chain_id i key = ascii ''boltchain/verifier-key/v1'' @ be64 chain_id @ be32 i @ key"

datatype signed_content =
    SVote u64 u64 round b256
  | STimeout u64 u64 round round
  | SProposal u64 u64 round b256 b256
  | SRandao u64 u64
  | SAudit u64 u64 u16 bool
  | SVerdict u64 u64 u64 bool
  | SAttest u64 u64 u64 bool b256
  | SVerifierKey u64 u32 b256

text \<open>
  A proposal is signed over the hash of its payload. The machine of an attestation and a verifier key
  are 32 bytes. Proofs of possession are signed under a domain of their own, \<open>POP_DST\<close>.
\<close>

fun signed_bytes :: "signed_content \<Rightarrow> byte list" where
  "signed_bytes (SVote c e r b) = vote_msg c e r b"
| "signed_bytes (STimeout c e r q) = timeout_msg c e r q"
| "signed_bytes (SProposal c e r b h) =
     domain_msg (ascii ''boltchain/proposal/v2'') c e r (be256 b @ be256 h)"
| "signed_bytes (SRandao c h) = randao_msg c h"
| "signed_bytes (SAudit c e t p) = audit_msg c e t p"
| "signed_bytes (SVerdict c e j f) = verdict_msg c e j f"
| "signed_bytes (SAttest c e q k m) = attest_msg c e q k (be256 m)"
| "signed_bytes (SVerifierKey c i k) = verifier_key_msg c i (be256 k)"

lemmas signed_defs =
  vote_msg_def timeout_msg_def randao_msg_def audit_msg_def verdict_msg_def attest_msg_def domain_msg_def
  verifier_key_msg_def

lemma bool_byte_inj [simp]: "bool_byte a = bool_byte b \<longleftrightarrow> a = b"
  by (simp add: bool_byte_def)

lemma length_signed_bytes:
  "length (signed_bytes c) = (case c of SVote _ _ _ _ \<Rightarrow> 73 | STimeout _ _ _ _ \<Rightarrow> 52
     | SProposal _ _ _ _ _ \<Rightarrow> 109 | SRandao _ _ \<Rightarrow> 35 | SAudit _ _ _ _ \<Rightarrow> 37
     | SVerdict _ _ _ _ \<Rightarrow> 45 | SAttest _ _ _ _ _ \<Rightarrow> 76
     | SVerifierKey _ _ _ \<Rightarrow> 69)"
  by (cases c) (simp_all add: signed_defs)

subsection \<open>Lemmas on panels\<close>

definition panel_quorum :: "nat \<Rightarrow> u16 set \<Rightarrow> bool" where
  "panel_quorum n Q \<longleftrightarrow> Q \<subseteq> {i. unat i < n} \<and> 2 * card {i :: u16. unat i < n} < 3 * card Q"

interpretation pq: quorum_system "\<lambda>_. 1" "{i :: u16. unat i < n}" "panel_quorum n" for n
  by unfold_locales (simp_all add: panel_quorum_def)

lemma card_panel: "n \<le> 2 ^ 16 \<Longrightarrow> card {i :: u16. unat i < n} = n"
proof -
  assume n: "n \<le> 2 ^ 16"
  have "{i :: u16. unat i < n} = of_nat ` {..<n}"
    using n by (force simp: image_iff unat_of_nat take_bit_nat_def intro!: bexI [where x = "unat x" for x])
  moreover have "inj_on (of_nat :: nat \<Rightarrow> u16) {..<n}"
    using n by (intro inj_onI) (simp add: of_nat_u16_inj)
  ultimately show ?thesis by (simp add: card_image)
qed

lemma panel_verifies_quorum:
  assumes "panel_verifies B panel bm msg s" "length bm \<le> 8192" "length panel \<le> 2 ^ 16"
  shows "panel_quorum (length panel) (set (bitmap_decode bm))"
    and "fast_aggregate_verify B (map (\<lambda>i. panel ! unat i) (bitmap_decode bm)) msg s"
proof -
  from assms(1) have a: "length panel * 2 < length (bitmap_decode bm) * 3"
    "\<forall>i \<in> set (bitmap_decode bm). unat i < length panel"
    and "fast_aggregate_verify B (map (\<lambda>i. panel ! unat i) (bitmap_decode bm)) msg s"
    by (auto simp: panel_verifies_def Let_def list_ex_iff not_le split: if_splits)
  then show "fast_aggregate_verify B (map (\<lambda>i. panel ! unat i) (bitmap_decode bm)) msg s" by simp
  have "card (set (bitmap_decode bm)) = length (bitmap_decode bm)"
    using bitmap_decode_distinct(1) [OF assms(2)] by (rule distinct_card)
  with a assms(3) show "panel_quorum (length panel) (set (bitmap_decode bm))"
    by (auto simp: panel_quorum_def card_panel)
qed

text \<open>
  The registered keys are those with a proof of possession on record that verifies (genesis and the
  staking contract check it). Unforgeability by key, as \<^verbatim>\<open>bls.rs\<close> documents it: when an aggregate over
  registered keys verifies, every key of the list signed. Nothing is assumed of lists with a key that
  is not registered, whose holder may have chosen it to cancel the others.
\<close>

definition registered ::
    "('pk, 'sg, 'sk) blst \<Rightarrow> (bls_public_key \<Rightarrow> bls_signature option) \<Rightarrow> bls_public_key \<Rightarrow> bool" where
  "registered B pops pk = (case pops pk of Some pop \<Rightarrow> verify_possession B pk pop | None \<Rightarrow> False)"

definition fav_sound ::
    "('pk, 'sg, 'sk) blst \<Rightarrow> (bls_public_key \<Rightarrow> bls_signature option)
      \<Rightarrow> (bls_public_key \<Rightarrow> byte list \<Rightarrow> bool) \<Rightarrow> bool" where
  "fav_sound B pops says \<longleftrightarrow>
     (\<forall>pks msg s. list_all (registered B pops) pks \<longrightarrow> fast_aggregate_verify B pks msg s
        \<longrightarrow> (\<forall>pk \<in> set pks. says pk msg))"

lemma fav_soundD:
  "fav_sound B pops says \<Longrightarrow> fast_aggregate_verify B pks msg s \<Longrightarrow> list_all (registered B pops) pks
    \<Longrightarrow> pk \<in> set pks \<Longrightarrow> says pk msg"
  by (auto simp: fav_sound_def)

lemma panel_conflict:
  assumes "fav_sound B pops says" "length panel \<le> 2 ^ 16"
    and "panel_verifies B panel bm msg s" "length bm \<le> 8192"
    and "panel_verifies B panel bm' msg' s'" "length bm' \<le> 8192"
    and reg: "list_all (registered B pops) panel"
  shows "length panel < 3 * card {i :: u16. unat i < length panel \<and> says (panel ! unat i) msg
    \<and> says (panel ! unat i) msg'}" (is "_ < 3 * card ?S")
proof -
  let ?D = "set (bitmap_decode bm)" and ?D' = "set (bitmap_decode bm')"
  note q = panel_verifies_quorum [OF assms(3,4,2)] and q' = panel_verifies_quorum [OF assms(5,6,2)]
  have "list_all (registered B pops) (map (\<lambda>i. panel ! unat i) (bitmap_decode b))"
    if "panel_quorum (length panel) (set (bitmap_decode b))" for b
    using that reg by (auto simp: panel_quorum_def list_all_iff)
  note r = this [OF q(1)] this [OF q'(1)]
  have "?D \<inter> ?D' \<subseteq> ?S"
    using fav_soundD [OF assms(1) q(2) r(1)] fav_soundD [OF assms(1) q'(2) r(2)] q(1)
    by (auto simp: panel_quorum_def)
  then have "card (?D \<inter> ?D') \<le> card ?S" by (intro card_mono) auto
  with pq.quorum_inter_weight [OF q(1) q'(1)] show ?thesis
    using assms(2) by (simp add: card_panel)
qed

lemma panel_members_Some:
  "panel_members ms n = Some ms' \<longleftrightarrow> distinct ms \<and> n * 2 < length ms * 3 \<and> ms' = sort ms"
  using length_dedup_eq [of ms]
  by (auto simp: panel_members_def Let_def remdups_adj_distinct)

text \<open>Completeness of BLS aggregation: signatures that verify one by one aggregate to one that verifies.\<close>

definition aggregates :: "('pk, 'sg, 'sk) blst \<Rightarrow> bool" where
  "aggregates B \<longleftrightarrow> (\<forall>pss msg pks. pss \<noteq> [] \<longrightarrow> list_all (\<lambda>(p, s). bls_verify B p msg s) pss
     \<longrightarrow> mset pks = mset (map fst pss)
     \<longrightarrow> (\<exists>a. bls_aggregate B (map snd pss) = Some a \<and> fast_aggregate_verify B pks msg a))"

lemma panel_complete:
  assumes "aggregates B" "length panel \<le> 2 ^ 16" "distinct ms" "length panel * 2 < length ms * 3"
    and "length sigs = length ms"
    and "\<forall>k < length ms. member_verifies B panel (ms ! k) msg (sigs ! k)"
  obtains a where "bls_aggregate B sigs = Some a"
    "panel_verifies B panel (bitmap_encode (sort ms) (length panel)) msg a"
proof -
  let ?n = "length panel" and ?key = "\<lambda>i :: u16. panel ! unat i"
  have lt: "\<forall>i \<in> set ms. unat i < ?n"
    using assms(6) by (auto simp: in_set_conv_nth member_verifies_def)
  let ?bm = "bitmap_encode (sort ms) ?n"
  have len: "length ?bm \<le> 8192" using assms(2) by simp
  have d: "bitmap_decode ?bm = sort ms"
    using lt bitmap_decode_distinct [OF len] set_bitmap_decode_encode [OF assms(2), of "sort ms"] assms(3)
    by (intro sorted_distinct_set_unique) auto
  let ?pss = "zip (map ?key ms) sigs"
  have "list_all (\<lambda>(p, s). bls_verify B p msg s) ?pss" "?pss \<noteq> []"
    using assms(4-6) by (auto simp: list_all_length member_verifies_def)
  moreover have "mset (map ?key (sort ms)) = mset (map fst ?pss)"
    using assms(5) by simp
  ultimately obtain a where a: "bls_aggregate B (map snd ?pss) = Some a"
    "fast_aggregate_verify B (map ?key (sort ms)) msg a"
    using assms(1) unfolding aggregates_def by blast
  moreover have "panel_verifies B panel ?bm msg a"
    using a(2) lt assms(4) by (simp add: panel_verifies_def d list_ex_iff not_le)
  ultimately show ?thesis using that assms(5) by simp
qed

subsection \<open>Properties\<close>

text \<open>
  C11. Signatures never carry over: the byte strings that validator keys sign under \<open>SIG_DST\<close>, for
  votes, timeouts, proposals, RANDAO reveals, audits, verdicts, attestations and verifier keys, are
  pairwise different across kinds, and within a kind they determine every signed field: chain id,
  epoch, round, block and the rest (of a proposal's payload, its hash).
\<close>

theorem signed_bytes_injective: "inj signed_bytes"
proof (rule injI)
  fix x y
  assume eq: "signed_bytes x = signed_bytes y"
  then have "length (signed_bytes x) = length (signed_bytes y)" by simp
  then show "x = y"
    unfolding length_signed_bytes using eq
    by (cases x; cases y) (auto simp: signed_defs append_eq_split)
qed

text \<open>
  C12. Panel certificates are accountable, for panels whose keys all have a checked proof of
  possession: when two certificates of one panel, both with bitmaps of at most 8192 bytes, verify for
  the two outcomes of one audit task, more than a third of the panel signed both outcomes.
\<close>

theorem audit_certs_accountable:
  assumes "fav_sound B pops says" "list_all (registered B pops) panel" "length panel \<le> 2 ^ 16"
    and "audit_cert_verify B cid panel a" "audit_cert_verify B cid panel a'"
    and "auc_epoch a = auc_epoch a'" "auc_task a = auc_task a'" "auc_passed a" "\<not> auc_passed a'"
    and "length (auc_signers a) \<le> 8192" "length (auc_signers a') \<le> 8192"
  shows "length panel < 3 * card {i :: u16. unat i < length panel
      \<and> says (panel ! unat i) (audit_msg cid (auc_epoch a) (auc_task a) True)
      \<and> says (panel ! unat i) (audit_msg cid (auc_epoch a) (auc_task a) False)}"
  using panel_conflict [OF assms(1,3) _ _ _ _ assms(2)] assms(4-) by (simp add: audit_cert_verify_def)

lemma DST_apart [simp]: "SIG_DST \<noteq> POP_DST"
proof -
  have "SIG_DST ! 4 \<noteq> POP_DST ! 4" by (simp add: SIG_DST_def POP_DST_def ascii_def)
  then show ?thesis by metis
qed

definition ideal_blst :: "(bls_public_key \<Rightarrow> byte list \<Rightarrow> bool) \<Rightarrow> (byte list, byte list, byte list) blst" where
  "ideal_blst says = toy_blst
     \<lparr>core_verify := (\<lambda>g msg dst pk. if dst = POP_DST then msg = pk else says pk msg),
      core_fast_aggregate_verify := (\<lambda>g msg dst pks. list_all (\<lambda>pk. says pk msg) pks)\<rparr>"

lemma collect_map_Some [simp]: "collect (map Some xs) = Some xs"
  by (simp add: collect_eq_Some)

lemma ideal_blst_simps [simp]:
  "fast_aggregate_verify (ideal_blst says) pks msg g = list_all (\<lambda>pk. says pk msg) pks"
  "bls_verify (ideal_blst says) pk msg g = says pk msg"
  "bls_aggregate (ideal_blst says) gs = Some (concat gs)"
  "fav_sound (ideal_blst says) pops says"
  "verify_possession (ideal_blst says) pk g"
  by (simp_all add: fast_aggregate_verify_def bls_verify_def bls_aggregate_def fav_sound_def
      list_all_iff ideal_blst_def toy_blst_def verify_possession_def)

lemma ideal_blst_aggregates [simp]: "aggregates (ideal_blst says)"
  by (auto simp: aggregates_def list_all_iff simp flip: set_mset_mset split: prod.splits)

definition toy_panel :: "bls_public_key list" where
  "toy_panel = [[0], [1], [2], [3]]"

definition toy_audit_says :: "bls_public_key \<Rightarrow> byte list \<Rightarrow> bool" where
  "toy_audit_says pk msg \<longleftrightarrow>
     (pk \<in> {[0], [1], [2]} \<and> msg = audit_msg 7 3 2 True)
     \<or> (pk \<in> {[1], [2], [3]} \<and> msg = audit_msg 7 3 2 False)"

lemma toy_audit_certs:
  "audit_cert_verify (ideal_blst toy_audit_says) 7 toy_panel
     \<lparr>auc_epoch = 3, auc_task = 2, auc_passed = True, auc_signers = [7], auc_sig = []\<rparr>"
  "audit_cert_verify (ideal_blst toy_audit_says) 7 toy_panel
     \<lparr>auc_epoch = 3, auc_task = 2, auc_passed = False, auc_signers = [14], auc_sig = []\<rparr>"
  by (simp_all add: toy_panel_def toy_audit_says_def audit_cert_verify_def panel_verifies_def toy_bitmaps)

theorem audit_certs_accountable_witness:
  "length toy_panel < 3 * card {i :: u16. unat i < length toy_panel
      \<and> toy_audit_says (toy_panel ! unat i) (audit_msg 7 3 2 True)
      \<and> toy_audit_says (toy_panel ! unat i) (audit_msg 7 3 2 False)}"
proof -
  have "list_all (registered (ideal_blst toy_audit_says) (\<lambda>_. Some [])) toy_panel" "length toy_panel \<le> 2 ^ 16"
    by (simp_all add: toy_panel_def registered_def)
  from audit_certs_accountable [OF ideal_blst_simps(4) this toy_audit_certs]
  show ?thesis by simp
qed

text \<open>
  C13. Panel certificates are complete: votes that verify one by one form a certificate exactly
  when there are some, they agree on epoch, task and outcome, come from distinct members and are
  more than two thirds of the panel; the certificate names that outcome and verifies.
\<close>

theorem audit_aggregate_complete:
  assumes "aggregates B" "length panel \<le> 2 ^ 16"
    and "\<forall>v \<in> set votes. audit_vote_verify B cid panel v"
  shows "(\<exists>c. audit_aggregate B votes (length panel) = Some c
        \<and> auc_epoch c = av_epoch (hd votes) \<and> auc_task c = av_task (hd votes)
        \<and> auc_passed c = av_passed (hd votes) \<and> audit_cert_verify B cid panel c)
    \<longleftrightarrow> (votes \<noteq> [] \<and> (\<forall>v \<in> set votes. av_epoch v = av_epoch (hd votes) \<and> av_task v = av_task (hd votes)
          \<and> av_passed v = av_passed (hd votes))
         \<and> distinct (map av_member votes) \<and> length panel * 2 < length votes * 3)" (is "?L \<longleftrightarrow> ?R")
proof
  assume ?L
  then show ?R
    by (auto simp: audit_aggregate_def list_ex_iff bind_eq_Some_conv panel_members_Some
        split: list.splits if_splits)
next
  assume R: ?R
  let ?msg = "audit_msg cid (av_epoch (hd votes)) (av_task (hd votes)) (av_passed (hd votes))"
  have "\<forall>k < length votes. member_verifies B panel (map av_member votes ! k) ?msg (map av_sig votes ! k)"
  proof (intro allI impI)
    fix k
    assume k: "k < length votes"
    then have "votes ! k \<in> set votes" by simp
    with R assms(3) have "audit_vote_verify B cid panel (votes ! k)"
      "av_epoch (votes ! k) = av_epoch (hd votes)" "av_task (votes ! k) = av_task (hd votes)"
      "av_passed (votes ! k) = av_passed (hd votes)" by blast+
    with k show "member_verifies B panel (map av_member votes ! k) ?msg (map av_sig votes ! k)"
      by (simp add: audit_vote_verify_def)
  qed
  with R panel_complete [OF assms(1,2), of "map av_member votes" "map av_sig votes" ?msg] obtain a
    where a: "bls_aggregate B (map av_sig votes) = Some a"
      "panel_verifies B panel (bitmap_encode (sort (map av_member votes)) (length panel)) ?msg a"
    unfolding length_map by blast
  from R have unf: "audit_aggregate B votes n =
      (if list_ex (\<lambda>v. av_epoch v \<noteq> av_epoch (hd votes) \<or> av_task v \<noteq> av_task (hd votes)
               \<or> av_passed v \<noteq> av_passed (hd votes)) votes then None
       else Option.bind (panel_members (map av_member votes) n) (\<lambda>members.
         Option.bind (bls_aggregate B (map av_sig votes)) (\<lambda>s.
           Some \<lparr>auc_epoch = av_epoch (hd votes), auc_task = av_task (hd votes),
             auc_passed = av_passed (hd votes), auc_signers = bitmap_encode members n, auc_sig = s\<rparr>)))" for n
    by (cases votes) (simp_all add: audit_aggregate_def)
  have "\<not> list_ex (\<lambda>v. av_epoch v \<noteq> av_epoch (hd votes) \<or> av_task v \<noteq> av_task (hd votes)
               \<or> av_passed v \<noteq> av_passed (hd votes)) votes"
    using R unfolding list_ex_iff by blast
  moreover have "panel_members (map av_member votes) (length panel) = Some (sort (map av_member votes))"
    using R by (simp add: panel_members_Some)
  ultimately show ?L
    using a by (simp add: unf audit_cert_verify_def)
qed

theorem audit_aggregate_complete_witness:
  "\<exists>c. audit_aggregate (ideal_blst toy_audit_says)
      (map (audit_sign (ideal_blst toy_audit_says) [9] 7 3 2 True) [2, 0, 1]) (length toy_panel) = Some c
     \<and> audit_cert_verify (ideal_blst toy_audit_says) 7 toy_panel c"
proof -
  let ?votes = "map (audit_sign (ideal_blst toy_audit_says) [9] 7 3 2 True) [2, 0, 1]"
  have "length toy_panel \<le> 2 ^ 16" by (simp add: toy_panel_def)
  moreover have "\<forall>v \<in> set ?votes. audit_vote_verify (ideal_blst toy_audit_says) 7 toy_panel v"
    by (simp add: audit_vote_verify_def member_verifies_def audit_sign_def toy_panel_def toy_audit_says_def)
  moreover have "?votes \<noteq> []" "distinct (map av_member ?votes)" "length toy_panel * 2 < length ?votes * 3"
    by (simp_all add: audit_sign_def toy_panel_def)
  moreover have "\<forall>v \<in> set ?votes. av_epoch v = av_epoch (hd ?votes) \<and> av_task v = av_task (hd ?votes)
      \<and> av_passed v = av_passed (hd ?votes)"
    by (simp add: audit_sign_def)
  ultimately show ?thesis
    using audit_aggregate_complete [OF ideal_blst_aggregates, of toy_panel ?votes toy_audit_says 7]
    by blast
qed

end
