(* ===== verification/Engine.thy ===== *)
theory Engine
  imports Panels "HOL-Library.Product_Lexorder"
begin

text \<open>
  The consensus engine of one epoch (\<^verbatim>\<open>crates/consensus/src/engine.rs\<close>): two-chain HotStuff with
  Jolteon's voting and timeout rules, nil blocks at the end of the epoch, restart from persisted
  state.

  The record \<open>engine\<close> has the fields of \<^verbatim>\<open>Engine\<close>. Handlers run on its extension \<open>est\<close>, which adds
  the action list \<^verbatim>\<open>out\<close> that the handlers thread through and the ghost list \<open>signings\<close>: what this
  engine signed, in order. No handler reads \<open>signings\<close>.

  \<open>None\<close> is a panic (a missing key, an empty committee, a nil chain that is not in the tree), a
  walk along parent links that never ends, or fuel that ran out. The source's handlers call
  \<^verbatim>\<open>enter_round\<close>, which calls handlers again when the engine leads the new round of a nil phase:
  the bodies below take that callee as the argument \<open>ent\<close>, and \<open>enter_round\<close> ties the knot with
  fuel. Each nested call is for a higher round, so there is always enough fuel; \<open>H\<close> is
  \<^verbatim>\<open>keccak256\<close>.
\<close>

subsection \<open>Configuration, actions and state\<close>

record config =
  c_chain_id :: u64
  c_epoch :: u64
  c_validators :: validator_set
  c_me :: "validator_index list"
  c_anchor :: block_info
  c_end_height :: u64
  c_base_timeout_ms :: u64

definition config_genesis ::
    "u64 \<Rightarrow> validator_set \<Rightarrow> validator_index option \<Rightarrow> b256 \<Rightarrow> u64 \<Rightarrow> config" where
  "config_genesis chain_id vs me genesis base_timeout_ms = \<lparr>
     c_chain_id = chain_id, c_epoch = 0, c_validators = vs,
     c_me = (case me of None \<Rightarrow> [] | Some i \<Rightarrow> [i]),
     c_anchor = \<lparr>bi_hash = genesis, bi_parent = 0, bi_round = 0, bi_height = 0\<rparr>,
     c_end_height = - 1, c_base_timeout_ms = base_timeout_ms\<rparr>"

record 'agg persisted =
  ps_epoch :: u64
  ps_committed :: block_info
  ps_committed_qc :: "'agg qc"
  ps_high_qc :: "'agg qc"
  ps_last_voted :: round
  ps_blocks :: "block_info list"

datatype ('sig, 'agg) action =
    Broadcast "('sig, 'agg) message"
  | SendTo validator_index "('sig, 'agg) message"
  | Validate "('sig, 'agg) proposal"
  | Propose round "'agg qc" "('sig, 'agg) tc option"
  | Commit "block_info list" "'agg commit_proof"
  | FetchBlock b256
  | EpochEnd block_info "'agg commit_proof"
  | ScheduleTimeout round u64

record 'sig vote_set =
  vs_height :: u64
  vs_sigs :: "(validator_index, 'sig) btmap"
  vs_pending :: "(validator_index, 'sig) btmap"
  vs_done :: bool

record ('sig, 'agg) timeout_set =
  ts_entries :: "(validator_index, round \<times> 'sig) btmap"
  ts_high_qc :: "'agg qc"
  ts_done :: bool

record ('sig, 'agg) engine =
  e_cfg :: config
  e_scheme :: "('sig, 'agg) scheme"
  e_round :: round
  e_last_voted :: round
  e_high_qc :: "'agg qc"
  e_entry_tc :: "('sig, 'agg) tc option"
  e_blocks :: "(b256, block_info) btmap"
  e_qcs :: "(b256, 'agg qc) btmap"
  e_committed :: block_info
  e_votes :: "(round \<times> b256, 'sig vote_set) btmap"
  e_timeouts :: "(round, ('sig, 'agg) timeout_set) btmap"
  e_pending :: "(b256, ('sig, 'agg) proposal) btmap"
  e_timed_out :: "round set"
  e_proposed :: "round set"
  e_consecutive_timeouts :: u32
  e_blocked_commit :: "'agg qc option"
  e_requested :: "b256 set"
  e_finished :: bool

datatype ('sig, 'agg) signing =
    GVote validator_index "('sig, 'agg) proposal"
  | GTimeout validator_index round round
  | GPropose validator_index "('sig, 'agg) proposal"

record ('sig, 'agg) est = "('sig, 'agg) engine" +
  out :: "('sig, 'agg) action list"
  signings :: "('sig, 'agg) signing list"

type_synonym ('sig, 'agg) entry = "round \<Rightarrow> ('sig, 'agg) tc option \<Rightarrow> ('sig, 'agg) est \<Rightarrow> ('sig, 'agg) est option"

definition push :: "('sig, 'agg) action \<Rightarrow> ('sig, 'agg) est \<Rightarrow> ('sig, 'agg) est" where
  "push a s = s\<lparr>out := out s @ [a]\<rparr>"

definition note_signing :: "('sig, 'agg) signing \<Rightarrow> ('sig, 'agg) est \<Rightarrow> ('sig, 'agg) est" where
  "note_signing g s = s\<lparr>signings := signings s @ [g]\<rparr>"

text \<open>\<open>out.extend(f())\<close> for a handler that returns its own list of actions.\<close>

definition extending ::
    "(('sig, 'agg) est \<Rightarrow> ('sig, 'agg) est option) \<Rightarrow> ('sig, 'agg) est \<Rightarrow> ('sig, 'agg) est option" where
  "extending f s = do { s' \<leftarrow> f (s\<lparr>out := []\<rparr>); Some (s'\<lparr>out := out s @ out s'\<rparr>) }"

subsection \<open>Creation, restart, persistence\<close>

definition engine_new :: "config \<Rightarrow> ('sig, 'agg) scheme \<Rightarrow> ('sig, 'agg) est" where
  "engine_new cfg sc =
     (let anchor = c_anchor cfg;
          gqc = anchor_cert (c_epoch cfg) (bi_hash anchor) (bi_height anchor)
      in \<lparr>e_cfg = cfg, e_scheme = sc, e_round = 0, e_last_voted = 0, e_high_qc = gqc,
          e_entry_tc = None, e_blocks = bt_insert (bi_hash anchor) anchor [],
          e_qcs = bt_insert (bi_hash anchor) gqc [], e_committed = anchor, e_votes = [],
          e_timeouts = [], e_pending = [], e_timed_out = {}, e_proposed = {},
          e_consecutive_timeouts = 0, e_blocked_commit = None, e_requested = {}, e_finished = False,
          out = [], signings = []\<rparr>)"

definition resume :: "config \<Rightarrow> ('sig, 'agg) scheme \<Rightarrow> 'agg persisted \<Rightarrow> ('sig, 'agg) est" where
  "resume cfg sc p =
     (let e = engine_new cfg sc in
      if ps_epoch p \<noteq> c_epoch cfg then e
      else
        (let e = (if bi_height (ps_committed p) > bi_height (c_anchor cfg)
                  then e\<lparr>e_blocks := bt_insert (bi_hash (ps_committed p)) (ps_committed p) [],
                         e_qcs := bt_insert (bi_hash (ps_committed p)) (ps_committed_qc p) [],
                         e_committed := ps_committed p\<rparr>
                  else e);
             e = e\<lparr>e_blocks := fold (\<lambda>b m. if bi_height b > bi_height (e_committed e)
                                          then bt_insert (bi_hash b) b m else m) (ps_blocks p) (e_blocks e)\<rparr>;
             e = e\<lparr>e_qcs := bt_insert (qc_block (ps_high_qc p)) (ps_high_qc p) (e_qcs e),
                   e_high_qc := ps_high_qc p,
                   e_last_voted := ps_last_voted p\<rparr>
         in e\<lparr>e_round := max (qc_round (e_high_qc e)) (e_last_voted e)\<rparr>))"

definition reanchored :: "config \<Rightarrow> ('sig, 'agg) scheme \<Rightarrow> round \<Rightarrow> ('sig, 'agg) est" where
  "reanchored cfg sc last_voted =
     (engine_new cfg sc)\<lparr>e_last_voted := last_voted, e_round := last_voted\<rparr>"

definition anchor_qc :: "('sig, 'agg, 'z) engine_scheme \<Rightarrow> 'agg qc" where
  "anchor_qc s = anchor_cert (c_epoch (e_cfg s)) (bi_hash (c_anchor (e_cfg s))) (bi_height (c_anchor (e_cfg s)))"

definition persisted_of :: "('sig, 'agg, 'z) engine_scheme \<Rightarrow> 'agg persisted" where
  "persisted_of s = \<lparr>
     ps_epoch = c_epoch (e_cfg s),
     ps_committed = e_committed s,
     ps_committed_qc =
       (case bt_get (bi_hash (e_committed s)) (e_qcs s) of Some q \<Rightarrow> q | None \<Rightarrow> anchor_qc s),
     ps_high_qc = e_high_qc s,
     ps_last_voted = e_last_voted s,
     ps_blocks = sort_key (\<lambda>b. (bi_height b, bi_round b))
       (filter (\<lambda>b. bi_height b > bi_height (e_committed s)) (map snd (e_blocks s)))\<rparr>"

subsection \<open>Queries\<close>

definition certified_round :: "b256 \<Rightarrow> ('sig, 'agg, 'z) engine_scheme \<Rightarrow> round option" where
  "certified_round block s = map_option qc_round (bt_get block (e_qcs s))"

definition known_block :: "b256 \<Rightarrow> ('sig, 'agg, 'z) engine_scheme \<Rightarrow> block_info option" where
  "known_block h s = bt_get h (e_blocks s)"

definition eng_leader :: "round \<Rightarrow> ('sig, 'agg, 'z) engine_scheme \<Rightarrow> validator_index option" where
  "eng_leader r s = leader (c_validators (e_cfg s)) r"

definition is_me :: "validator_index \<Rightarrow> ('sig, 'agg, 'z) engine_scheme \<Rightarrow> bool" where
  "is_me v s \<longleftrightarrow> v \<in> set (c_me (e_cfg s))"

definition is_nil_height :: "u64 \<Rightarrow> ('sig, 'agg, 'z) engine_scheme \<Rightarrow> bool" where
  "is_nil_height h s \<longleftrightarrow> h > c_end_height (e_cfg s)"

definition timeout_ms :: "('sig, 'agg, 'z) engine_scheme \<Rightarrow> u64" where
  "timeout_ms s = push_bit (unat (min (e_consecutive_timeouts s) 3)) (c_base_timeout_ms (e_cfg s))"

definition verify_qc :: "'agg qc \<Rightarrow> ('sig, 'agg, 'z) engine_scheme \<Rightarrow> bool" where
  "verify_qc q s = qc_verify (e_scheme s) (c_validators (e_cfg s)) (c_chain_id (e_cfg s))
     (c_epoch (e_cfg s)) (bi_hash (c_anchor (e_cfg s))) q"

definition verify_tc :: "('sig, 'agg) tc \<Rightarrow> ('sig, 'agg, 'z) engine_scheme \<Rightarrow> bool" where
  "verify_tc t s = tc_verify (e_scheme s) (c_validators (e_cfg s)) (c_chain_id (e_cfg s))
     (c_epoch (e_cfg s)) (bi_hash (c_anchor (e_cfg s))) t"

subsection \<open>Commits\<close>

text \<open>
  The walk from a block to the committed block along the tree. A walk of more steps than the tree
  has entries visits an entry again and never ends: \<open>None\<close>.
\<close>

datatype walk = Chain "block_info list" | ForkBelow | Missing b256

fun walk_chain ::
    "nat \<Rightarrow> (b256, block_info) btmap \<Rightarrow> block_info \<Rightarrow> block_info \<Rightarrow> block_info list \<Rightarrow> walk option" where
  "walk_chain 0 bs com cur chain = None"
| "walk_chain (Suc f) bs com cur chain =
     (if bi_parent cur = bi_hash com then Some (Chain chain)
      else case bt_get (bi_parent cur) bs of
          Some parent \<Rightarrow>
            (if bi_height parent > bi_height com then walk_chain f bs com parent (chain @ [parent])
             else Some ForkBelow)
        | None \<Rightarrow> Some (Missing (bi_parent cur)))"

text \<open>The nil rounds from a block down to the last real block, newest first, and that block.\<close>

fun nil_walk ::
    "nat \<Rightarrow> (b256, block_info) btmap \<Rightarrow> u64 \<Rightarrow> block_info \<Rightarrow> round list \<Rightarrow> (round list \<times> block_info) option" where
  "nil_walk 0 bs end_h cur rounds = None"
| "nil_walk (Suc f) bs end_h cur rounds =
     (if bi_height cur > end_h then do {
        parent \<leftarrow> bt_get (bi_parent cur) bs;
        nil_walk f bs end_h parent (rounds @ [bi_round cur])
      }
      else Some (rounds, cur))"

definition proof_for ::
    "block_info \<Rightarrow> block_info \<Rightarrow> 'agg qc \<Rightarrow> 'agg qc \<Rightarrow> ('sig, 'agg) est \<Rightarrow> 'agg commit_proof option" where
  "proof_for p b pqc bqc s =
     (let end_h = c_end_height (e_cfg s) in
      if bi_height b \<le> end_h
      then Some \<lparr>cp_qc = pqc, cp_child_qc = bqc, cp_child_header = [], cp_nil_rounds = [],
             cp_committed = bi_hash p, cp_committed_height = bi_height p\<rparr>
      else do {
        (rounds, cur) \<leftarrow> nil_walk (Suc (length (e_blocks s))) (e_blocks s) end_h p [bi_round b];
        Some \<lparr>cp_qc = pqc, cp_child_qc = bqc, cp_child_header = [], cp_nil_rounds = rev rounds,
          cp_committed = bi_hash cur, cp_committed_height = bi_height cur\<rparr>
      })"

definition block_on :: "'agg qc \<Rightarrow> b256 \<Rightarrow> ('sig, 'agg) est \<Rightarrow> ('sig, 'agg) est" where
  "block_on qc missing s =
     (let s = (if (case e_blocked_commit s of None \<Rightarrow> True | Some q \<Rightarrow> qc_round q < qc_round qc)
               then s\<lparr>e_blocked_commit := Some qc\<rparr> else s)
      in if missing \<in> e_requested s then s
         else push (FetchBlock missing) (s\<lparr>e_requested := insert missing (e_requested s)\<rparr>))"

definition unblock :: "'agg qc \<Rightarrow> ('sig, 'agg) est \<Rightarrow> ('sig, 'agg) est" where
  "unblock qc s =
     (if (case e_blocked_commit s of None \<Rightarrow> False | Some q \<Rightarrow> qc_round q \<le> qc_round qc)
      then s\<lparr>e_blocked_commit := None\<rparr> else s)"

definition push_commit :: "block_info list \<Rightarrow> 'agg commit_proof \<Rightarrow> ('sig, 'agg) est \<Rightarrow> ('sig, 'agg) est" where
  "push_commit real pf s = (if real = [] then s else push (Commit real pf) s)"

definition end_epoch :: "block_info \<Rightarrow> 'agg commit_proof \<Rightarrow> ('sig, 'agg) est \<Rightarrow> ('sig, 'agg) est" where
  "end_epoch p pf s =
     (if bi_height p \<ge> c_end_height (e_cfg s)
      then push (EpochEnd (case bt_get (cp_committed pf) (e_blocks s) of Some x \<Rightarrow> x | None \<Rightarrow> p) pf)
        (s\<lparr>e_finished := True\<rparr>)
      else s)"

text \<open>The end of \<open>try_commit\<close>: \<open>p\<close> is final, \<open>chain\<close> holds it and its ancestors, newest first.\<close>

definition commit_chain ::
    "'agg qc \<Rightarrow> 'agg qc \<Rightarrow> block_info \<Rightarrow> block_info \<Rightarrow> block_info list \<Rightarrow> ('sig, 'agg) est \<Rightarrow> ('sig, 'agg) est option" where
  "commit_chain qc pqc p b chain s = do {
     let s = unblock qc (s\<lparr>e_committed := p\<rparr>);
     pf \<leftarrow> proof_for p b pqc qc s;
     let real = filter (\<lambda>x. bi_height x \<le> c_end_height (e_cfg s)) (rev chain);
     Some (end_epoch p pf (push_commit real pf s))
   }"

definition try_commit :: "'agg qc \<Rightarrow> ('sig, 'agg) est \<Rightarrow> ('sig, 'agg) est option" where
  "try_commit qc s =
     (if e_finished s then Some s
      else case bt_get (qc_block qc) (e_blocks s) of
          None \<Rightarrow> Some (block_on qc (qc_block qc) s)
        | Some b \<Rightarrow>
          (case bt_get (bi_parent b) (e_blocks s) of
             None \<Rightarrow>
               (if bi_height b > bi_height (e_committed s) + 1
                then Some (block_on qc (bi_parent b) s) else Some s)
           | Some p \<Rightarrow>
               if bi_round p + 1 \<noteq> bi_round b \<or> bi_height p \<le> bi_height (e_committed s) then Some s
               else case bt_get (bi_hash p) (e_qcs s) of
                   None \<Rightarrow> Some s
                 | Some pqc \<Rightarrow>
                   do {
                     w \<leftarrow> walk_chain (Suc (length (e_blocks s))) (e_blocks s) (e_committed s) p [p];
                     case w of
                       Chain chain \<Rightarrow> commit_chain qc pqc p b chain s
                     | ForkBelow \<Rightarrow> Some s
                     | Missing missing \<Rightarrow> Some (block_on qc missing s)
                   }))"

definition prune :: "('sig, 'agg) est \<Rightarrow> ('sig, 'agg) est" where
  "prune s =
     (let keep_from = saturating_sub (e_round s) 2;
          h = bi_height (e_committed s);
          blocks = bt_retain (\<lambda>_ b. bi_height b \<ge> h) (e_blocks s)
      in s\<lparr>e_votes := bt_retain (\<lambda>k _. fst k + 1 \<ge> keep_from) (e_votes s),
           e_timeouts := bt_retain (\<lambda>r _. r + 1 \<ge> keep_from) (e_timeouts s),
           e_timed_out := Set.filter (\<lambda>r. r + 1 \<ge> keep_from) (e_timed_out s),
           e_proposed := Set.filter (\<lambda>r. r + 1 \<ge> keep_from) (e_proposed s),
           e_pending := bt_retain (\<lambda>_ p. bi_height (p_block p) > h) (e_pending s),
           e_blocks := blocks,
           e_qcs := bt_retain (\<lambda>k _. bt_has k blocks) (e_qcs s)\<rparr>)"

subsection \<open>Certificates\<close>

definition record_qc :: "'agg qc \<Rightarrow> ('sig, 'agg) est \<Rightarrow> ('sig, 'agg) est" where
  "record_qc qc s = s\<lparr>
     e_qcs := (if bt_has (qc_block qc) (e_qcs s) then e_qcs s else bt_insert (qc_block qc) qc (e_qcs s)),
     e_high_qc := (if qc_round qc > qc_round (e_high_qc s) then qc else e_high_qc s)\<rparr>"

definition process_qc :: "('sig, 'agg) entry \<Rightarrow> 'agg qc \<Rightarrow> ('sig, 'agg) est \<Rightarrow> ('sig, 'agg) est option" where
  "process_qc ent qc s = do {
     s \<leftarrow> try_commit qc (record_qc qc s);
     if qc_round qc \<ge> e_round s
     then ent (qc_round qc + 1) None (s\<lparr>e_consecutive_timeouts := 0\<rparr>)
     else Some s
   }"

definition process_tc :: "('sig, 'agg) entry \<Rightarrow> ('sig, 'agg) tc \<Rightarrow> ('sig, 'agg) est \<Rightarrow> ('sig, 'agg) est option" where
  "process_tc ent tc s = do {
     s \<leftarrow> process_qc ent (tc_high_qc tc) s;
     if tc_round tc \<ge> e_round s then ent (tc_round tc + 1) (Some tc) s else Some s
   }"

definition retry_commit :: "('sig, 'agg) est \<Rightarrow> ('sig, 'agg) est option" where
  "retry_commit s = (case e_blocked_commit s of Some qc \<Rightarrow> try_commit qc s | None \<Rightarrow> Some s)"

definition on_block :: "block_info \<Rightarrow> ('sig, 'agg) est \<Rightarrow> ('sig, 'agg) est option" where
  "on_block block s =
     (let s = s\<lparr>e_requested := e_requested s - {bi_hash block}\<rparr>;
          s = (if bi_height block > bi_height (e_committed s)
               then s\<lparr>e_blocks := bt_insert (bi_hash block) block (e_blocks s)\<rparr> else s)
      in retry_commit s)"

subsection \<open>Votes\<close>

definition empty_vote_set :: "u64 \<Rightarrow> 'sig vote_set" where
  "empty_vote_set h = \<lparr>vs_height = h, vs_sigs = [], vs_pending = [], vs_done = False\<rparr>"

text \<open>
  A vote enters the set: \<open>None\<close> where the handler returns without changing it. Of two different
  signatures of one signer the first that verifies is kept.
\<close>

definition vote_admit ::
    "('sig, 'agg) scheme \<Rightarrow> byte list \<Rightarrow> 'sig vote \<Rightarrow> 'sig vote_set \<Rightarrow> 'sig vote_set option" where
  "vote_admit sc msg v st =
     (if vs_done st \<or> vs_height st \<noteq> v_height v \<or> bt_has (v_signer v) (vs_sigs st) then None
      else case bt_get (v_signer v) (vs_pending st) of
          Some old \<Rightarrow>
            (if old = v_sig v then None
             else
               (let st = st\<lparr>vs_pending := bt_remove (v_signer v) (vs_pending st)\<rparr> in
                if verify sc (v_signer v) msg old
                then Some (st\<lparr>vs_sigs := bt_insert (v_signer v) old (vs_sigs st)\<rparr>)
                else if verify sc (v_signer v) msg (v_sig v)
                then Some (st\<lparr>vs_sigs := bt_insert (v_signer v) (v_sig v) (vs_sigs st)\<rparr>)
                else Some st))
        | None \<Rightarrow> Some (st\<lparr>vs_pending := bt_insert (v_signer v) (v_sig v) (vs_pending st)\<rparr>))"

definition sig_of :: "'sig vote_set \<Rightarrow> validator_index \<Rightarrow> 'sig option" where
  "sig_of st i = (case bt_get i (vs_sigs st) of Some g \<Rightarrow> Some g | None \<Rightarrow> bt_get i (vs_pending st))"

text \<open>The optimistic path: the aggregate of all votes, checked once unless every vote was checked.\<close>

definition agg_all ::
    "('sig, 'agg) scheme \<Rightarrow> byte list \<Rightarrow> validator_index list \<Rightarrow> 'sig vote_set \<Rightarrow> 'agg option" where
  "agg_all sc msg signers st =
     (case aggregate sc (List.map_filter (sig_of st) signers) of
        Some a \<Rightarrow> if vs_pending st = [] \<or> verify_aggregate sc signers msg a then Some a else None
      | None \<Rightarrow> None)"

text \<open>The fallback: check the unchecked votes one by one and drop the invalid ones.\<close>

definition check_pending :: "('sig, 'agg) scheme \<Rightarrow> byte list \<Rightarrow> 'sig vote_set \<Rightarrow> 'sig vote_set" where
  "check_pending sc msg st = st\<lparr>
     vs_sigs := fold (\<lambda>(i, g) m. if verify sc i msg g then bt_insert i g m else m) (vs_pending st) (vs_sigs st),
     vs_pending := []\<rparr>"

text \<open>The set after the vote and, when it completes a quorum, the signers and their aggregate.\<close>

definition vote_quorum ::
    "('sig, 'agg) scheme \<Rightarrow> validator_set \<Rightarrow> byte list \<Rightarrow> 'sig vote_set
      \<Rightarrow> 'sig vote_set \<times> (validator_index list \<times> 'agg) option" where
  "vote_quorum sc vs msg st =
     (let all = map fst (vs_sigs st) @ map fst (vs_pending st) in
      if \<not> is_quorum vs (weight_of vs all) then (st, None)
      else
        (let signers = sort all in
         case agg_all sc msg signers st of
           Some a \<Rightarrow> (st\<lparr>vs_done := True\<rparr>, Some (signers, a))
         | None \<Rightarrow>
             (let st = check_pending sc msg st;
                  signers = map fst (vs_sigs st)
              in if \<not> is_quorum vs (weight_of vs signers) then (st, None)
                 else case aggregate sc (map snd (vs_sigs st)) of
                     Some a \<Rightarrow> (st\<lparr>vs_done := True\<rparr>, Some (signers, a))
                   | None \<Rightarrow> (st, None))))"

definition on_vote :: "('sig, 'agg) entry \<Rightarrow> 'sig vote \<Rightarrow> ('sig, 'agg) est \<Rightarrow> ('sig, 'agg) est option" where
  "on_vote ent v s = do {
     l \<leftarrow> eng_leader (v_round v + 1) s;
     if \<not> is_me l s \<or> v_epoch v \<noteq> c_epoch (e_cfg s)
        \<or> unat (v_signer v) \<ge> vs_len (c_validators (e_cfg s)) \<or> v_round v + 2 < e_round s
     then Some s
     else
       (let msg = vote_msg (c_chain_id (e_cfg s)) (c_epoch (e_cfg s)) (v_round v) (v_block v);
            k = (v_round v, v_block v);
            st = (case bt_get k (e_votes s) of Some st \<Rightarrow> st | None \<Rightarrow> empty_vote_set (v_height v));
            put = (\<lambda>st. s\<lparr>e_votes := bt_insert k st (e_votes s)\<rparr>)
        in case vote_admit (e_scheme s) msg v st of
            None \<Rightarrow> Some (put st)
          | Some st \<Rightarrow>
            (case vote_quorum (e_scheme s) (c_validators (e_cfg s)) msg st of
               (st, None) \<Rightarrow> Some (put st)
             | (st, Some (signers, a)) \<Rightarrow>
                 process_qc ent
                   \<lparr>qc_epoch = c_epoch (e_cfg s), qc_round = v_round v, qc_block = v_block v,
                    qc_height = vs_height st,
                    qc_signers = bitmap_encode signers (vs_len (c_validators (e_cfg s))),
                    qc_sig = Some a\<rparr> (put st)))
   }"

subsection \<open>Proposals\<close>

definition safe_to_vote :: "('sig, 'agg) proposal \<Rightarrow> bool" where
  "safe_to_vote p =
     (let r = bi_round (p_block p) in
      if qc_round (p_qc p) + 1 = r then True
      else case p_tc p of
          Some tc \<Rightarrow> tc_round tc + 1 = r \<and> qc_round (p_qc p) \<ge> max_qc_round tc
        | None \<Rightarrow> False)"

text \<open>One turn of the voting loop: sign as \<open>me\<close>, then send to \<open>nx\<close>, the next leader.\<close>

definition cast_vote ::
    "('sig, 'agg) entry \<Rightarrow> ('sig, 'agg) proposal \<Rightarrow> validator_index \<Rightarrow> validator_index
      \<Rightarrow> ('sig, 'agg) est \<Rightarrow> ('sig, 'agg) est option" where
  "cast_vote ent p nx me s = do {
     let r = bi_round (p_block p);
     g \<leftarrow> sign (e_scheme s) me
       (vote_msg (c_chain_id (e_cfg s)) (c_epoch (e_cfg s)) r (bi_hash (p_block p)));
     let vote = \<lparr>v_epoch = c_epoch (e_cfg s), v_round = r, v_block = bi_hash (p_block p),
       v_height = bi_height (p_block p), v_signer = me, v_sig = g\<rparr>;
     let s = note_signing (GVote me p) s;
     if is_me nx s then on_vote ent vote s else Some (push (SendTo nx (MVote vote)) s)
   }"

definition on_validated ::
    "('sig, 'agg) entry \<Rightarrow> b256 \<Rightarrow> bool \<Rightarrow> ('sig, 'agg) est \<Rightarrow> ('sig, 'agg) est option" where
  "on_validated ent block valid s =
     (case bt_get block (e_pending s) of
        None \<Rightarrow> Some s
      | Some p \<Rightarrow>
          (let s = s\<lparr>e_pending := bt_remove block (e_pending s)\<rparr>;
               r = bi_round (p_block p)
           in if \<not> valid then Some s
              else if r \<noteq> e_round s \<or> r \<le> e_last_voted s \<or> \<not> safe_to_vote p \<or> e_finished s then Some s
              else if c_me (e_cfg s) = [] then Some s
              else do {
                nx \<leftarrow> eng_leader (r + 1) s;
                for_each (cast_vote ent p nx) (c_me (e_cfg s)) (s\<lparr>e_last_voted := r\<rparr>)
              }))"

text \<open>The checks a proposal passes before the engine remembers its block.\<close>

definition proposal_ok ::
    "keccak_fn \<Rightarrow> ('sig, 'agg) proposal \<Rightarrow> validator_index \<Rightarrow> ('sig, 'agg, 'z) engine_scheme \<Rightarrow> bool" where
  "proposal_ok H p l s =
     (let b = p_block p; cfg = e_cfg s in
      \<not> (p_epoch p \<noteq> c_epoch cfg
        \<or> p_proposer p \<noteq> l
        \<or> bi_round b = 0
        \<or> bi_parent b \<noteq> qc_block (p_qc p)
        \<or> bi_height b \<noteq> qc_height (p_qc p) + 1
        \<or> bi_round b \<le> qc_round (p_qc p)
        \<or> (is_nil_height (bi_height b) s
            \<and> (bi_hash b \<noteq> nil_hash H (c_epoch cfg) (bi_parent b) (bi_round b) \<or> p_payload p \<noteq> []))
        \<or> \<not> verify (e_scheme s) (p_proposer p)
              (proposal_msg H (c_chain_id cfg) (c_epoch cfg) (bi_round b) (bi_hash b) (p_payload p)) (p_sig p)
        \<or> \<not> verify_qc (p_qc p) s)
      \<and> (case p_tc p of None \<Rightarrow> True | Some tc \<Rightarrow> \<not> (tc_round tc + 1 \<noteq> bi_round b \<or> \<not> verify_tc tc s)))"

definition remember_block :: "block_info \<Rightarrow> ('sig, 'agg) est \<Rightarrow> ('sig, 'agg) est" where
  "remember_block b s = s\<lparr>e_blocks :=
     (if \<not> bt_has (bi_hash b) (e_blocks s) \<and> bi_height b > bi_height (e_committed s)
      then bt_insert (bi_hash b) b (e_blocks s) else e_blocks s)\<rparr>"

text \<open>The end of \<open>on_proposal\<close>: whether the proposal is one to validate and vote for.\<close>

definition consider_vote ::
    "('sig, 'agg) entry \<Rightarrow> ('sig, 'agg) proposal \<Rightarrow> bool \<Rightarrow> ('sig, 'agg) est \<Rightarrow> ('sig, 'agg) est option" where
  "consider_vote ent p nil s =
     (let b = p_block p in
      if bi_round b \<noteq> e_round s \<or> bi_round b \<le> e_last_voted s \<or> c_me (e_cfg s) = [] \<or> e_finished s
      then Some s
      else if \<not> safe_to_vote p then Some s
      else if bt_has (bi_hash b) (e_pending s) then Some s
      else
        (let s = s\<lparr>e_pending := bt_insert (bi_hash b) p (e_pending s)\<rparr> in
         if nil then extending (on_validated ent (bi_hash b) True) s
         else Some (push (Validate p) s)))"

definition on_proposal ::
    "keccak_fn \<Rightarrow> ('sig, 'agg) entry \<Rightarrow> ('sig, 'agg) proposal \<Rightarrow> ('sig, 'agg) est \<Rightarrow> ('sig, 'agg) est option" where
  "on_proposal H ent p s = do {
     l \<leftarrow> eng_leader (bi_round (p_block p)) s;
     if \<not> proposal_ok H p l s then Some s
     else do {
       let nil = is_nil_height (bi_height (p_block p)) s;
       s \<leftarrow> process_qc ent (p_qc p) (remember_block (p_block p) s);
       s \<leftarrow> (case p_tc p of Some tc \<Rightarrow> process_tc ent tc s | None \<Rightarrow> Some s);
       consider_vote ent p nil s
     }
   }"

text \<open>The actions without the first \<^verbatim>\<open>Validate\<close> of block \<open>h\<close>; \<open>None\<close> if there is none.\<close>

fun take_validate :: "b256 \<Rightarrow> ('sig, 'agg) action list \<Rightarrow> ('sig, 'agg) action list option" where
  "take_validate h [] = None"
| "take_validate h (a # as) =
     (if (case a of Validate x \<Rightarrow> bi_hash (p_block x) = h | _ \<Rightarrow> False) then Some as
      else map_option ((#) a) (take_validate h as))"

definition on_proposed ::
    "keccak_fn \<Rightarrow> ('sig, 'agg) entry \<Rightarrow> block_info \<Rightarrow> 'agg qc \<Rightarrow> ('sig, 'agg) tc option \<Rightarrow> byte list
      \<Rightarrow> ('sig, 'agg) est \<Rightarrow> ('sig, 'agg) est option" where
  "on_proposed H ent block qc tc payload s = do {
     me \<leftarrow> eng_leader (bi_round block) s;
     if bi_round block \<noteq> e_round s \<or> \<not> is_me me s \<or> e_finished s then Some s
     else do {
       g \<leftarrow> sign (e_scheme s) me
         (proposal_msg H (c_chain_id (e_cfg s)) (c_epoch (e_cfg s)) (bi_round block) (bi_hash block) payload);
       let p = \<lparr>p_epoch = c_epoch (e_cfg s), p_block = block, p_qc = qc, p_tc = tc, p_proposer = me,
         p_payload = payload, p_sig = g\<rparr>;
       let s = push (Broadcast (MProposal p)) (note_signing (GPropose me p) s);
       s \<leftarrow> on_proposal H ent p s;
       case take_validate (bi_hash block) (out s) of
         None \<Rightarrow> Some s
       | Some rest \<Rightarrow> extending (on_validated ent (bi_hash block) True) (s\<lparr>out := rest\<rparr>)
     }
   }"

subsection \<open>Rounds\<close>

text \<open>The end of \<open>enter_round\<close>: the leader of the new round proposes, a nil block by itself.\<close>

definition lead_round ::
    "keccak_fn \<Rightarrow> ('sig, 'agg) entry \<Rightarrow> round \<Rightarrow> ('sig, 'agg) est \<Rightarrow> ('sig, 'agg) est option" where
  "lead_round H ent r s = do {
     l \<leftarrow> eng_leader r s;
     if is_me l s \<and> r \<notin> e_proposed s then
       (let s = s\<lparr>e_proposed := insert r (e_proposed s)\<rparr>;
            qc = e_high_qc s;
            tc = e_entry_tc s
        in if is_nil_height (qc_height qc + 1) s then
             extending (on_proposed H ent
               \<lparr>bi_hash = nil_hash H (c_epoch (e_cfg s)) (qc_block qc) r, bi_parent = qc_block qc,
                bi_round = r, bi_height = qc_height qc + 1\<rparr> qc tc []) s
           else Some (push (Propose r qc tc) s))
     else Some s
   }"

definition enter_round_body ::
    "keccak_fn \<Rightarrow> ('sig, 'agg) entry \<Rightarrow> ('sig, 'agg) entry" where
  "enter_round_body H ent r tc s =
     (if r \<le> e_round s then Some s
      else do {
        s \<leftarrow> retry_commit (s\<lparr>e_round := r, e_entry_tc := tc, e_requested := {}\<rparr>);
        if e_finished s then Some s
        else lead_round H ent r (prune (push (ScheduleTimeout r (timeout_ms s)) s))
      })"

primrec enter_round :: "keccak_fn \<Rightarrow> nat \<Rightarrow> ('sig, 'agg) entry" where
  "enter_round H 0 = (\<lambda>r tc s. None)"
| "enter_round H (Suc f) = enter_round_body H (enter_round H f)"

definition start :: "('sig, 'agg) entry \<Rightarrow> ('sig, 'agg) est \<Rightarrow> ('sig, 'agg) est option" where
  "start ent s = ent (e_round s + 1) None s"

subsection \<open>Timeouts\<close>

definition timeout_checks :: "('sig, 'agg) timeout \<Rightarrow> ('sig, 'agg, 'z) engine_scheme \<Rightarrow> bool" where
  "timeout_checks t s \<longleftrightarrow>
     \<not> (t_epoch t \<noteq> c_epoch (e_cfg s)
       \<or> unat (t_signer t) \<ge> vs_len (c_validators (e_cfg s))
       \<or> t_round t + 2 < e_round s
       \<or> qc_round (t_high_qc t) \<ge> t_round t
       \<or> \<not> verify (e_scheme s) (t_signer t)
             (timeout_msg (c_chain_id (e_cfg s)) (c_epoch (e_cfg s)) (t_round t) (qc_round (t_high_qc t))) (t_sig t)
       \<or> \<not> verify_qc (t_high_qc t) s)"

definition add_timeout :: "('sig, 'agg) timeout \<Rightarrow> ('sig, 'agg) timeout_set \<Rightarrow> ('sig, 'agg) timeout_set" where
  "add_timeout t st =
     (let st = (if qc_round (t_high_qc t) > qc_round (ts_high_qc st)
                then st\<lparr>ts_high_qc := t_high_qc t\<rparr> else st)
      in st\<lparr>ts_entries := bt_insert (t_signer t) (qc_round (t_high_qc t), t_sig t) (ts_entries st)\<rparr>)"

definition adopt_last_tc ::
    "('sig, 'agg) entry \<Rightarrow> ('sig, 'agg) timeout \<Rightarrow> ('sig, 'agg) est \<Rightarrow> ('sig, 'agg) est option" where
  "adopt_last_tc ent t s =
     (case t_last_tc t of
        Some tc \<Rightarrow>
          if tc_round tc + 1 = t_round t \<and> tc_round tc \<ge> e_round s \<and> verify_tc tc s
          then process_tc ent tc s else Some s
      | None \<Rightarrow> Some s)"

text \<open>The end of \<open>on_timeout_msg\<close>: the timeout joins the set of its round.\<close>

definition collect_timeout ::
    "('sig, 'agg) entry \<Rightarrow> (('sig, 'agg) est \<Rightarrow> ('sig, 'agg) est option)
      \<Rightarrow> ('sig, 'agg) timeout \<Rightarrow> ('sig, 'agg) est \<Rightarrow> ('sig, 'agg) est option" where
  "collect_timeout ent lt t s =
     (let st = (case bt_get (t_round t) (e_timeouts s) of
                  Some st \<Rightarrow> st
                | None \<Rightarrow> \<lparr>ts_entries = [], ts_high_qc = t_high_qc t, ts_done = False\<rparr>);
          put = (\<lambda>st. s\<lparr>e_timeouts := bt_insert (t_round t) st (e_timeouts s)\<rparr>)
      in if ts_done st then Some (put st)
         else
           (let st = add_timeout t st;
                weight = weight_of (c_validators (e_cfg s)) (map fst (ts_entries st))
            in if is_quorum (c_validators (e_cfg s)) weight then
                 process_tc ent
                   \<lparr>tc_epoch = c_epoch (e_cfg s), tc_round = t_round t, tc_high_qc = ts_high_qc st,
                    tc_entries = ts_entries st\<rparr>
                   (put (st\<lparr>ts_done := True\<rparr>))
               else if is_one_third (c_validators (e_cfg s)) weight \<and> t_round t = e_round s
                   \<and> t_round t \<notin> e_timed_out s
               then lt (put st)
               else Some (put st)))"

definition on_timeout_msg_body ::
    "('sig, 'agg) entry \<Rightarrow> (('sig, 'agg) est \<Rightarrow> ('sig, 'agg) est option)
      \<Rightarrow> ('sig, 'agg) timeout \<Rightarrow> ('sig, 'agg) est \<Rightarrow> ('sig, 'agg) est option" where
  "on_timeout_msg_body ent lt t s =
     (if \<not> timeout_checks t s then Some s
      else do {
        s \<leftarrow> adopt_last_tc ent t s;
        s \<leftarrow> process_qc ent (t_high_qc t) s;
        collect_timeout ent lt t s
      })"

text \<open>One turn of the loop of \<open>local_timeout\<close>: sign and broadcast as \<open>me\<close>, then handle it.\<close>

definition send_timeout ::
    "(('sig, 'agg) timeout \<Rightarrow> ('sig, 'agg) est \<Rightarrow> ('sig, 'agg) est option)
      \<Rightarrow> round \<Rightarrow> round \<Rightarrow> validator_index \<Rightarrow> ('sig, 'agg) est \<Rightarrow> ('sig, 'agg) est option" where
  "send_timeout otm r q me s = do {
     g \<leftarrow> sign (e_scheme s) me (timeout_msg (c_chain_id (e_cfg s)) (c_epoch (e_cfg s)) r q);
     let t = \<lparr>t_epoch = c_epoch (e_cfg s), t_round = r, t_high_qc = e_high_qc s,
       t_signer = me, t_sig = g, t_last_tc = e_entry_tc s\<rparr>;
     otm t (push (Broadcast (MTimeout t)) (note_signing (GTimeout me r q) s))
   }"

definition saturating_inc :: "u32 \<Rightarrow> u32" where
  "saturating_inc n = (if n = - 1 then n else n + 1)"

definition local_timeout_body ::
    "(('sig, 'agg) timeout \<Rightarrow> ('sig, 'agg) est \<Rightarrow> ('sig, 'agg) est option)
      \<Rightarrow> ('sig, 'agg) est \<Rightarrow> ('sig, 'agg) est option" where
  "local_timeout_body otm s =
     (let r = e_round s;
          s = s\<lparr>e_last_voted := max (e_last_voted s) r,
                e_consecutive_timeouts := saturating_inc (e_consecutive_timeouts s)\<rparr>;
          s = push (ScheduleTimeout r (timeout_ms s)) s
      in if c_me (e_cfg s) = [] then Some s
         else for_until (\<lambda>s. e_round s \<noteq> r) (send_timeout otm r (qc_round (e_high_qc s)))
           (c_me (e_cfg s)) (s\<lparr>e_timed_out := insert r (e_timed_out s)\<rparr>))"

text \<open>
  \<open>local_timeout\<close> marks its round before it handles its own timeouts, so handling them never
  starts another local timeout: two levels are enough.
\<close>

primrec local_timeout :: "nat \<Rightarrow> ('sig, 'agg) entry \<Rightarrow> ('sig, 'agg) est \<Rightarrow> ('sig, 'agg) est option" where
  "local_timeout 0 ent = (\<lambda>s. None)"
| "local_timeout (Suc d) ent = local_timeout_body (on_timeout_msg_body ent (local_timeout d ent))"

definition on_timeout_msg ::
    "('sig, 'agg) entry \<Rightarrow> ('sig, 'agg) timeout \<Rightarrow> ('sig, 'agg) est \<Rightarrow> ('sig, 'agg) est option" where
  "on_timeout_msg ent = on_timeout_msg_body ent (local_timeout 2 ent)"

definition on_timeout :: "('sig, 'agg) entry \<Rightarrow> round \<Rightarrow> ('sig, 'agg) est \<Rightarrow> ('sig, 'agg) est option" where
  "on_timeout ent r s = (if r \<noteq> e_round s \<or> e_finished s then Some s else local_timeout 2 ent s)"

subsection \<open>Messages and outside commits\<close>

definition on_message ::
    "keccak_fn \<Rightarrow> ('sig, 'agg) entry \<Rightarrow> ('sig, 'agg) message \<Rightarrow> ('sig, 'agg) est \<Rightarrow> ('sig, 'agg) est option" where
  "on_message H ent msg s =
     (if message_epoch msg \<noteq> c_epoch (e_cfg s) \<or> e_finished s then Some s
      else case msg of
          MProposal p \<Rightarrow> on_proposal H ent p s
        | MVote v \<Rightarrow> on_vote ent v s
        | MTimeout t \<Rightarrow> on_timeout_msg ent t s)"

definition on_external_commit ::
    "('sig, 'agg) entry \<Rightarrow> block_info \<Rightarrow> 'agg qc \<Rightarrow> ('sig, 'agg) est \<Rightarrow> ('sig, 'agg) est option" where
  "on_external_commit ent block qc s =
     (if bi_height block \<le> bi_height (e_committed s) \<or> \<not> verify_qc qc s \<or> qc_block qc \<noteq> bi_hash block
      then Some s
      else process_qc ent qc
        (s\<lparr>e_blocks := bt_insert (bi_hash block) block (e_blocks s), e_committed := block\<rparr>))"

subsection \<open>The handlers as inputs\<close>

text \<open>One call of a public handler: the action list starts empty.\<close>

datatype ('sig, 'agg) input =
    IStart
  | IMessage "('sig, 'agg) message"
  | IValidated b256 bool
  | IProposed block_info "'agg qc" "('sig, 'agg) tc option" "byte list"
  | ITimeout round
  | IBlock block_info
  | IExternal block_info "'agg qc"

fun handle ::
    "keccak_fn \<Rightarrow> ('sig, 'agg) entry \<Rightarrow> ('sig, 'agg) input \<Rightarrow> ('sig, 'agg) est \<Rightarrow> ('sig, 'agg) est option" where
  "handle H ent IStart s = start ent s"
| "handle H ent (IMessage m) s = on_message H ent m s"
| "handle H ent (IValidated b ok) s = on_validated ent b ok s"
| "handle H ent (IProposed b qc tc payload) s = on_proposed H ent b qc tc payload s"
| "handle H ent (ITimeout r) s = on_timeout ent r s"
| "handle H ent (IBlock b) s = on_block b s"
| "handle H ent (IExternal b qc) s = on_external_commit ent b qc s"

definition step :: "keccak_fn \<Rightarrow> nat \<Rightarrow> ('sig, 'agg) input \<Rightarrow> ('sig, 'agg) est \<Rightarrow> ('sig, 'agg) est option" where
  "step H f i s = handle H (enter_round H f) i (s\<lparr>out := []\<rparr>)"

end
