(* ===== verification/Engine_Inv.thy ===== *)
theory Engine_Inv
  imports Engine
begin

text \<open>
  How the engine's state evolves. The relation \<open>evolves\<close> holds between the states before and after
  every handler: rounds, the last voted round, the highest certificate and the committed height
  never go back, and what is signed in between is a vote above the last voted round or a timeout
  that reports the highest certificate.
\<close>

subsection \<open>The relation\<close>

text \<open>The committed block is in the tree, under its own hash, and its certificate is held.\<close>

definition com_ok :: "block_info \<Rightarrow> (b256, block_info) btmap \<Rightarrow> (b256, 'agg qc) btmap \<Rightarrow> bool" where
  "com_ok com bs qs \<longleftrightarrow> bt_wf bs \<and> bt_wf qs \<and> (\<forall>(h, b) \<in> set bs. bi_hash b = h) \<and>
     (\<exists>b. bt_get (bi_hash com) bs = Some b \<and> bi_height com \<le> bi_height b) \<and> bt_has (bi_hash com) qs"

text \<open>The round a signature belongs to.\<close>

fun signing_round :: "('sig, 'agg) signing \<Rightarrow> round" where
  "signing_round (GVote v p) = bi_round (p_block p)"
| "signing_round (GTimeout v r q) = r"
| "signing_round (GPropose v p) = bi_round (p_block p)"

definition evolves :: "('sig, 'agg) est \<Rightarrow> ('sig, 'agg) est \<Rightarrow> bool" where
  "evolves s s' \<longleftrightarrow>
     e_cfg s' = e_cfg s \<and> e_scheme s' = e_scheme s \<and>
     e_round s \<le> e_round s' \<and> e_last_voted s \<le> e_last_voted s' \<and>
     qc_round (e_high_qc s) \<le> qc_round (e_high_qc s') \<and>
     bi_height (e_committed s) \<le> bi_height (e_committed s') \<and>
     (e_finished s \<longrightarrow> e_finished s') \<and>
     (com_ok (e_committed s) (e_blocks s) (e_qcs s) \<longrightarrow> com_ok (e_committed s') (e_blocks s') (e_qcs s')) \<and>
     (\<exists>d. signings s' = signings s @ d \<and>
        (\<forall>g \<in> set d. e_round s \<le> signing_round g \<and> signing_round g \<le> e_round s') \<and>
        (\<forall>v p. GVote v p \<in> set d \<longrightarrow>
           e_last_voted s < bi_round (p_block p) \<and> bi_round (p_block p) \<le> e_last_voted s') \<and>
        (\<forall>v r q. GTimeout v r q \<in> set d \<longrightarrow> qc_round (e_high_qc s) \<le> q \<and> r \<le> e_last_voted s'))"

lemma evolves_refl [simp, intro]: "evolves s s"
  by (simp add: evolves_def)

lemma evolves_trans: "evolves s t \<Longrightarrow> evolves t u \<Longrightarrow> evolves s u"
proof -
  assume st: "evolves s t" and tu: "evolves t u"
  from st obtain d where d: "signings t = signings s @ d"
    "\<And>v p. GVote v p \<in> set d \<Longrightarrow> e_last_voted s < bi_round (p_block p) \<and> bi_round (p_block p) \<le> e_last_voted t"
    "\<And>v r q. GTimeout v r q \<in> set d \<Longrightarrow> qc_round (e_high_qc s) \<le> q \<and> r \<le> e_last_voted t"
    "\<And>g. g \<in> set d \<Longrightarrow> e_round s \<le> signing_round g \<and> signing_round g \<le> e_round t"
    unfolding evolves_def by blast
  from tu obtain d' where d': "signings u = signings t @ d'"
    "\<And>v p. GVote v p \<in> set d' \<Longrightarrow> e_last_voted t < bi_round (p_block p) \<and> bi_round (p_block p) \<le> e_last_voted u"
    "\<And>v r q. GTimeout v r q \<in> set d' \<Longrightarrow> qc_round (e_high_qc t) \<le> q \<and> r \<le> e_last_voted u"
    "\<And>g. g \<in> set d' \<Longrightarrow> e_round t \<le> signing_round g \<and> signing_round g \<le> e_round u"
    unfolding evolves_def by blast
  have m: "e_last_voted s \<le> e_last_voted t" "e_last_voted t \<le> e_last_voted u"
    "qc_round (e_high_qc s) \<le> qc_round (e_high_qc t)" "e_round s \<le> e_round t" "e_round t \<le> e_round u"
    using st tu by (simp_all add: evolves_def)
  have "signings u = signings s @ d @ d'" using d(1) d'(1) by simp
  moreover have "e_last_voted s < bi_round (p_block p) \<and> bi_round (p_block p) \<le> e_last_voted u"
    if "GVote v p \<in> set (d @ d')" for v p
    using that d(2) [of v p] d'(2) [of v p] m by auto
  moreover have "qc_round (e_high_qc s) \<le> q \<and> r \<le> e_last_voted u"
    if "GTimeout v r q \<in> set (d @ d')" for v r q
    using that d(3) [of v r q] d'(3) [of v r q] m by auto
  moreover have "\<forall>g \<in> set (d @ d'). e_round s \<le> signing_round g \<and> signing_round g \<le> e_round u"
    using d(4) d'(4) m by fastforce
  ultimately have "\<exists>d. signings u = signings s @ d \<and>
        (\<forall>g \<in> set d. e_round s \<le> signing_round g \<and> signing_round g \<le> e_round u) \<and>
        (\<forall>v p. GVote v p \<in> set d \<longrightarrow>
           e_last_voted s < bi_round (p_block p) \<and> bi_round (p_block p) \<le> e_last_voted u) \<and>
        (\<forall>v r q. GTimeout v r q \<in> set d \<longrightarrow> qc_round (e_high_qc s) \<le> q \<and> r \<le> e_last_voted u)"
    by blast
  moreover have "e_round s \<le> e_round u" "e_last_voted s \<le> e_last_voted u"
    "qc_round (e_high_qc s) \<le> qc_round (e_high_qc u)"
    "bi_height (e_committed s) \<le> bi_height (e_committed u)"
    using st tu unfolding evolves_def by (meson order_trans)+
  moreover have "e_cfg u = e_cfg s" "e_scheme u = e_scheme s" "e_finished s \<longrightarrow> e_finished u"
    "com_ok (e_committed s) (e_blocks s) (e_qcs s) \<longrightarrow> com_ok (e_committed u) (e_blocks u) (e_qcs u)"
    using st tu by (simp_all add: evolves_def)
  ultimately show ?thesis by (simp add: evolves_def)
qed

text \<open>Steps that touch none of the tracked fields.\<close>

lemma evolves_same:
  assumes "e_cfg s' = e_cfg s" "e_scheme s' = e_scheme s" "e_round s' = e_round s"
    "e_last_voted s' = e_last_voted s" "e_high_qc s' = e_high_qc s" "e_committed s' = e_committed s"
    "e_finished s' = e_finished s" "e_blocks s' = e_blocks s" "e_qcs s' = e_qcs s"
    "signings s' = signings s"
  shows "evolves s s'"
  using assms by (simp add: evolves_def)

lemma push_sel [simp]:
  "e_cfg (push a s) = e_cfg s" "e_scheme (push a s) = e_scheme s" "e_round (push a s) = e_round s"
  "e_last_voted (push a s) = e_last_voted s" "e_high_qc (push a s) = e_high_qc s"
  "e_entry_tc (push a s) = e_entry_tc s" "e_blocks (push a s) = e_blocks s"
  "e_qcs (push a s) = e_qcs s" "e_committed (push a s) = e_committed s" "e_votes (push a s) = e_votes s"
  "e_timeouts (push a s) = e_timeouts s" "e_pending (push a s) = e_pending s"
  "e_timed_out (push a s) = e_timed_out s" "e_proposed (push a s) = e_proposed s"
  "e_consecutive_timeouts (push a s) = e_consecutive_timeouts s"
  "e_blocked_commit (push a s) = e_blocked_commit s" "e_requested (push a s) = e_requested s"
  "e_finished (push a s) = e_finished s" "signings (push a s) = signings s"
  "out (push a s) = out s @ [a]"
  by (simp_all add: push_def)

lemma note_sel [simp]:
  "e_cfg (note_signing g s) = e_cfg s" "e_scheme (note_signing g s) = e_scheme s"
  "e_round (note_signing g s) = e_round s" "e_last_voted (note_signing g s) = e_last_voted s"
  "e_high_qc (note_signing g s) = e_high_qc s" "e_entry_tc (note_signing g s) = e_entry_tc s"
  "e_blocks (note_signing g s) = e_blocks s" "e_qcs (note_signing g s) = e_qcs s"
  "e_committed (note_signing g s) = e_committed s" "e_votes (note_signing g s) = e_votes s"
  "e_timeouts (note_signing g s) = e_timeouts s" "e_pending (note_signing g s) = e_pending s"
  "e_timed_out (note_signing g s) = e_timed_out s" "e_proposed (note_signing g s) = e_proposed s"
  "e_consecutive_timeouts (note_signing g s) = e_consecutive_timeouts s"
  "e_blocked_commit (note_signing g s) = e_blocked_commit s"
  "e_requested (note_signing g s) = e_requested s" "e_finished (note_signing g s) = e_finished s"
  "signings (note_signing g s) = signings s @ [g]" "out (note_signing g s) = out s"
  by (simp_all add: note_signing_def)

lemma evolves_push [simp]: "evolves s (push a s)"
  by (simp add: evolves_same)

lemma evolves_out [simp]: "evolves s (s\<lparr>out := l\<rparr>)"
  by (simp add: evolves_same)

lemma evolves_extending:
  assumes "extending f s = Some s'" "\<And>s s'. f s = Some s' \<Longrightarrow> evolves s s'"
  shows "evolves s s'"
proof -
  from assms(1) obtain s1 where s1: "f (s\<lparr>out := []\<rparr>) = Some s1" "s' = s1\<lparr>out := out s @ out s1\<rparr>"
    by (auto simp: extending_def bind_eq_Some_conv)
  have "evolves s s1" by (rule evolves_trans [OF evolves_out assms(2) [OF s1(1)]])
  then show ?thesis unfolding s1(2) by (rule evolves_trans [OF _ evolves_out])
qed

subsection \<open>Commits\<close>

lemma block_on_sel [simp]:
  "e_cfg (block_on q m s) = e_cfg s" "e_scheme (block_on q m s) = e_scheme s"
  "e_round (block_on q m s) = e_round s" "e_last_voted (block_on q m s) = e_last_voted s"
  "e_high_qc (block_on q m s) = e_high_qc s" "e_entry_tc (block_on q m s) = e_entry_tc s"
  "e_blocks (block_on q m s) = e_blocks s" "e_qcs (block_on q m s) = e_qcs s"
  "e_committed (block_on q m s) = e_committed s" "e_votes (block_on q m s) = e_votes s"
  "e_timeouts (block_on q m s) = e_timeouts s" "e_pending (block_on q m s) = e_pending s"
  "e_timed_out (block_on q m s) = e_timed_out s" "e_proposed (block_on q m s) = e_proposed s"
  "e_consecutive_timeouts (block_on q m s) = e_consecutive_timeouts s"
  "e_finished (block_on q m s) = e_finished s" "signings (block_on q m s) = signings s"
  by (simp_all add: block_on_def Let_def split: option.splits)

lemma evolves_block_on [simp]: "evolves s (block_on q m s)"
  by (simp add: evolves_same)

lemma unblock_sel [simp]:
  "e_cfg (unblock q s) = e_cfg s" "e_scheme (unblock q s) = e_scheme s" "e_round (unblock q s) = e_round s"
  "e_last_voted (unblock q s) = e_last_voted s" "e_high_qc (unblock q s) = e_high_qc s"
  "e_entry_tc (unblock q s) = e_entry_tc s" "e_blocks (unblock q s) = e_blocks s"
  "e_qcs (unblock q s) = e_qcs s" "e_committed (unblock q s) = e_committed s"
  "e_votes (unblock q s) = e_votes s" "e_timeouts (unblock q s) = e_timeouts s"
  "e_pending (unblock q s) = e_pending s" "e_timed_out (unblock q s) = e_timed_out s"
  "e_proposed (unblock q s) = e_proposed s" "e_requested (unblock q s) = e_requested s"
  "e_finished (unblock q s) = e_finished s" "signings (unblock q s) = signings s"
  "out (unblock q s) = out s" "e_blocked_commit (unblock q s) \<in> {e_blocked_commit s, None}"
  by (simp_all add: unblock_def)

lemma push_commit_sel [simp]:
  "e_cfg (push_commit l f s) = e_cfg s" "e_scheme (push_commit l f s) = e_scheme s"
  "e_round (push_commit l f s) = e_round s" "e_last_voted (push_commit l f s) = e_last_voted s"
  "e_high_qc (push_commit l f s) = e_high_qc s" "e_entry_tc (push_commit l f s) = e_entry_tc s"
  "e_blocks (push_commit l f s) = e_blocks s" "e_qcs (push_commit l f s) = e_qcs s"
  "e_committed (push_commit l f s) = e_committed s" "e_votes (push_commit l f s) = e_votes s"
  "e_timeouts (push_commit l f s) = e_timeouts s" "e_pending (push_commit l f s) = e_pending s"
  "e_timed_out (push_commit l f s) = e_timed_out s" "e_proposed (push_commit l f s) = e_proposed s"
  "e_requested (push_commit l f s) = e_requested s" "e_finished (push_commit l f s) = e_finished s"
  "signings (push_commit l f s) = signings s"
  "e_blocked_commit (push_commit l f s) = e_blocked_commit s"
  by (simp_all add: push_commit_def)

lemma end_epoch_sel [simp]:
  "e_cfg (end_epoch p f s) = e_cfg s" "e_scheme (end_epoch p f s) = e_scheme s"
  "e_round (end_epoch p f s) = e_round s" "e_last_voted (end_epoch p f s) = e_last_voted s"
  "e_high_qc (end_epoch p f s) = e_high_qc s" "e_entry_tc (end_epoch p f s) = e_entry_tc s"
  "e_blocks (end_epoch p f s) = e_blocks s" "e_qcs (end_epoch p f s) = e_qcs s"
  "e_committed (end_epoch p f s) = e_committed s" "e_votes (end_epoch p f s) = e_votes s"
  "e_timeouts (end_epoch p f s) = e_timeouts s" "e_pending (end_epoch p f s) = e_pending s"
  "e_timed_out (end_epoch p f s) = e_timed_out s" "e_proposed (end_epoch p f s) = e_proposed s"
  "e_requested (end_epoch p f s) = e_requested s" "signings (end_epoch p f s) = signings s"
  "e_blocked_commit (end_epoch p f s) = e_blocked_commit s"
  "e_finished (end_epoch p f s) \<longleftrightarrow> e_finished s \<or> bi_height p \<ge> c_end_height (e_cfg s)"
  by (simp_all add: end_epoch_def)

text \<open>What a commit leaves alone, and where the new committed block comes from.\<close>

lemma try_commit_cases:
  assumes "try_commit qc s = Some s'"
  obtains "s' = s"
  | m where "s' = block_on qc m s"
  | p b pqc chain where "\<not> e_finished s" "bt_get (qc_block qc) (e_blocks s) = Some b"
      "bt_get (bi_parent b) (e_blocks s) = Some p" "bi_round p + 1 = bi_round b"
      "bi_height p > bi_height (e_committed s)" "bt_get (bi_hash p) (e_qcs s) = Some pqc"
      "walk_chain (Suc (length (e_blocks s))) (e_blocks s) (e_committed s) p [p] = Some (Chain chain)"
      "commit_chain qc pqc p b chain s = Some s'"
proof (cases "e_finished s")
  case False
  show ?thesis
  proof (cases "bt_get (qc_block qc) (e_blocks s)")
    case (Some b)
    show ?thesis
    proof (cases "bt_get (bi_parent b) (e_blocks s)")
      case None
      with assms False Some have "s' = s \<or> s' = block_on qc (bi_parent b) s"
        by (simp add: try_commit_def split: if_splits)
      then show ?thesis using that(1,2) by blast
    next
      case P: (Some p)
      show ?thesis
      proof (cases "bi_round p + 1 \<noteq> bi_round b \<or> bi_height p \<le> bi_height (e_committed s)")
        case True
        with assms False Some P show ?thesis by (intro that(1)) (auto simp: try_commit_def)
      next
        case G: False
        show ?thesis
        proof (cases "bt_get (bi_hash p) (e_qcs s)")
          case None
          with assms False Some P G show ?thesis by (intro that(1)) (simp add: try_commit_def)
        next
          case Q: (Some pqc)
          with False Some P G have "try_commit qc s =
            Option.bind (walk_chain (Suc (length (e_blocks s))) (e_blocks s) (e_committed s) p [p])
              (\<lambda>w. case w of Chain chain \<Rightarrow> commit_chain qc pqc p b chain s | ForkBelow \<Rightarrow> Some s
                | Missing missing \<Rightarrow> Some (block_on qc missing s))"
            by (simp add: try_commit_def del: walk_chain.simps)
          with assms obtain w where
            w: "walk_chain (Suc (length (e_blocks s))) (e_blocks s) (e_committed s) p [p] = Some w"
              "(case w of Chain chain \<Rightarrow> commit_chain qc pqc p b chain s | ForkBelow \<Rightarrow> Some s
                | Missing missing \<Rightarrow> Some (block_on qc missing s)) = Some s'"
            by (auto simp only: bind_eq_Some_conv)
          then show ?thesis
          proof (cases w)
            case (Chain chain)
            show ?thesis
              by (rule that(3) [OF False Some P _ _ Q]) (use w Chain G in \<open>simp_all add: not_le del: walk_chain.simps\<close>)
          next
            case ForkBelow
            with w(2) show ?thesis by (intro that(1)) simp
          next
            case (Missing m)
            with w(2) show ?thesis by (intro that(2) [of m]) simp
          qed
        qed
      qed
    qed
  next
    case None
    with assms False show ?thesis by (intro that(2) [of "qc_block qc"]) (simp add: try_commit_def)
  qed
next
  case True
  with assms show ?thesis by (intro that(1)) (simp add: try_commit_def)
qed

lemma commit_chain_sel:
  assumes "commit_chain qc pqc p b chain s = Some s'"
  shows "e_cfg s' = e_cfg s" "e_scheme s' = e_scheme s" "e_round s' = e_round s"
    "e_last_voted s' = e_last_voted s" "e_high_qc s' = e_high_qc s" "e_entry_tc s' = e_entry_tc s"
    "e_blocks s' = e_blocks s" "e_qcs s' = e_qcs s" "e_committed s' = p" "e_votes s' = e_votes s"
    "e_timeouts s' = e_timeouts s" "e_pending s' = e_pending s" "e_timed_out s' = e_timed_out s"
    "e_proposed s' = e_proposed s" "e_requested s' = e_requested s" "signings s' = signings s"
    "e_finished s \<longrightarrow> e_finished s'" "e_blocked_commit s' \<in> {e_blocked_commit s, None}"
proof -
  from assms obtain pf real where s': "s' = end_epoch p pf (push_commit real pf (unblock qc (s\<lparr>e_committed := p\<rparr>)))"
    unfolding commit_chain_def Let_def by (auto simp: bind_eq_Some_conv)
  show "e_blocked_commit s' \<in> {e_blocked_commit s, None}"
    using unblock_sel(19) [of qc "s\<lparr>e_committed := p\<rparr>"] by (simp add: s' del: unblock_sel(19))
  show "e_finished s \<longrightarrow> e_finished s'" by (simp add: s')
qed (use assms in \<open>auto simp: commit_chain_def Let_def bind_eq_Some_conv\<close>)

lemma evolves_try_commit: "try_commit qc s = Some s' \<Longrightarrow> evolves s s'"
proof (erule try_commit_cases)
  fix p b pqc chain
  assume h: "bi_height p > bi_height (e_committed s)" and c: "commit_chain qc pqc p b chain s = Some s'"
    and p: "bt_get (bi_parent b) (e_blocks s) = Some p" and q: "bt_get (bi_hash p) (e_qcs s) = Some pqc"
  have "com_ok p (e_blocks s) (e_qcs s)" if "com_ok (e_committed s) (e_blocks s) (e_qcs s)"
    using that p q bt_get_SomeD [OF p] by (auto simp: com_ok_def bt_has_def)
  with h commit_chain_sel [OF c] show "evolves s s'"
    by (simp add: evolves_def)
qed simp_all

lemma try_commit_sel:
  assumes t: "try_commit qc s = Some s'"
  shows "e_cfg s' = e_cfg s \<and> e_scheme s' = e_scheme s \<and> e_round s' = e_round s \<and>
    e_last_voted s' = e_last_voted s \<and> e_high_qc s' = e_high_qc s \<and> e_entry_tc s' = e_entry_tc s \<and>
    e_blocks s' = e_blocks s \<and> e_qcs s' = e_qcs s \<and> e_votes s' = e_votes s \<and>
    e_timeouts s' = e_timeouts s \<and> e_pending s' = e_pending s \<and> e_timed_out s' = e_timed_out s \<and>
    e_proposed s' = e_proposed s \<and> signings s' = signings s"
  using t
proof (rule try_commit_cases)
  fix p b pqc chain
  assume "commit_chain qc pqc p b chain s = Some s'"
  from commit_chain_sel [OF this] show ?thesis by simp
qed simp_all

lemma prune_sel [simp]:
  "e_cfg (prune s) = e_cfg s" "e_scheme (prune s) = e_scheme s" "e_round (prune s) = e_round s"
  "e_last_voted (prune s) = e_last_voted s" "e_high_qc (prune s) = e_high_qc s"
  "e_entry_tc (prune s) = e_entry_tc s" "e_committed (prune s) = e_committed s"
  "e_finished (prune s) = e_finished s" "signings (prune s) = signings s" "out (prune s) = out s"
  "e_blocked_commit (prune s) = e_blocked_commit s"
  by (simp_all add: prune_def Let_def)

lemma bt_set_retain: "set (bt_retain P m) \<subseteq> set m"
  by (auto simp: bt_retain_def)

lemma com_ok_insert_block:
  "com_ok com bs qs \<Longrightarrow> bi_height com \<le> bi_height b \<Longrightarrow> com_ok com (bt_insert (bi_hash b) b bs) qs"
  unfolding com_ok_def using bt_set_insert [of "bi_hash b" b bs]
  by (auto simp: bt_wf_insert bt_get_insert dest!: subsetD)

lemma com_ok_insert_qc: "com_ok com bs qs \<Longrightarrow> com_ok com bs (bt_insert h q qs)"
  by (auto simp: com_ok_def bt_wf_insert bt_has_def bt_get_insert)

lemma com_ok_external:
  "com_ok com bs qs \<Longrightarrow> bt_wf qs' \<Longrightarrow> bt_has (bi_hash b) qs' \<Longrightarrow> com_ok b (bt_insert (bi_hash b) b bs) qs'"
  unfolding com_ok_def using bt_set_insert [of "bi_hash b" b bs]
  by (auto simp: bt_wf_insert bt_get_insert dest!: subsetD)

lemma com_ok_qcs_wf: "com_ok com bs qs \<Longrightarrow> bt_wf qs"
  by (simp add: com_ok_def)

lemma bt_has_insert [simp]: "bt_has k (bt_insert k v m)"
  by (simp add: bt_has_def bt_get_insert)

lemma com_ok_prune:
  assumes "com_ok com bs qs"
  shows "com_ok com (bt_retain (\<lambda>_ b. bi_height b \<ge> bi_height com) bs)
    (bt_retain (\<lambda>k _. bt_has k (bt_retain (\<lambda>_ b. bi_height b \<ge> bi_height com) bs)) qs)"
proof -
  let ?bs = "bt_retain (\<lambda>_ b. bi_height b \<ge> bi_height com) bs"
  from assms obtain b where b: "bt_get (bi_hash com) bs = Some b" "bi_height com \<le> bi_height b"
    and wf: "bt_wf bs" "bt_wf qs" "bt_has (bi_hash com) qs" "\<forall>(h, b) \<in> set bs. bi_hash b = h"
    by (auto simp: com_ok_def)
  have g: "bt_get (bi_hash com) ?bs = Some b" using b by (simp add: bt_get_retain [OF wf(1)])
  moreover obtain q where "bt_get (bi_hash com) qs = Some q" using wf(3) by (auto simp: bt_has_def)
  with g have "bt_get (bi_hash com) (bt_retain (\<lambda>k _. bt_has k ?bs) qs) = Some q"
    by (simp add: bt_get_retain [OF wf(2)] bt_has_def)
  moreover have "\<forall>(h, b) \<in> set ?bs. bi_hash b = h" using wf(4) bt_set_retain by blast
  ultimately show ?thesis
    using b wf by (auto simp: com_ok_def bt_wf_retain bt_has_def)
qed

lemma evolves_prune [simp]: "evolves s (prune s)"
  by (simp add: evolves_def com_ok_prune) (simp add: prune_def Let_def com_ok_prune)

subsection \<open>Handlers\<close>

text \<open>The state in which the timeout loop starts: the round counts as voted in.\<close>

definition timing_out :: "round \<Rightarrow> ('sig, 'agg) est \<Rightarrow> ('sig, 'agg) est \<Rightarrow> bool" where
  "timing_out r s s1 \<longleftrightarrow> (\<exists>ms. out s1 = out s @ [ScheduleTimeout r ms]) \<and>
     e_last_voted s1 = max (e_last_voted s) r \<and>
     e_cfg s1 = e_cfg s \<and> e_scheme s1 = e_scheme s \<and> e_round s1 = e_round s \<and>
     e_high_qc s1 = e_high_qc s \<and> e_entry_tc s1 = e_entry_tc s \<and> e_blocks s1 = e_blocks s \<and>
     e_qcs s1 = e_qcs s \<and> e_committed s1 = e_committed s \<and> e_votes s1 = e_votes s \<and>
     e_timeouts s1 = e_timeouts s \<and> e_pending s1 = e_pending s \<and>
     e_blocked_commit s1 = e_blocked_commit s \<and> e_finished s1 = e_finished s \<and> signings s1 = signings s \<and>
     (c_me (e_cfg s) = [] \<or> e_timed_out s1 = insert r (e_timed_out s)) \<and> e_proposed s1 = e_proposed s"

text \<open>
  The contract of \<open>enter_round\<close> that the handlers rely on, and what the handlers then keep. The
  contract is discharged for \<open>enter_round\<close> itself below, by induction on its fuel.
\<close>

locale entry_evolves =
  fixes ent :: "('sig, 'agg) entry"
  assumes ent_evolves: "ent r tc s = Some s' \<Longrightarrow> evolves s s'"
begin

lemma evolves_record_qc: "evolves s (record_qc qc s)"
  by (auto simp: evolves_def record_qc_def com_ok_insert_qc)

lemma evolves_process_qc':
  assumes "process_qc ent qc s = Some s'"
  shows "evolves (record_qc qc s) s'"
proof -
  from assms obtain s1 where s1: "try_commit qc (record_qc qc s) = Some s1"
    and s': "(if qc_round qc \<ge> e_round s1 then ent (qc_round qc + 1) None (s1\<lparr>e_consecutive_timeouts := 0\<rparr>)
       else Some s1) = Some s'"
    by (auto simp: process_qc_def bind_eq_Some_conv)
  note 1 = evolves_try_commit [OF s1]
  have "evolves s1 (s1\<lparr>e_consecutive_timeouts := 0\<rparr>)" by (simp add: evolves_same)
  with s' have "evolves s1 s'"
    by (auto split: if_splits dest!: ent_evolves intro: evolves_trans)
  with 1 show ?thesis by (rule evolves_trans)
qed

lemma evolves_process_qc: "process_qc ent qc s = Some s' \<Longrightarrow> evolves s s'"
  by (rule evolves_trans [OF evolves_record_qc evolves_process_qc'])

lemma evolves_process_tc: "process_tc ent tc s = Some s' \<Longrightarrow> evolves s s'"
  unfolding process_tc_def
  by (auto simp: bind_eq_Some_conv split: if_splits dest!: evolves_process_qc ent_evolves
      intro: evolves_trans)

lemma evolves_on_vote:
  assumes "on_vote ent v s = Some s'"
  shows "evolves s s'"
proof -
  have put: "evolves s (s\<lparr>e_votes := m\<rparr>)" for m by (simp add: evolves_same)
  show ?thesis
    using assms unfolding on_vote_def Let_def
    by (auto simp: bind_eq_Some_conv put split: if_splits option.splits prod.splits
        dest!: evolves_process_qc intro: evolves_trans [OF put])
qed

lemma evolves_cast_vote:
  "cast_vote ent p nx me s = Some s' \<Longrightarrow> evolves (note_signing (GVote me p) s) s'"
  unfolding cast_vote_def Let_def
  by (auto simp: bind_eq_Some_conv split: if_splits dest: evolves_on_vote)

text \<open>The voting loop: every vote of the loop is above the round voted last.\<close>

lemma evolves_cast_votes:
  assumes "for_each (cast_vote ent p nx) ms (s\<lparr>e_last_voted := bi_round (p_block p)\<rparr>) = Some s'"
    and lt: "e_last_voted s < bi_round (p_block p)" and r: "bi_round (p_block p) = e_round s"
  shows "evolves s s' \<and> bi_round (p_block p) \<le> e_last_voted s'"
  using assms(1)
proof (rule for_each_inv [where P = "\<lambda>t. evolves s t \<and> bi_round (p_block p) \<le> e_last_voted t"])
  show "evolves s (s\<lparr>e_last_voted := bi_round (p_block p)\<rparr>)
      \<and> bi_round (p_block p) \<le> e_last_voted (s\<lparr>e_last_voted := bi_round (p_block p)\<rparr>)"
    using lt by (simp add: evolves_def)
next
  fix me t t'
  assume P: "evolves s t \<and> bi_round (p_block p) \<le> e_last_voted t"
    and t': "cast_vote ent p nx me t = Some t'"
  have "evolves s (note_signing (GVote me p) t)"
    using P lt r unfolding evolves_def by fastforce
  from evolves_trans [OF this evolves_cast_vote [OF t']] evolves_cast_vote [OF t'] P
  show "evolves s t' \<and> bi_round (p_block p) \<le> e_last_voted t'"
    by (auto simp: evolves_def)
qed

lemma on_validated_cases:
  assumes "on_validated ent block valid s = Some s'"
  obtains "s' = s" | "s' = s\<lparr>e_pending := bt_remove block (e_pending s)\<rparr>"
  | p nx where "bt_get block (e_pending s) = Some p" "bi_round (p_block p) = e_round s"
      "e_last_voted s < bi_round (p_block p)" "safe_to_vote p" "\<not> e_finished s"
      "eng_leader (bi_round (p_block p) + 1) s = Some nx"
      "for_each (cast_vote ent p nx) (c_me (e_cfg s))
         (s\<lparr>e_pending := bt_remove block (e_pending s), e_last_voted := bi_round (p_block p)\<rparr>) = Some s'"
proof (cases "bt_get block (e_pending s)")
  case None
  with assms show ?thesis by (intro that(1)) (simp add: on_validated_def)
next
  case (Some p)
  let ?s1 = "s\<lparr>e_pending := bt_remove block (e_pending s)\<rparr>" and ?r = "bi_round (p_block p)"
  show ?thesis
  proof (cases "\<not> valid \<or> (?r \<noteq> e_round s \<or> ?r \<le> e_last_voted s \<or> \<not> safe_to_vote p \<or> e_finished s)
      \<or> c_me (e_cfg s) = []")
    case True
    with assms Some show ?thesis
      by (intro that(2)) (auto simp: on_validated_def Let_def split: if_splits)
  next
    case False
    with assms Some have "Option.bind (eng_leader (?r + 1) ?s1) (\<lambda>nx. for_each (cast_vote ent p nx)
        (c_me (e_cfg s)) (?s1\<lparr>e_last_voted := ?r\<rparr>)) = Some s'"
      by (simp add: on_validated_def Let_def)
    then obtain nx where "eng_leader (?r + 1) ?s1 = Some nx"
      "for_each (cast_vote ent p nx) (c_me (e_cfg s)) (?s1\<lparr>e_last_voted := ?r\<rparr>) = Some s'"
      by (auto simp: bind_eq_Some_conv)
    with False Some show ?thesis
      by (intro that(3) [of p nx]) (auto simp: eng_leader_def)
  qed
qed

lemma evolves_on_validated: "on_validated ent block valid s = Some s' \<Longrightarrow> evolves s s'"
proof (erule on_validated_cases)
  fix p nx
  assume "bi_round (p_block p) = e_round s" "e_last_voted s < bi_round (p_block p)"
    "for_each (cast_vote ent p nx) (c_me (e_cfg s))
         (s\<lparr>e_pending := bt_remove block (e_pending s), e_last_voted := bi_round (p_block p)\<rparr>) = Some s'"
  then have "evolves (s\<lparr>e_pending := bt_remove block (e_pending s)\<rparr>) s'"
    using evolves_cast_votes [of p nx _ "s\<lparr>e_pending := bt_remove block (e_pending s)\<rparr>"] by simp
  then show "evolves s s'" by (rule evolves_trans [rotated]) (simp add: evolves_same)
qed (simp_all add: evolves_same)

lemma consider_vote_cases:
  assumes "consider_vote ent p nil s = Some s'"
  obtains "s' = s"
  | t where "bi_round (p_block p) = e_round s" "e_last_voted s < bi_round (p_block p)" "safe_to_vote p"
      "\<not> e_finished s" "c_me (e_cfg s) \<noteq> []"
      "t = s\<lparr>e_pending := bt_insert (bi_hash (p_block p)) p (e_pending s)\<rparr>"
      "s' = push (Validate p) t \<or> extending (on_validated ent (bi_hash (p_block p)) True) t = Some s'"
proof (cases "bi_round (p_block p) \<noteq> e_round s \<or> bi_round (p_block p) \<le> e_last_voted s \<or> c_me (e_cfg s) = []
    \<or> e_finished s \<or> \<not> safe_to_vote p \<or> bt_has (bi_hash (p_block p)) (e_pending s)")
  case True
  with assms have "s' = s" by (auto simp: consider_vote_def Let_def split: if_splits)
  then show ?thesis by (rule that(1))
next
  case False
  show ?thesis
  proof (rule that(2) [OF _ _ _ _ _ refl])
    show "s' = push (Validate p) (s\<lparr>e_pending := bt_insert (bi_hash (p_block p)) p (e_pending s)\<rparr>)
      \<or> extending (on_validated ent (bi_hash (p_block p)) True)
          (s\<lparr>e_pending := bt_insert (bi_hash (p_block p)) p (e_pending s)\<rparr>) = Some s'"
      using assms False by (auto simp: consider_vote_def Let_def split: if_splits)
  qed (use False in auto)
qed

lemma evolves_consider_vote: "consider_vote ent p nil s = Some s' \<Longrightarrow> evolves s s'"
proof (erule consider_vote_cases)
  fix t
  assume t: "t = s\<lparr>e_pending := bt_insert (bi_hash (p_block p)) p (e_pending s)\<rparr>"
    and s': "s' = push (Validate p) t \<or> extending (on_validated ent (bi_hash (p_block p)) True) t = Some s'"
  have "evolves s t" by (simp add: evolves_same t)
  moreover from s' have "evolves t s'"
  proof
    assume "extending (on_validated ent (bi_hash (p_block p)) True) t = Some s'"
    then show ?thesis by (rule evolves_extending [OF _ evolves_on_validated])
  qed simp
  ultimately show "evolves s s'" by (rule evolves_trans)
qed simp

lemma on_proposal_cases:
  assumes "on_proposal H ent p s = Some s'"
  obtains "s' = s"
  | l s1 s2 where "eng_leader (bi_round (p_block p)) s = Some l" "proposal_ok H p l s"
      "process_qc ent (p_qc p) (remember_block (p_block p) s) = Some s1"
      "(case p_tc p of Some tc \<Rightarrow> process_tc ent tc s1 | None \<Rightarrow> Some s1) = Some s2"
      "consider_vote ent p (is_nil_height (bi_height (p_block p)) s) s2 = Some s'"
proof -
  from assms obtain l where l: "eng_leader (bi_round (p_block p)) s = Some l"
    by (auto simp: on_proposal_def bind_eq_Some_conv)
  show ?thesis
  proof (cases "proposal_ok H p l s")
    case True
    with assms l obtain s1 s2 where "process_qc ent (p_qc p) (remember_block (p_block p) s) = Some s1"
      "(case p_tc p of Some tc \<Rightarrow> process_tc ent tc s1 | None \<Rightarrow> Some s1) = Some s2"
      "consider_vote ent p (is_nil_height (bi_height (p_block p)) s) s2 = Some s'"
      by (auto simp: on_proposal_def bind_eq_Some_conv)
    with l True show ?thesis by (rule that(2))
  next
    case False
    with assms l have "s' = s" by (simp add: on_proposal_def)
    then show ?thesis by (rule that(1))
  qed
qed

lemma evolves_remember [simp]: "evolves s (remember_block b s)"
  by (auto simp: evolves_def remember_block_def com_ok_insert_block)

lemma evolves_opt_tc:
  "(case tco of Some tc \<Rightarrow> process_tc ent tc s | None \<Rightarrow> Some s) = Some s' \<Longrightarrow> evolves s s'"
  by (auto split: option.splits dest: evolves_process_tc)

lemma evolves_on_proposal: "on_proposal H ent p s = Some s' \<Longrightarrow> evolves s s'"
proof (erule on_proposal_cases)
  fix l s1 s2
  assume "process_qc ent (p_qc p) (remember_block (p_block p) s) = Some s1"
    and "(case p_tc p of Some tc \<Rightarrow> process_tc ent tc s1 | None \<Rightarrow> Some s1) = Some s2"
    and "consider_vote ent p (is_nil_height (bi_height (p_block p)) s) s2 = Some s'"
  then show "evolves s s'"
    by (blast intro: evolves_trans [OF evolves_remember] evolves_trans dest: evolves_process_qc evolves_opt_tc
        evolves_consider_vote)
qed simp

lemma take_validate_subset: "take_validate h as = Some rest \<Longrightarrow> set rest \<subseteq> set as"
  by (induction as arbitrary: rest) (auto split: if_splits)

lemma on_proposed_cases:
  assumes "on_proposed H ent block qc tc payload s = Some s'"
  obtains "s' = s"
  | me g p s1 where "bi_round block = e_round s" "is_me me s" "\<not> e_finished s"
      "eng_leader (bi_round block) s = Some me"
      "sign (e_scheme s) me (proposal_msg H (c_chain_id (e_cfg s)) (c_epoch (e_cfg s)) (bi_round block)
         (bi_hash block) payload) = Some g"
      "p = \<lparr>p_epoch = c_epoch (e_cfg s), p_block = block, p_qc = qc, p_tc = tc, p_proposer = me,
         p_payload = payload, p_sig = g\<rparr>"
      "on_proposal H ent p (push (Broadcast (MProposal p)) (note_signing (GPropose me p) s)) = Some s1"
      "s' = s1 \<or> (\<exists>rest. set rest \<subseteq> set (out s1)
         \<and> extending (on_validated ent (bi_hash block) True) (s1\<lparr>out := rest\<rparr>) = Some s')"
proof -
  from assms obtain me where me: "eng_leader (bi_round block) s = Some me"
    by (auto simp: on_proposed_def bind_eq_Some_conv)
  show ?thesis
  proof (cases "bi_round block \<noteq> e_round s \<or> \<not> is_me me s \<or> e_finished s")
    case True
    with assms me have "s' = s" by (auto simp: on_proposed_def)
    then show ?thesis by (rule that(1))
  next
    case False
    with assms me obtain g s1 where
      "sign (e_scheme s) me (proposal_msg H (c_chain_id (e_cfg s)) (c_epoch (e_cfg s)) (bi_round block)
         (bi_hash block) payload) = Some g"
      "on_proposal H ent \<lparr>p_epoch = c_epoch (e_cfg s), p_block = block, p_qc = qc, p_tc = tc, p_proposer = me,
         p_payload = payload, p_sig = g\<rparr> (push (Broadcast (MProposal \<lparr>p_epoch = c_epoch (e_cfg s),
         p_block = block, p_qc = qc, p_tc = tc, p_proposer = me, p_payload = payload, p_sig = g\<rparr>))
         (note_signing (GPropose me \<lparr>p_epoch = c_epoch (e_cfg s), p_block = block, p_qc = qc, p_tc = tc,
         p_proposer = me, p_payload = payload, p_sig = g\<rparr>) s)) = Some s1"
      and c: "(case take_validate (bi_hash block) (out s1) of None \<Rightarrow> Some s1
         | Some rest \<Rightarrow> extending (on_validated ent (bi_hash block) True) (s1\<lparr>out := rest\<rparr>)) = Some s'"
      by (auto simp: on_proposed_def Let_def bind_eq_Some_conv)
    moreover from c have "s' = s1 \<or> (\<exists>rest. set rest \<subseteq> set (out s1)
         \<and> extending (on_validated ent (bi_hash block) True) (s1\<lparr>out := rest\<rparr>) = Some s')"
      by (cases "take_validate (bi_hash block) (out s1)") (auto dest: take_validate_subset)
    ultimately show ?thesis using False me by (intro that(2) [OF _ _ _ me _ refl]) auto
  qed
qed

lemma evolves_note_propose: "bi_round (p_block p) = e_round s \<Longrightarrow> evolves s (note_signing (GPropose v p) s)"
  by (auto simp: evolves_def)

lemma evolves_on_proposed: "on_proposed H ent block qc tc payload s = Some s' \<Longrightarrow> evolves s s'"
proof (erule on_proposed_cases)
  fix me g p s1
  assume r: "bi_round block = e_round s" and p_eq: "p = \<lparr>p_epoch = c_epoch (e_cfg s), p_block = block,
      p_qc = qc, p_tc = tc, p_proposer = me, p_payload = payload, p_sig = g\<rparr>"
    and p: "on_proposal H ent p (push (Broadcast (MProposal p)) (note_signing (GPropose me p) s)) = Some s1"
    and s': "s' = s1 \<or> (\<exists>rest. set rest \<subseteq> set (out s1)
         \<and> extending (on_validated ent (bi_hash block) True) (s1\<lparr>out := rest\<rparr>) = Some s')"
  have "evolves s s1"
    by (rule evolves_trans [OF evolves_note_propose [of p] evolves_trans [OF evolves_push evolves_on_proposal [OF p]]])
      (simp add: p_eq r)
  moreover from s' have "evolves s1 s'"
  proof (elim disjE exE conjE)
    fix rest
    assume "extending (on_validated ent (bi_hash block) True) (s1\<lparr>out := rest\<rparr>) = Some s'"
    from evolves_extending [OF this evolves_on_validated] show "evolves s1 s'"
      by (rule evolves_trans [OF evolves_out])
  qed simp
  ultimately show "evolves s s'" by (rule evolves_trans)
qed simp

lemma evolves_retry_commit: "retry_commit s = Some s' \<Longrightarrow> evolves s s'"
  by (auto simp: retry_commit_def split: option.splits dest: evolves_try_commit)

lemma evolves_on_block: "on_block b s = Some s' \<Longrightarrow> evolves s s'"
  unfolding on_block_def Let_def
  by (drule evolves_retry_commit, erule evolves_trans [rotated]) (auto simp: evolves_def com_ok_insert_block)

lemma evolves_lead_round:
  assumes "lead_round H ent r s = Some s'"
  shows "evolves s s'"
proof -
  let ?s1 = "s\<lparr>e_proposed := insert r (e_proposed s)\<rparr>"
  have s1: "evolves s ?s1" by (simp add: evolves_same)
  from assms consider "s' = s" | "s' = push (Propose r (e_high_qc ?s1) (e_entry_tc ?s1)) ?s1"
    | b where "extending (on_proposed H ent b (e_high_qc ?s1) (e_entry_tc ?s1) []) ?s1 = Some s'"
    unfolding lead_round_def Let_def by (auto simp: bind_eq_Some_conv split: if_splits)
  then show ?thesis
  proof cases
    case 2
    then show ?thesis using evolves_trans [OF s1 evolves_push] by simp
  next
    case 3
    from evolves_extending [OF this evolves_on_proposed] show ?thesis by (rule evolves_trans [OF s1])
  qed simp
qed

lemma enter_round_body_cases:
  assumes "enter_round_body H ent r tc s = Some s'"
  obtains "s' = s" "r \<le> e_round s"
  | s1 where "e_round s < r" "retry_commit (s\<lparr>e_round := r, e_entry_tc := tc, e_requested := {}\<rparr>) = Some s1"
      "s' = s1 \<or> lead_round H ent r (prune (push (ScheduleTimeout r (timeout_ms s1)) s1)) = Some s'"
proof (cases "r \<le> e_round s")
  case True
  with assms that(1) show ?thesis by (auto simp: enter_round_body_def)
next
  case False
  with assms obtain s1 where
    "retry_commit (s\<lparr>e_round := r, e_entry_tc := tc, e_requested := {}\<rparr>) = Some s1"
    "s' = s1 \<or> lead_round H ent r (prune (push (ScheduleTimeout r (timeout_ms s1)) s1)) = Some s'"
    by (auto simp: enter_round_body_def bind_eq_Some_conv split: if_splits)
  with False show ?thesis by (intro that(2)) auto
qed

lemma evolves_enter_round_body: "enter_round_body H ent r tc s = Some s' \<Longrightarrow> evolves s s'"
proof (erule enter_round_body_cases)
  fix s1
  assume r: "e_round s < r"
    and s1: "retry_commit (s\<lparr>e_round := r, e_entry_tc := tc, e_requested := {}\<rparr>) = Some s1"
    and s': "s' = s1 \<or> lead_round H ent r (prune (push (ScheduleTimeout r (timeout_ms s1)) s1)) = Some s'"
  have "evolves s (s\<lparr>e_round := r, e_entry_tc := tc, e_requested := {}\<rparr>)"
    using r by (simp add: evolves_def)
  from evolves_trans [OF this evolves_retry_commit [OF s1]] have "evolves s s1" .
  moreover from s' have "evolves s1 s'"
  proof
    assume "lead_round H ent r (prune (push (ScheduleTimeout r (timeout_ms s1)) s1)) = Some s'"
    from evolves_lead_round [OF this] show ?thesis
      by (rule evolves_trans [OF evolves_trans [OF evolves_push evolves_prune]])
  qed simp
  ultimately show "evolves s s'" by (rule evolves_trans)
qed simp

lemma evolves_adopt_last_tc: "adopt_last_tc ent t s = Some s' \<Longrightarrow> evolves s s'"
  by (auto simp: adopt_last_tc_def split: option.splits if_splits dest: evolves_process_tc)

lemma evolves_collect_timeout:
  assumes "collect_timeout ent lt t s = Some s'" "\<And>s s'. lt s = Some s' \<Longrightarrow> evolves s s'"
  shows "evolves s s'"
proof -
  have put: "evolves s (s\<lparr>e_timeouts := m\<rparr>)" for m by (simp add: evolves_same)
  from assms(1) consider m where "s' = s\<lparr>e_timeouts := m\<rparr>"
    | m tc where "process_tc ent tc (s\<lparr>e_timeouts := m\<rparr>) = Some s'"
    | m where "lt (s\<lparr>e_timeouts := m\<rparr>) = Some s'"
    unfolding collect_timeout_def Let_def by (auto split: if_splits)
  then show ?thesis
  proof cases
    case 2
    from evolves_process_tc [OF this] show ?thesis by (rule evolves_trans [OF put])
  next
    case 3
    from assms(2) [OF this] show ?thesis by (rule evolves_trans [OF put])
  qed (simp add: put)
qed

lemma on_timeout_msg_body_cases:
  assumes "on_timeout_msg_body ent lt t s = Some s'"
  obtains "s' = s"
  | s1 s2 where "timeout_checks t s" "adopt_last_tc ent t s = Some s1"
      "process_qc ent (t_high_qc t) s1 = Some s2" "collect_timeout ent lt t s2 = Some s'"
proof (cases "timeout_checks t s")
  case True
  with assms obtain s1 s2 where "adopt_last_tc ent t s = Some s1"
      "process_qc ent (t_high_qc t) s1 = Some s2" "collect_timeout ent lt t s2 = Some s'"
    by (auto simp: on_timeout_msg_body_def bind_eq_Some_conv)
  with True show ?thesis by (rule that(2))
next
  case False
  with assms have "s' = s" by (simp add: on_timeout_msg_body_def)
  then show ?thesis by (rule that(1))
qed

lemma evolves_on_timeout_msg_body:
  assumes "on_timeout_msg_body ent lt t s = Some s'" "\<And>s s'. lt s = Some s' \<Longrightarrow> evolves s s'"
  shows "evolves s s'"
  using assms(1)
proof (rule on_timeout_msg_body_cases)
  fix s1 s2
  assume "adopt_last_tc ent t s = Some s1" "process_qc ent (t_high_qc t) s1 = Some s2"
    and c: "collect_timeout ent lt t s2 = Some s'"
  then have "evolves s s2" by (blast intro: evolves_trans dest: evolves_adopt_last_tc evolves_process_qc)
  then show ?thesis by (rule evolves_trans [OF _ evolves_collect_timeout [OF c assms(2)]])
qed simp

text \<open>The timeout loop: every timeout of the loop reports the highest certificate at its start.\<close>

lemma evolves_send_timeouts:
  assumes "for_until stop (send_timeout otm r (qc_round (e_high_qc s))) ms s = Some s'"
    and "\<And>t s s'. otm t s = Some s' \<Longrightarrow> evolves s s'" and lv: "r \<le> e_last_voted s"
    and r: "r = e_round s"
  shows "evolves s s'"
proof -
  let ?q = "qc_round (e_high_qc s)"
  have "evolves s s' \<and> r \<le> e_last_voted s'"
    using assms(1)
  proof (rule for_until_inv [where P = "\<lambda>t. evolves s t \<and> r \<le> e_last_voted t"])
    fix me u u'
    assume P: "evolves s u \<and> r \<le> e_last_voted u" and u': "send_timeout otm r ?q me u = Some u'"
    from u' obtain t where
      "otm t (push (Broadcast (MTimeout t)) (note_signing (GTimeout me r ?q) u)) = Some u'"
      by (auto simp: send_timeout_def Let_def bind_eq_Some_conv)
    from evolves_trans [OF evolves_push assms(2) [OF this]]
    have n: "evolves (note_signing (GTimeout me r ?q) u) u'" .
    have "evolves s (note_signing (GTimeout me r ?q) u)"
      using P r unfolding evolves_def by fastforce
    from evolves_trans [OF this n] n P show "evolves s u' \<and> r \<le> e_last_voted u'"
      by (auto simp: evolves_def)
  qed (simp add: lv)
  then show ?thesis ..
qed

lemma local_timeout_body_cases:
  assumes "local_timeout_body otm s = Some s'"
  obtains s1 where "timing_out (e_round s) s s1"
      "s' = s1 \<or> for_until (\<lambda>t. e_round t \<noteq> e_round s)
         (send_timeout otm (e_round s) (qc_round (e_high_qc s1))) (c_me (e_cfg s)) s1 = Some s'"
proof -
  let ?r = "e_round s"
  let ?s0 = "s\<lparr>e_last_voted := max (e_last_voted s) ?r,
                e_consecutive_timeouts := saturating_inc (e_consecutive_timeouts s)\<rparr>"
  let ?s1 = "push (ScheduleTimeout ?r (timeout_ms ?s0)) ?s0"
  let ?s2 = "?s1\<lparr>e_timed_out := insert ?r (e_timed_out ?s1)\<rparr>"
  show ?thesis
  proof (cases "c_me (e_cfg s) = []")
    case True
    with assms have "s' = ?s1" by (simp add: local_timeout_body_def Let_def)
    with True show ?thesis by (intro that [of ?s1]) (auto simp: timing_out_def)
  next
    case False
    with assms have "for_until (\<lambda>s. e_round s \<noteq> ?r) (send_timeout otm ?r (qc_round (e_high_qc ?s2)))
        (c_me (e_cfg s)) ?s2 = Some s'" by (simp add: local_timeout_body_def Let_def)
    then show ?thesis by (intro that [of ?s2]) (auto simp: timing_out_def)
  qed
qed

lemma evolves_timing_out: "timing_out r s s1 \<Longrightarrow> evolves s s1"
  by (simp add: timing_out_def evolves_def)

lemma evolves_local_timeout_body:
  assumes "local_timeout_body otm s = Some s'" "\<And>t s s'. otm t s = Some s' \<Longrightarrow> evolves s s'"
  shows "evolves s s'"
  using assms(1)
proof (rule local_timeout_body_cases)
  fix s1
  assume t: "timing_out (e_round s) s s1" and s': "s' = s1 \<or> for_until (\<lambda>t. e_round t \<noteq> e_round s)
         (send_timeout otm (e_round s) (qc_round (e_high_qc s1))) (c_me (e_cfg s)) s1 = Some s'"
  from s' show ?thesis
  proof
    assume f: "for_until (\<lambda>t. e_round t \<noteq> e_round s) (send_timeout otm (e_round s) (qc_round (e_high_qc s1)))
      (c_me (e_cfg s)) s1 = Some s'"
    have "evolves s1 s'"
      by (rule evolves_send_timeouts [OF f assms(2)]) (use t in \<open>simp_all add: timing_out_def\<close>)
    then show ?thesis by (rule evolves_trans [OF evolves_timing_out [OF t]])
  qed (use evolves_timing_out [OF t] in simp)
qed

lemma evolves_local_timeout: "local_timeout d ent s = Some s' \<Longrightarrow> evolves s s'"
proof (induction d arbitrary: s s')
  case (Suc d)
  show ?case
    by (rule evolves_local_timeout_body [OF Suc.prems [simplified]])
      (rule evolves_on_timeout_msg_body [OF _ Suc.IH])
qed simp

lemma evolves_on_external_commit: "on_external_commit ent b qc s = Some s' \<Longrightarrow> evolves s s'"
proof (cases "bi_height b \<le> bi_height (e_committed s) \<or> \<not> verify_qc qc s \<or> qc_block qc \<noteq> bi_hash b")
  case False
  assume "on_external_commit ent b qc s = Some s'"
  with False have "process_qc ent qc (s\<lparr>e_blocks := bt_insert (bi_hash b) b (e_blocks s), e_committed := b\<rparr>)
      = Some s'" by (simp add: on_external_commit_def)
  from evolves_process_qc' [OF this] show ?thesis
  proof (rule evolves_trans [rotated])
    show "evolves s (record_qc qc (s\<lparr>e_blocks := bt_insert (bi_hash b) b (e_blocks s), e_committed := b\<rparr>))"
      using False by (auto simp: evolves_def record_qc_def bt_wf_insert
          intro!: com_ok_external dest: com_ok_qcs_wf)
  qed
qed (auto simp: on_external_commit_def)

lemma evolves_handle:
  assumes "handle H ent i s = Some s'"
  shows "evolves s s'"
proof (cases i)
  case (IMessage m)
  with assms show ?thesis
    by (cases m) (auto simp: on_message_def on_timeout_msg_def split: if_splits
        dest: evolves_on_proposal evolves_on_vote
        intro: evolves_on_timeout_msg_body [OF _ evolves_local_timeout])
next
  case (ITimeout r)
  with assms show ?thesis by (auto simp: on_timeout_def split: if_splits dest: evolves_local_timeout)
qed (use assms in \<open>auto simp: start_def dest: ent_evolves evolves_on_validated evolves_on_proposed
    evolves_on_block evolves_on_external_commit\<close>)

end

lemma evolves_enter_round:
  fixes s :: "('sig, 'agg) est"
  shows "enter_round H f r tc s = Some s' \<Longrightarrow> evolves s s'"
proof (induction f arbitrary: r tc s s')
  case (Suc f)
  have "entry_evolves (enter_round H f :: ('sig, 'agg) entry)" by (rule entry_evolves.intro) (rule Suc.IH)
  from entry_evolves.evolves_enter_round_body [OF this] Suc.prems show ?case by simp
qed simp

interpretation er: entry_evolves "enter_round H f" for H f
  by unfold_locales (rule evolves_enter_round)

lemma evolves_step: "step H f i s = Some s' \<Longrightarrow> evolves s s'"
  unfolding step_def by (rule evolves_trans [OF evolves_out er.evolves_handle])

end
