(* ===== verification/Engine_Safe.thy ===== *)
theory Engine_Safe
  imports Engine_Inv
begin

text \<open>
  The safety invariant of one engine. The parameters \<open>par\<close> and \<open>rnd\<close> give the parent and the round
  of a block by its hash; \<open>auth_block\<close> says that a block's fields are the ones its hash stands for.
  The engine does not check this of the blocks it is told about, so it is a condition on inputs.
\<close>

subsection \<open>The invariant\<close>

text \<open>
  A certificate as the engine holds them: the anchor, or signed by a quorum. This is \<open>qc_verify\<close>
  without its demand that a signed certificate has a positive round, which the certificates an
  engine forms itself from votes do not guarantee.
\<close>

definition good_qc :: "config \<Rightarrow> ('sig, 'agg) scheme \<Rightarrow> 'agg qc \<Rightarrow> bool" where
  "good_qc cfg sc q \<longleftrightarrow>
     qc_epoch q = c_epoch cfg \<and> length (qc_signers q) \<le> 8192 \<and>
     (if is_anchor q then qc_block q = bi_hash (c_anchor cfg)
      else \<exists>a. qc_sig q = Some a
        \<and> is_quorum (c_validators cfg) (weight_of (c_validators cfg) (bitmap_decode (qc_signers q)))
        \<and> (\<forall>i \<in> set (bitmap_decode (qc_signers q)). unat i < vs_len (c_validators cfg))
        \<and> verify_aggregate sc (bitmap_decode (qc_signers q))
            (vote_msg (c_chain_id cfg) (c_epoch cfg) (qc_round q) (qc_block q)) a)"

lemma good_qcI:
  assumes "qc_verify sc (c_validators cfg) (c_chain_id cfg) (c_epoch cfg) (bi_hash (c_anchor cfg)) q"
    and "length (qc_signers q) \<le> 8192"
  shows "good_qc cfg sc q"
proof (cases "is_anchor q")
  case True
  with assms show ?thesis by (simp add: good_qc_def qc_verify_epoch qc_verify_anchor)
next
  case False
  from qc_verify_signed [OF assms(1) False] assms False show ?thesis
    unfolding good_qc_def by (auto simp: qc_verify_epoch)
qed

definition good_tc :: "config \<Rightarrow> ('sig, 'agg) scheme \<Rightarrow> ('sig, 'agg) tc \<Rightarrow> bool" where
  "good_tc cfg sc t \<longleftrightarrow>
     tc_verify sc (c_validators cfg) (c_chain_id cfg) (c_epoch cfg) (bi_hash (c_anchor cfg)) t"

definition auth_block :: "(b256 \<Rightarrow> b256) \<Rightarrow> (b256 \<Rightarrow> round) \<Rightarrow> block_info \<Rightarrow> bool" where
  "auth_block par rnd b \<longleftrightarrow> bi_parent b = par (bi_hash b) \<and> bi_round b = rnd (bi_hash b)"

definition good_prop ::
    "(b256 \<Rightarrow> b256) \<Rightarrow> (b256 \<Rightarrow> round) \<Rightarrow> config \<Rightarrow> ('sig, 'agg) scheme \<Rightarrow> ('sig, 'agg) proposal \<Rightarrow> bool" where
  "good_prop par rnd cfg sc p \<longleftrightarrow>
     good_qc cfg sc (p_qc p) \<and> auth_block par rnd (p_block p) \<and>
     bi_parent (p_block p) = qc_block (p_qc p) \<and> qc_round (p_qc p) < bi_round (p_block p) \<and>
     (\<forall>tc. p_tc p = Some tc \<longrightarrow> good_tc cfg sc tc \<and> tc_round tc + 1 = bi_round (p_block p))"

definition agg_complete :: "('sig, 'agg) scheme \<Rightarrow> bool" where
  "agg_complete sc \<longleftrightarrow>
     (\<forall>is gs msg a. is \<noteq> [] \<longrightarrow> list_all2 (\<lambda>i g. verify sc i msg g) is gs \<longrightarrow> aggregate sc gs = Some a
        \<longrightarrow> verify_aggregate sc is msg a)"

definition vote_set_ok :: "('sig, 'agg) scheme \<Rightarrow> byte list \<Rightarrow> nat \<Rightarrow> 'sig vote_set \<Rightarrow> bool" where
  "vote_set_ok sc msg n st \<longleftrightarrow>
     bt_wf (vs_sigs st) \<and> bt_wf (vs_pending st) \<and>
     fst ` set (vs_sigs st) \<inter> fst ` set (vs_pending st) = {} \<and>
     (\<forall>(i, g) \<in> set (vs_sigs st). unat i < n \<and> verify sc i msg g) \<and>
     (\<forall>(i, g) \<in> set (vs_pending st). unat i < n)"

text \<open>A block is two-chain final when it and a child of the next round are certified.\<close>

definition two_chain ::
    "(b256 \<Rightarrow> b256) \<Rightarrow> (b256 \<Rightarrow> round) \<Rightarrow> config \<Rightarrow> ('sig, 'agg) scheme \<Rightarrow> b256 \<Rightarrow> bool" where
  "two_chain par rnd cfg sc h \<longleftrightarrow>
     (\<exists>pqc qc. good_qc cfg sc pqc \<and> good_qc cfg sc qc \<and> qc_block pqc = h \<and> par (qc_block qc) = h
        \<and> rnd h + 1 = rnd (qc_block qc))"

definition commit_ok ::
    "(b256 \<Rightarrow> b256) \<Rightarrow> (b256 \<Rightarrow> round) \<Rightarrow> config \<Rightarrow> ('sig, 'agg) scheme \<Rightarrow> block_info list \<Rightarrow> bool" where
  "commit_ok par rnd cfg sc bs \<longleftrightarrow>
     (\<exists>h. two_chain par rnd cfg sc h \<and> (\<forall>x \<in> set bs. \<exists>n. bi_hash x = (par ^^ n) h))"

definition qcs_ok :: "config \<Rightarrow> ('sig, 'agg) scheme \<Rightarrow> (b256, 'agg qc) btmap \<Rightarrow> bool" where
  "qcs_ok cfg sc qcs \<longleftrightarrow> (\<forall>(h, q) \<in> set qcs. qc_block q = h \<and> good_qc cfg sc q)"

definition blocked_ok :: "config \<Rightarrow> ('sig, 'agg) scheme \<Rightarrow> 'agg qc option \<Rightarrow> bool" where
  "blocked_ok cfg sc bc \<longleftrightarrow> (\<forall>q. bc = Some q \<longrightarrow> good_qc cfg sc q)"

definition timeouts_ok ::
    "config \<Rightarrow> ('sig, 'agg) scheme \<Rightarrow> (round, ('sig, 'agg) timeout_set) btmap \<Rightarrow> bool" where
  "timeouts_ok cfg sc ts \<longleftrightarrow> (\<forall>(r, st) \<in> set ts. good_qc cfg sc (ts_high_qc st))"

definition tree_ok :: "(b256 \<Rightarrow> b256) \<Rightarrow> (b256 \<Rightarrow> round) \<Rightarrow> (b256, block_info) btmap \<Rightarrow> bool" where
  "tree_ok par rnd bs \<longleftrightarrow> (\<forall>(h, b) \<in> set bs. bi_hash b = h \<and> auth_block par rnd b)"

definition votes_ok ::
    "config \<Rightarrow> ('sig, 'agg) scheme \<Rightarrow> (round \<times> b256, 'sig vote_set) btmap \<Rightarrow> bool" where
  "votes_ok cfg sc vm \<longleftrightarrow>
     (\<forall>(k, st) \<in> set vm. vote_set_ok sc (vote_msg (c_chain_id cfg) (c_epoch cfg) (fst k) (snd k))
          (vs_len (c_validators cfg)) st)"

definition pending_ok ::
    "(b256 \<Rightarrow> b256) \<Rightarrow> (b256 \<Rightarrow> round) \<Rightarrow> config \<Rightarrow> ('sig, 'agg) scheme \<Rightarrow> round
      \<Rightarrow> (b256, ('sig, 'agg) proposal) btmap \<Rightarrow> bool" where
  "pending_ok par rnd cfg sc hr pm \<longleftrightarrow>
     (\<forall>(h, p) \<in> set pm. good_prop par rnd cfg sc p \<and> qc_round (p_qc p) \<le> hr)"

text \<open>
  What was signed: votes are for good proposals that were safe to vote for, at most one block per
  round, and a timeout reports at least the certificate of every proposal voted for up to its round.
  \<open>hr\<close> is the round of the highest certificate, \<open>lv\<close> the last voted round.
\<close>

definition vote_ok ::
    "(b256 \<Rightarrow> b256) \<Rightarrow> (b256 \<Rightarrow> round) \<Rightarrow> config \<Rightarrow> ('sig, 'agg) scheme \<Rightarrow> round \<Rightarrow> round
      \<Rightarrow> ('sig, 'agg) proposal \<Rightarrow> bool" where
  "vote_ok par rnd cfg sc hr lv p \<longleftrightarrow> good_prop par rnd cfg sc p \<and> safe_to_vote p
     \<and> bi_round (p_block p) \<le> lv \<and> qc_round (p_qc p) \<le> hr"

definition votes_agree :: "('sig, 'agg) signing list \<Rightarrow> bool" where
  "votes_agree l \<longleftrightarrow> (\<forall>v p v' p'. GVote v p \<in> set l \<longrightarrow> GVote v' p' \<in> set l \<longrightarrow>
     bi_round (p_block p) = bi_round (p_block p') \<longrightarrow> bi_hash (p_block p) = bi_hash (p_block p'))"

definition reports_ok :: "('sig, 'agg) signing list \<Rightarrow> bool" where
  "reports_ok l \<longleftrightarrow> (\<forall>v r q v' p. GTimeout v r q \<in> set l \<longrightarrow> GVote v' p \<in> set l \<longrightarrow>
     bi_round (p_block p) \<le> r \<longrightarrow> qc_round (p_qc p) \<le> q)"

definition log_ok ::
    "(b256 \<Rightarrow> b256) \<Rightarrow> (b256 \<Rightarrow> round) \<Rightarrow> config \<Rightarrow> ('sig, 'agg) scheme \<Rightarrow> round \<Rightarrow> round
      \<Rightarrow> ('sig, 'agg) signing list \<Rightarrow> bool" where
  "log_ok par rnd cfg sc hr lv l \<longleftrightarrow>
     (\<forall>v p. GVote v p \<in> set l \<longrightarrow> vote_ok par rnd cfg sc hr lv p) \<and>
     (\<forall>v r q. GTimeout v r q \<in> set l \<longrightarrow> r \<le> lv) \<and> votes_agree l \<and> reports_ok l"

definition out_ok ::
    "(b256 \<Rightarrow> b256) \<Rightarrow> (b256 \<Rightarrow> round) \<Rightarrow> config \<Rightarrow> ('sig, 'agg) scheme \<Rightarrow> ('sig, 'agg) action list \<Rightarrow> bool" where
  "out_ok par rnd cfg sc l \<longleftrightarrow> (\<forall>bs pf. Commit bs pf \<in> set l \<longrightarrow> commit_ok par rnd cfg sc bs)"

definition static_ok :: "config \<Rightarrow> ('sig, 'agg) scheme \<Rightarrow> bool" where
  "static_ok cfg sc \<longleftrightarrow> set_wf (c_validators cfg) \<and> agg_complete sc"

definition short_tc :: "('sig, 'agg) tc option \<Rightarrow> bool" where
  "short_tc t \<longleftrightarrow> (\<forall>tc. t = Some tc \<longrightarrow> length (qc_signers (tc_high_qc tc)) \<le> 8192)"

definition inv :: "(b256 \<Rightarrow> b256) \<Rightarrow> (b256 \<Rightarrow> round) \<Rightarrow> ('sig, 'agg) est \<Rightarrow> bool" where
  "inv par rnd s \<longleftrightarrow>
     static_ok (e_cfg s) (e_scheme s) \<and>
     good_qc (e_cfg s) (e_scheme s) (e_high_qc s) \<and>
     qcs_ok (e_cfg s) (e_scheme s) (e_qcs s) \<and>
     blocked_ok (e_cfg s) (e_scheme s) (e_blocked_commit s) \<and>
     timeouts_ok (e_cfg s) (e_scheme s) (e_timeouts s) \<and> short_tc (e_entry_tc s) \<and>
     tree_ok par rnd (e_blocks s) \<and> auth_block par rnd (e_committed s) \<and>
     votes_ok (e_cfg s) (e_scheme s) (e_votes s) \<and>
     pending_ok par rnd (e_cfg s) (e_scheme s) (qc_round (e_high_qc s)) (e_pending s) \<and>
     log_ok par rnd (e_cfg s) (e_scheme s) (qc_round (e_high_qc s)) (e_last_voted s) (signings s) \<and>
     out_ok par rnd (e_cfg s) (e_scheme s) (out s)"

text \<open>The blocks this engine proposed itself are what their hashes stand for.\<close>

definition props_auth :: "(b256 \<Rightarrow> b256) \<Rightarrow> (b256 \<Rightarrow> round) \<Rightarrow> ('sig, 'agg) est \<Rightarrow> bool" where
  "props_auth par rnd s \<longleftrightarrow> (\<forall>v p. GPropose v p \<in> set (signings s) \<longrightarrow> auth_block par rnd (p_block p))"

lemma props_auth_mono: "evolves s s' \<Longrightarrow> props_auth par rnd s' \<Longrightarrow> props_auth par rnd s"
  by (auto simp: props_auth_def evolves_def)

subsection \<open>Steps on single fields\<close>

lemma out_ok_simps [simp]:
  "out_ok par rnd cfg sc []"
  "out_ok par rnd cfg sc (l @ l') \<longleftrightarrow> out_ok par rnd cfg sc l \<and> out_ok par rnd cfg sc l'"
  "out_ok par rnd cfg sc [Commit bs pf] \<longleftrightarrow> commit_ok par rnd cfg sc bs"
  "out_ok par rnd cfg sc [ScheduleTimeout r t]" "out_ok par rnd cfg sc [FetchBlock h]"
  "out_ok par rnd cfg sc [EpochEnd b pf]" "out_ok par rnd cfg sc [Validate p]"
  "out_ok par rnd cfg sc [Propose r q tc]" "out_ok par rnd cfg sc [Broadcast m]"
  "out_ok par rnd cfg sc [SendTo i m]"
  by (auto simp: out_ok_def)

lemma inv_out: "inv par rnd s \<Longrightarrow> out_ok par rnd (e_cfg s) (e_scheme s) l \<Longrightarrow> inv par rnd (s\<lparr>out := l\<rparr>)"
  by (simp add: inv_def)

lemma inv_extending:
  assumes "extending f s = Some s'" "inv par rnd s" "props_auth par rnd s'"
    and ev: "\<And>s s'. f s = Some s' \<Longrightarrow> evolves s s'"
    and f: "\<And>s s'. f s = Some s' \<Longrightarrow> inv par rnd s \<Longrightarrow> props_auth par rnd s' \<Longrightarrow> inv par rnd s'"
  shows "inv par rnd s'"
proof -
  from assms(1) obtain s1 where s1: "f (s\<lparr>out := []\<rparr>) = Some s1" "s' = s1\<lparr>out := out s @ out s1\<rparr>"
    by (auto simp: extending_def bind_eq_Some_conv)
  have "props_auth par rnd s1" using assms(3) by (simp add: s1(2) props_auth_def)
  from f [OF s1(1) inv_out [OF assms(2)] this] have "inv par rnd s1" by simp
  moreover have "e_cfg s1 = e_cfg s" "e_scheme s1 = e_scheme s"
    using ev [OF s1(1)] by (simp_all add: evolves_def)
  ultimately show ?thesis
    using assms(2) unfolding s1(2) by (simp add: inv_def)
qed

text \<open>A higher certificate or a later voted round keeps the log; so does signing a proposal.\<close>

lemma log_ok_mono:
  "log_ok par rnd cfg sc hr lv l \<Longrightarrow> hr \<le> hr' \<Longrightarrow> lv \<le> lv' \<Longrightarrow> log_ok par rnd cfg sc hr' lv' l"
  unfolding log_ok_def vote_ok_def by (meson order_trans)

lemma pending_ok_mono: "pending_ok par rnd cfg sc hr pm \<Longrightarrow> hr \<le> hr' \<Longrightarrow> pending_ok par rnd cfg sc hr' pm"
  unfolding pending_ok_def by fastforce

lemma log_ok_propose:
  "log_ok par rnd cfg sc hr lv (l @ [GPropose v p]) \<longleftrightarrow> log_ok par rnd cfg sc hr lv l"
  by (simp add: log_ok_def votes_agree_def reports_ok_def)

subsection \<open>Commits\<close>

lemma tree_okD: "tree_ok par rnd bs \<Longrightarrow> bt_get h bs = Some b \<Longrightarrow> bi_hash b = h \<and> auth_block par rnd b"
  by (auto simp: tree_ok_def dest: bt_get_SomeD)

lemma qcs_okD: "qcs_ok cfg sc qcs \<Longrightarrow> bt_get h qcs = Some q \<Longrightarrow> qc_block q = h \<and> good_qc cfg sc q"
  by (auto simp: qcs_ok_def dest: bt_get_SomeD)

lemma walk_chain_ancestors:
  assumes "walk_chain f bs com cur chain = Some (Chain c)" "tree_ok par rnd bs" "auth_block par rnd cur"
    and "\<forall>x \<in> set chain. \<exists>n. bi_hash x = (par ^^ n) h" "\<exists>n. bi_hash cur = (par ^^ n) h"
  shows "\<forall>x \<in> set c. \<exists>n. bi_hash x = (par ^^ n) h"
  using assms
proof (induction f bs com cur chain rule: walk_chain.induct)
  case (2 f bs com cur chain)
  show ?case
  proof (cases "bi_parent cur = bi_hash com")
    case True
    with 2 show ?thesis by simp
  next
    case False
    with 2(2) obtain parent where parent: "bt_get (bi_parent cur) bs = Some parent"
      "bi_height parent > bi_height com" "walk_chain f bs com parent (chain @ [parent]) = Some (Chain c)"
      by (auto split: option.splits if_splits)
    have a: "bi_hash parent = bi_parent cur" "auth_block par rnd parent"
      using tree_okD [OF 2(3) parent(1)] by auto
    from 2(6) obtain n where "bi_hash cur = (par ^^ n) h" ..
    with a(1) 2(4) have "bi_hash parent = (par ^^ Suc n) h" by (simp add: auth_block_def)
    then have "\<exists>n. bi_hash parent = (par ^^ n) h" ..
    moreover from this 2(5) have "\<forall>x \<in> set (chain @ [parent]). \<exists>n. bi_hash x = (par ^^ n) h" by auto
    ultimately show ?thesis
      by (intro 2(1) [OF False parent(1,2,3) 2(3) a(2)])
  qed
qed simp

lemma inv_block_on: "inv par rnd s \<Longrightarrow> good_qc (e_cfg s) (e_scheme s) qc \<Longrightarrow> inv par rnd (block_on qc m s)"
  by (simp add: inv_def block_on_def Let_def blocked_ok_def split: option.splits)

lemma out_push_commit [simp]:
  "out_ok par rnd cfg sc (out (push_commit l pf s)) \<longleftrightarrow>
     out_ok par rnd cfg sc (out s) \<and> (l = [] \<or> commit_ok par rnd cfg sc l)"
  by (auto simp: push_commit_def)

lemma out_end_epoch [simp]:
  "out_ok par rnd cfg sc (out (end_epoch p pf s)) \<longleftrightarrow> out_ok par rnd cfg sc (out s)"
  by (simp add: end_epoch_def)

lemma blocked_ok_unblock: "blocked_ok cfg sc (e_blocked_commit s) \<Longrightarrow> blocked_ok cfg sc (e_blocked_commit (unblock qc s))"
  by (simp add: unblock_def blocked_ok_def)

lemma inv_commit_chain:
  assumes c: "commit_chain qc pqc p b chain s = Some s'" and i: "inv par rnd s"
    and ok: "commit_ok par rnd (e_cfg s) (e_scheme s) chain" and p: "auth_block par rnd p"
  shows "inv par rnd s'"
proof -
  from c obtain pf real where s': "s' = end_epoch p pf (push_commit real pf (unblock qc (s\<lparr>e_committed := p\<rparr>)))"
    and real: "real = filter (\<lambda>x. bi_height x \<le> c_end_height (e_cfg s)) (rev chain)"
    unfolding commit_chain_def Let_def by (auto simp: bind_eq_Some_conv)
  have "commit_ok par rnd (e_cfg s) (e_scheme s) real"
    using ok unfolding commit_ok_def real by auto
  moreover have "blocked_ok (e_cfg s) (e_scheme s) (e_blocked_commit (unblock qc (s\<lparr>e_committed := p\<rparr>)))"
    using i by (intro blocked_ok_unblock) (simp add: inv_def)
  ultimately show ?thesis using i p by (simp add: s' inv_def)
qed

lemma inv_try_commit:
  assumes "try_commit qc s = Some s'" and i: "inv par rnd s" and q: "good_qc (e_cfg s) (e_scheme s) qc"
  shows "inv par rnd s'"
  using assms(1)
proof (rule try_commit_cases)
  fix p b pqc chain
  assume b: "bt_get (qc_block qc) (e_blocks s) = Some b" and p: "bt_get (bi_parent b) (e_blocks s) = Some p"
    and r: "bi_round p + 1 = bi_round b" and pq: "bt_get (bi_hash p) (e_qcs s) = Some pqc"
    and w: "walk_chain (Suc (length (e_blocks s))) (e_blocks s) (e_committed s) p [p] = Some (Chain chain)"
    and c: "commit_chain qc pqc p b chain s = Some s'"
  have t: "tree_ok par rnd (e_blocks s)" and qs: "qcs_ok (e_cfg s) (e_scheme s) (e_qcs s)"
    using i by (simp_all add: inv_def)
  note bt = tree_okD [OF t b] and pt = tree_okD [OF t p] and pqt = qcs_okD [OF qs pq]
  have "two_chain par rnd (e_cfg s) (e_scheme s) (bi_hash p)"
    unfolding two_chain_def
    using bt pt pqt q r by (intro exI [of _ pqc] exI [of _ qc]) (auto simp: auth_block_def)
  moreover have "\<forall>x \<in> set chain. \<exists>n. bi_hash x = (par ^^ n) (bi_hash p)"
  proof -
    have "\<exists>n. bi_hash p = (par ^^ n) (bi_hash p)" by (rule exI [of _ 0]) simp
    with walk_chain_ancestors [OF w t] pt show ?thesis by simp
  qed
  ultimately show "inv par rnd s'"
    using pt by (intro inv_commit_chain [OF c i]) (auto simp: commit_ok_def)
qed (use i q inv_block_on in auto)

lemma inv_retry_commit: "retry_commit s = Some s' \<Longrightarrow> inv par rnd s \<Longrightarrow> inv par rnd s'"
  by (auto simp: retry_commit_def split: option.splits)
    (rule inv_try_commit, assumption, assumption, simp add: inv_def blocked_ok_def)

lemma inv_insert_block:
  "inv par rnd s \<Longrightarrow> auth_block par rnd b \<Longrightarrow> inv par rnd (s\<lparr>e_blocks := bt_insert (bi_hash b) b (e_blocks s)\<rparr>)"
  using bt_set_insert [of "bi_hash b" b "e_blocks s"] by (force simp: inv_def tree_ok_def)

lemma inv_on_block: "on_block b s = Some s' \<Longrightarrow> inv par rnd s \<Longrightarrow> auth_block par rnd b \<Longrightarrow> inv par rnd s'"
  using inv_insert_block [of par rnd "s\<lparr>e_requested := e_requested s - {bi_hash b}\<rparr>" b]
  by (auto simp: on_block_def Let_def inv_def elim!: inv_retry_commit [unfolded inv_def] split: if_splits)

lemma inv_prune: "inv par rnd s \<Longrightarrow> inv par rnd (prune s)"
proof -
  assume i: "inv par rnd s"
  have "qcs_ok cfg sc m \<Longrightarrow> qcs_ok cfg sc (bt_retain P m)" for cfg and sc :: "('a, 'b) scheme" and P m
    using bt_set_retain [of P m] by (force simp: qcs_ok_def)
  moreover have "timeouts_ok cfg sc m \<Longrightarrow> timeouts_ok cfg sc (bt_retain P m)" for cfg and sc :: "('a, 'b) scheme" and P m
    using bt_set_retain [of P m] by (force simp: timeouts_ok_def)
  moreover have "tree_ok par rnd m \<Longrightarrow> tree_ok par rnd (bt_retain P m)" for P m
    using bt_set_retain [of P m] by (force simp: tree_ok_def)
  moreover have "votes_ok cfg sc m \<Longrightarrow> votes_ok cfg sc (bt_retain P m)" for cfg and sc :: "('a, 'b) scheme" and P m
    using bt_set_retain [of P m] by (force simp: votes_ok_def)
  moreover have "pending_ok par rnd cfg sc hr m \<Longrightarrow> pending_ok par rnd cfg sc hr (bt_retain P m)"
    for cfg and sc :: "('a, 'b) scheme" and hr P m
    using bt_set_retain [of P m] by (force simp: pending_ok_def)
  ultimately show ?thesis using i by (simp add: inv_def prune_def Let_def)
qed

subsection \<open>Vote sets\<close>

lemma bt_wf_sorted: "bt_wf m \<Longrightarrow> sorted (map fst m) \<and> distinct (map fst m)"
  by (simp add: bt_wf_def strict_sorted_iff)

lemma vote_set_ok_empty [simp]: "vote_set_ok sc msg n (empty_vote_set h)"
  by (simp add: vote_set_ok_def empty_vote_set_def)

lemma bt_remove_keys: "fst ` set (bt_remove k m) = fst ` set m - {k}"
  by (auto simp: bt_remove_def)

lemma bt_has_iff: "bt_has k m \<longleftrightarrow> k \<in> fst ` set m"
  by (simp add: bt_has_def bt_get_def map_of_eq_None_iff)

lemma bt_insert_memD: "(a, b) \<in> set (bt_insert k v m) \<Longrightarrow> (a = k \<and> b = v) \<or> (a, b) \<in> set m"
  using bt_set_insert [of k v m] by auto

lemma vote_admit_ok:
  assumes "vote_admit sc msg v st = Some st'" "vote_set_ok sc msg n st" "unat (v_signer v) < n"
  shows "vote_set_ok sc msg n st' \<and> vs_height st' = vs_height st"
proof -
  let ?i = "v_signer v"
  have st: "bt_wf (vs_sigs st)" "bt_wf (vs_pending st)" "fst ` set (vs_sigs st) \<inter> fst ` set (vs_pending st) = {}"
    "\<And>i g. (i, g) \<in> set (vs_sigs st) \<Longrightarrow> unat i < n \<and> verify sc i msg g"
    "\<And>i g. (i, g) \<in> set (vs_pending st) \<Longrightarrow> unat i < n"
    using assms(2) by (auto simp: vote_set_ok_def)
  have new: "?i \<notin> fst ` set (vs_sigs st)"
    using assms(1) by (auto simp: vote_admit_def bt_has_iff split: if_splits)
  have rem: "vote_set_ok sc msg n (st\<lparr>vs_pending := bt_remove ?i (vs_pending st)\<rparr>)"
    using st by (auto simp: vote_set_ok_def bt_wf_remove bt_remove_keys) (auto simp: bt_remove_def)
  have ins: "vote_set_ok sc msg n (st\<lparr>vs_pending := bt_remove ?i (vs_pending st), vs_sigs := bt_insert ?i g (vs_sigs st)\<rparr>)"
    if "verify sc ?i msg g" for g
    using st that assms(3)
    by (auto simp: vote_set_ok_def bt_wf_remove bt_wf_insert bt_remove_keys bt_keys_insert
        dest!: bt_insert_memD) (auto simp: bt_remove_def)
  have pend: "vote_set_ok sc msg n (st\<lparr>vs_pending := bt_insert ?i (v_sig v) (vs_pending st)\<rparr>)"
    using st new assms(3)
    by (auto simp: vote_set_ok_def bt_wf_insert bt_keys_insert dest!: bt_insert_memD)
  show ?thesis
    using assms(1) rem ins pend
    by (auto simp: vote_admit_def Let_def split: if_splits option.splits)
qed

lemma check_pending_ok:
  assumes "vote_set_ok sc msg n st"
  shows "vote_set_ok sc msg n (check_pending sc msg st) \<and> vs_pending (check_pending sc msg st) = []"
proof -
  let ?f = "\<lambda>(i, g) m. if verify sc i msg g then bt_insert i g m else m"
  have "bt_wf (fold ?f l m) \<and> (\<forall>(i, g) \<in> set (fold ?f l m). unat i < n \<and> verify sc i msg g)"
    if "bt_wf m" "\<forall>(i, g) \<in> set m. unat i < n \<and> verify sc i msg g" "\<forall>(i, g) \<in> set l. unat i < n" for l m
    using that
  proof (induction l arbitrary: m)
    case (Cons x l)
    obtain i g where x: "x = (i, g)" by force
    have "bt_wf (?f x m) \<and> (\<forall>(i, g) \<in> set (?f x m). unat i < n \<and> verify sc i msg g)"
      using Cons.prems by (auto simp: x bt_wf_insert dest!: bt_insert_memD)
    with Cons.IH [of "?f x m"] Cons.prems(3) show ?case by simp
  qed simp
  from this [of "vs_sigs st" "vs_pending st"] assms show ?thesis
    by (auto simp: check_pending_def vote_set_ok_def)
qed

lemma weight_of_sort: "weight_of vs (sort xs) = weight_of vs xs"
  unfolding weight_of_def by (metis mset_map mset_sort sum_mset_sum_list)

lemma not_quorum_Nil: "\<not> is_quorum vs (weight_of vs [])"
  by (simp add: is_quorum_def weight_of_def)

text \<open>A quorum the set reports is of distinct members, ascending, and its aggregate verifies.\<close>

definition quorum_result ::
    "('sig, 'agg) scheme \<Rightarrow> validator_set \<Rightarrow> byte list \<Rightarrow> validator_index list \<times> 'agg \<Rightarrow> bool" where
  "quorum_result sc vs msg = (\<lambda>(signers, a). sorted signers \<and> distinct signers
     \<and> (\<forall>i \<in> set signers. unat i < vs_len vs) \<and> is_quorum vs (weight_of vs signers)
     \<and> verify_aggregate sc signers msg a)"

lemma quorum_of_sigs:
  assumes "vote_set_ok sc msg (vs_len vs) st" "agg_complete sc" "aggregate sc (map snd (vs_sigs st)) = Some a"
    and "is_quorum vs (weight_of vs (map fst (vs_sigs st)))"
  shows "quorum_result sc vs msg (map fst (vs_sigs st), a)"
proof -
  have ne: "map fst (vs_sigs st) \<noteq> []" using assms(4) not_quorum_Nil by force
  have "list_all2 (\<lambda>i g. verify sc i msg g) (map fst (vs_sigs st)) (map snd (vs_sigs st))"
    using assms(1) by (auto simp: vote_set_ok_def list_all2_conv_all_nth all_set_conv_all_nth split_beta)
  with assms(2,3) ne have "verify_aggregate sc (map fst (vs_sigs st)) msg a"
    unfolding agg_complete_def by blast
  with assms(1,4) bt_wf_sorted [of "vs_sigs st"] show ?thesis
    by (auto simp: quorum_result_def vote_set_ok_def)
qed

lemma map_filter_keys:
  "distinct (map fst m) \<Longrightarrow> (\<And>i g. (i, g) \<in> set m \<Longrightarrow> f i = Some g) \<Longrightarrow> List.map_filter f (map fst m) = map snd m"
proof (induction m)
  case (Cons x m)
  have "f (fst x) = Some (snd x)" by (rule Cons.prems(2)) simp
  moreover have "List.map_filter f (map fst m) = map snd m" using Cons by simp
  ultimately show ?case by (simp add: List.map_filter_simps)
qed (simp add: List.map_filter_simps)

lemma vote_quorum_ok:
  assumes ok: "vote_set_ok sc msg (vs_len vs) st" and ac: "agg_complete sc"
    and q: "vote_quorum sc vs msg st = (st', r)"
  shows "vote_set_ok sc msg (vs_len vs) st' \<and> vs_height st' = vs_height st
    \<and> (\<forall>x. r = Some x \<longrightarrow> quorum_result sc vs msg x)"
proof -
  let ?all = "map fst (vs_sigs st) @ map fst (vs_pending st)"
  note cp = check_pending_ok [OF ok]
  have h: "vs_height (check_pending sc msg st) = vs_height st" by (simp add: check_pending_def)
  have done_ok: "vote_set_ok sc msg n (t\<lparr>vs_done := True\<rparr>) = vote_set_ok sc msg n t" for t n
    by (simp add: vote_set_ok_def)
  show ?thesis
  proof (cases "is_quorum vs (weight_of vs ?all)")
    case False
    with q ok show ?thesis by (auto simp: vote_quorum_def Let_def)
  next
    case True
    show ?thesis
    proof (cases "agg_all sc msg (sort ?all) st")
      case None
      with True q quorum_of_sigs [OF cp [THEN conjunct1] ac] cp h show ?thesis
        by (auto simp: vote_quorum_def Let_def done_ok split: if_splits option.splits)
    next
      case (Some a)
      have r: "st' = st\<lparr>vs_done := True\<rparr>" "r = Some (sort ?all, a)"
        using True q Some by (auto simp: vote_quorum_def Let_def)
      have "quorum_result sc vs msg (sort ?all, a)"
      proof (cases "vs_pending st = []")
        case P: True
        have keys: "sort ?all = map fst (vs_sigs st)"
          using ok bt_wf_sorted [of "vs_sigs st"] by (simp add: P vote_set_ok_def sorted_sort_id)
        have wf: "bt_wf (vs_sigs st)" using ok by (simp add: vote_set_ok_def)
        have "List.map_filter (sig_of st) (map fst (vs_sigs st)) = map snd (vs_sigs st)"
        proof (rule map_filter_keys)
          show "sig_of st i = Some g" if "(i, g) \<in> set (vs_sigs st)" for i g
            using bt_get_iff [OF wf, of i g] that by (simp add: sig_of_def)
        qed (use bt_wf_sorted [OF wf] in simp)
        with Some [unfolded keys] have "aggregate sc (map snd (vs_sigs st)) = Some a"
          by (simp add: agg_all_def split: option.splits if_splits)
        from quorum_of_sigs [OF ok ac this] True show ?thesis unfolding keys by (simp add: P)
      next
        case False
        have "distinct ?all" "\<forall>i \<in> set ?all. unat i < vs_len vs"
          using ok bt_wf_sorted [of "vs_sigs st"] bt_wf_sorted [of "vs_pending st"]
          by (auto simp: vote_set_ok_def)
        with True Some False show ?thesis
          by (auto simp: agg_all_def quorum_result_def weight_of_sort split: option.splits if_splits)
      qed
      with r ok show ?thesis by (simp add: done_ok)
    qed
  qed
qed

text \<open>The certificate \<open>on_vote\<close> builds from such a quorum is good.\<close>

lemma good_qc_of_quorum:
  assumes "quorum_result sc (c_validators cfg) (vote_msg (c_chain_id cfg) (c_epoch cfg) r b) (signers, a)"
    and "set_wf (c_validators cfg)"
  shows "good_qc cfg sc \<lparr>qc_epoch = c_epoch cfg, qc_round = r, qc_block = b, qc_height = h,
    qc_signers = bitmap_encode signers (vs_len (c_validators cfg)), qc_sig = Some a\<rparr>"
proof -
  let ?n = "vs_len (c_validators cfg)"
  have n: "?n \<le> 2 ^ 16" using assms(2) by (simp add: set_wf_def vs_len_def)
  then have len: "length (bitmap_encode signers ?n) \<le> 8192" by simp
  have "bitmap_decode (bitmap_encode signers ?n) = signers"
    using assms(1) bitmap_decode_distinct [OF len] set_bitmap_decode_encode [OF n, of signers]
    by (intro sorted_distinct_set_unique) (auto simp: quorum_result_def)
  with assms(1) len show ?thesis
    by (auto simp: good_qc_def is_anchor_def quorum_result_def)
qed

subsection \<open>The voting loop and the timeout loop\<close>

lemma props_auth_note_vote: "props_auth par rnd (note_signing (GVote v p) t) = props_auth par rnd t"
  by (simp add: props_auth_def)

lemma props_auth_note_timeout: "props_auth par rnd (note_signing (GTimeout v r q) t) = props_auth par rnd t"
  by (simp add: props_auth_def)

text \<open>The voting loop: all its votes are for the one proposal, which no timeout overtook.\<close>

definition loop_ok :: "('sig, 'agg) proposal \<Rightarrow> ('sig, 'agg) est \<Rightarrow> bool" where
  "loop_ok p t \<longleftrightarrow> bi_round (p_block p) \<le> e_last_voted t \<and> qc_round (p_qc p) \<le> qc_round (e_high_qc t) \<and>
     (\<forall>v p'. GVote v p' \<in> set (signings t) \<longrightarrow> bi_round (p_block p') = bi_round (p_block p) \<longrightarrow>
        bi_hash (p_block p') = bi_hash (p_block p)) \<and>
     (\<forall>v r q. GTimeout v r q \<in> set (signings t) \<longrightarrow> bi_round (p_block p) \<le> r \<longrightarrow> qc_round (p_qc p) \<le> q)"

lemma loop_okD:
  assumes "loop_ok p t"
  shows "bi_round (p_block p) \<le> e_last_voted t" "qc_round (p_qc p) \<le> qc_round (e_high_qc t)"
    and "GVote v p' \<in> set (signings t) \<Longrightarrow> bi_round (p_block p') = bi_round (p_block p) \<Longrightarrow>
      bi_hash (p_block p') = bi_hash (p_block p)"
    and "GTimeout v r q \<in> set (signings t) \<Longrightarrow> bi_round (p_block p) \<le> r \<Longrightarrow> qc_round (p_qc p) \<le> q"
  using assms unfolding loop_ok_def by (elim conjE; assumption | iprover)+

lemma loop_ok_evolves:
  assumes "evolves t t'" "loop_ok p t"
  shows "loop_ok p t'"
proof -
  from assms(1) obtain d where d: "signings t' = signings t @ d"
    "\<And>v p. GVote v p \<in> set d \<Longrightarrow> e_last_voted t < bi_round (p_block p)"
    "\<And>v r q. GTimeout v r q \<in> set d \<Longrightarrow> qc_round (e_high_qc t) \<le> q"
    and m: "e_last_voted t \<le> e_last_voted t'" "qc_round (e_high_qc t) \<le> qc_round (e_high_qc t')"
    unfolding evolves_def by blast
  note l = loop_okD [OF assms(2)]
  show ?thesis
    unfolding loop_ok_def
  proof (intro conjI allI impI)
    show "bi_round (p_block p) \<le> e_last_voted t'" by (rule order_trans [OF l(1) m(1)])
    show "qc_round (p_qc p) \<le> qc_round (e_high_qc t')" by (rule order_trans [OF l(2) m(2)])
  next
    fix v p'
    assume g: "GVote v p' \<in> set (signings t')" and r: "bi_round (p_block p') = bi_round (p_block p)"
    have "GVote v p' \<notin> set d"
    proof
      assume "GVote v p' \<in> set d"
      from d(2) [OF this] r l(1) show False by simp
    qed
    with g have "GVote v p' \<in> set (signings t)" by (simp add: d(1))
    then show "bi_hash (p_block p') = bi_hash (p_block p)" using r by (rule l(3))
  next
    fix v r q
    assume g: "GTimeout v r q \<in> set (signings t')" and r: "bi_round (p_block p) \<le> r"
    show "qc_round (p_qc p) \<le> q"
    proof (cases "GTimeout v r q \<in> set d")
      case True
      from order_trans [OF l(2) d(3) [OF this]] show ?thesis .
    next
      case False
      with g have "GTimeout v r q \<in> set (signings t)" by (simp add: d(1))
      then show ?thesis using r by (rule l(4))
    qed
  qed
qed

lemma log_ok_vote:
  assumes log: "log_ok par rnd cfg sc hr lv (signings t)" and l: "loop_ok p t"
    and p: "vote_ok par rnd cfg sc hr lv p"
  shows "log_ok par rnd cfg sc hr lv (signings t @ [GVote me p])"
proof -
  have "votes_agree (signings t)" "reports_ok (signings t)" using log by (simp_all add: log_ok_def)
  have "votes_agree (signings t @ [GVote me p])"
    unfolding votes_agree_def
  proof (intro allI impI)
    fix v a v' b
    assume "GVote v a \<in> set (signings t @ [GVote me p])" "GVote v' b \<in> set (signings t @ [GVote me p])"
      and r: "bi_round (p_block a) = bi_round (p_block b)"
    then consider "a = p" "b = p" | "a = p" "GVote v' b \<in> set (signings t)" | "GVote v a \<in> set (signings t)" "b = p"
      | "GVote v a \<in> set (signings t)" "GVote v' b \<in> set (signings t)" by auto
    then show "bi_hash (p_block a) = bi_hash (p_block b)"
    proof cases
      case 2
      then show ?thesis using loop_okD(3) [OF l 2(2)] r by metis
    next
      case 3
      then show ?thesis using loop_okD(3) [OF l 3(1)] r by metis
    next
      case 4
      then show ?thesis using \<open>votes_agree (signings t)\<close> r unfolding votes_agree_def by blast
    qed simp
  qed
  moreover have "reports_ok (signings t @ [GVote me p])"
    unfolding reports_ok_def
  proof (intro allI impI)
    fix v r q v' b
    assume g: "GTimeout v r q \<in> set (signings t @ [GVote me p])" "GVote v' b \<in> set (signings t @ [GVote me p])"
      and r: "bi_round (p_block b) \<le> r"
    from g(1) have t: "GTimeout v r q \<in> set (signings t)" by simp
    show "qc_round (p_qc b) \<le> q"
    proof (cases "b = p")
      case True
      then show ?thesis using loop_okD(4) [OF l t] r by simp
    next
      case False
      with g(2) t r \<open>reports_ok (signings t)\<close> show ?thesis unfolding reports_ok_def by auto
    qed
  qed
  ultimately show ?thesis using log p by (auto simp: log_ok_def)
qed

text \<open>The timeout loop: what its timeouts report covers every vote up to their round.\<close>

definition reports_from :: "round \<Rightarrow> round \<Rightarrow> ('sig, 'agg) est \<Rightarrow> bool" where
  "reports_from r q t \<longleftrightarrow> r \<le> e_last_voted t \<and>
     (\<forall>v p. GVote v p \<in> set (signings t) \<longrightarrow> bi_round (p_block p) \<le> r \<longrightarrow> qc_round (p_qc p) \<le> q)"

lemma reports_from_evolves:
  assumes "evolves t t'" "reports_from r q t"
  shows "reports_from r q t'"
proof -
  from assms(1) obtain d where d: "signings t' = signings t @ d"
    "\<And>v p. GVote v p \<in> set d \<Longrightarrow> e_last_voted t < bi_round (p_block p)"
    and m: "e_last_voted t \<le> e_last_voted t'" unfolding evolves_def by blast
  have r: "r \<le> e_last_voted t"
    and old: "\<And>v p. GVote v p \<in> set (signings t) \<Longrightarrow> bi_round (p_block p) \<le> r \<Longrightarrow> qc_round (p_qc p) \<le> q"
    using assms(2) unfolding reports_from_def by blast+
  show ?thesis
    unfolding reports_from_def
  proof (intro conjI allI impI)
    show "r \<le> e_last_voted t'" by (rule order_trans [OF r m])
  next
    fix v p
    assume g: "GVote v p \<in> set (signings t')" and le: "bi_round (p_block p) \<le> r"
    have "GVote v p \<notin> set d"
    proof
      assume "GVote v p \<in> set d"
      from d(2) [OF this] r le show False by simp
    qed
    with g have "GVote v p \<in> set (signings t)" by (simp add: d(1))
    then show "qc_round (p_qc p) \<le> q" using le by (rule old)
  qed
qed

lemma log_ok_timeout:
  assumes "log_ok par rnd cfg sc hr lv (signings t)" "reports_from r q t" "r \<le> lv"
  shows "log_ok par rnd cfg sc hr lv (signings t @ [GTimeout me r q])"
proof -
  have "reports_ok (signings t @ [GTimeout me r q])"
    unfolding reports_ok_def
  proof (intro allI impI)
    fix v r' q' v' p
    assume g: "GTimeout v r' q' \<in> set (signings t @ [GTimeout me r q])"
      and v: "GVote v' p \<in> set (signings t @ [GTimeout me r q])" and le: "bi_round (p_block p) \<le> r'"
    from v have v: "GVote v' p \<in> set (signings t)" by simp
    from g consider "r' = r" "q' = q" | "GTimeout v r' q' \<in> set (signings t)" by auto
    then show "qc_round (p_qc p) \<le> q'"
    proof cases
      case 1
      with assms(2) v le show ?thesis by (auto simp: reports_from_def)
    next
      case 2
      with assms(1) v le show ?thesis unfolding log_ok_def reports_ok_def by blast
    qed
  qed
  moreover have "votes_agree (signings t @ [GTimeout me r q]) = votes_agree (signings t)"
    by (simp add: votes_agree_def)
  ultimately show ?thesis using assms by (auto simp: log_ok_def)
qed

definition short_timeout :: "('sig, 'agg) timeout \<Rightarrow> bool" where
  "short_timeout t \<longleftrightarrow> length (qc_signers (t_high_qc t)) \<le> 8192 \<and> short_tc (t_last_tc t)"

subsection \<open>Handlers\<close>

text \<open>
  The contract of \<open>enter_round\<close> for the invariant, extending the one for \<open>evolves\<close>.
\<close>

locale entry_safe = entry_evolves ent for ent :: "('sig, 'agg) entry" +
  fixes par :: "b256 \<Rightarrow> b256" and rnd :: "b256 \<Rightarrow> round"
  assumes ent_inv: "ent r tc s = Some s' \<Longrightarrow> inv par rnd s \<Longrightarrow> short_tc tc \<Longrightarrow> props_auth par rnd s'
    \<Longrightarrow> inv par rnd s'"
begin

lemma inv_record_qc:
  assumes "inv par rnd s" "good_qc (e_cfg s) (e_scheme s) qc"
  shows "inv par rnd (record_qc qc s)"
proof -
  let ?hr' = "qc_round (e_high_qc (record_qc qc s))"
  have le: "qc_round (e_high_qc s) \<le> ?hr'" by (auto simp: record_qc_def)
  have "qcs_ok (e_cfg s) (e_scheme s) (bt_insert (qc_block qc) qc (e_qcs s))"
    using assms by (auto simp: inv_def qcs_ok_def dest!: bt_insert_memD)
  with assms le show ?thesis
    using log_ok_mono [of par rnd "e_cfg s" "e_scheme s" "qc_round (e_high_qc s)" "e_last_voted s" "signings s" ?hr']
      pending_ok_mono [of par rnd "e_cfg s" "e_scheme s" "qc_round (e_high_qc s)" "e_pending s" ?hr']
    by (auto simp: inv_def record_qc_def)
qed

lemma inv_process_qc:
  assumes p: "process_qc ent qc s = Some s'" and i: "inv par rnd s"
    and q: "good_qc (e_cfg s) (e_scheme s) qc" and a: "props_auth par rnd s'"
  shows "inv par rnd s' \<and> qc_round qc \<le> qc_round (e_high_qc s')"
proof -
  from p obtain s1 where s1: "try_commit qc (record_qc qc s) = Some s1"
    and s': "(if qc_round qc \<ge> e_round s1 then ent (qc_round qc + 1) None (s1\<lparr>e_consecutive_timeouts := 0\<rparr>)
       else Some s1) = Some s'"
    by (auto simp: process_qc_def bind_eq_Some_conv)
  have "good_qc (e_cfg (record_qc qc s)) (e_scheme (record_qc qc s)) qc" using q by (simp add: record_qc_def)
  from inv_try_commit [OF s1 inv_record_qc [OF i q] this] have i1: "inv par rnd s1" .
  have "qc_round qc \<le> qc_round (e_high_qc (record_qc qc s))" by (auto simp: record_qc_def)
  also have "\<dots> = qc_round (e_high_qc s1)" using try_commit_sel [OF s1] by simp
  finally have hq: "qc_round qc \<le> qc_round (e_high_qc s1)" .
  have i2: "inv par rnd (s1\<lparr>e_consecutive_timeouts := 0\<rparr>)" using i1 by (simp add: inv_def)
  show ?thesis
  proof (cases "qc_round qc \<ge> e_round s1")
    case True
    with s' have e: "ent (qc_round qc + 1) None (s1\<lparr>e_consecutive_timeouts := 0\<rparr>) = Some s'" by simp
    from ent_inv [OF e i2 _ a] ent_evolves [OF e] hq show ?thesis by (auto simp: evolves_def short_tc_def)
  next
    case False
    with s' i1 hq show ?thesis by simp
  qed
qed

lemma good_tc_high: "good_tc cfg sc tc \<Longrightarrow> length (qc_signers (tc_high_qc tc)) \<le> 8192 \<Longrightarrow> good_qc cfg sc (tc_high_qc tc)"
  by (auto simp: good_tc_def tc_verify_def Let_def intro: good_qcI)

lemma inv_process_tc:
  assumes p: "process_tc ent tc s = Some s'" and i: "inv par rnd s"
    and q: "good_qc (e_cfg s) (e_scheme s) (tc_high_qc tc)" and a: "props_auth par rnd s'"
  shows "inv par rnd s'"
proof -
  from p obtain s1 where s1: "process_qc ent (tc_high_qc tc) s = Some s1"
    and s': "(if tc_round tc \<ge> e_round s1 then ent (tc_round tc + 1) (Some tc) s1 else Some s1) = Some s'"
    by (auto simp: process_tc_def bind_eq_Some_conv)
  have "evolves s1 s'" using s' by (auto split: if_splits dest: ent_evolves)
  from props_auth_mono [OF this a] have "inv par rnd s1" using inv_process_qc [OF s1 i q] by simp
  moreover have "short_tc (Some tc)" using q by (simp add: short_tc_def good_qc_def)
  ultimately show ?thesis using s' a by (auto split: if_splits dest: ent_inv)
qed

lemma inv_on_vote:
  assumes v: "on_vote ent v s = Some s'" and i: "inv par rnd s" and a: "props_auth par rnd s'"
  shows "inv par rnd s'"
proof -
  let ?cfg = "e_cfg s" and ?sc = "e_scheme s" and ?k = "(v_round v, v_block v)"
  let ?vs = "c_validators ?cfg"
  let ?msg = "vote_msg (c_chain_id ?cfg) (c_epoch ?cfg) (v_round v) (v_block v)"
  let ?put = "\<lambda>st. s\<lparr>e_votes := bt_insert ?k st (e_votes s)\<rparr>"
  define st0 where "st0 = (case bt_get ?k (e_votes s) of Some st \<Rightarrow> st | None \<Rightarrow> empty_vote_set (v_height v))"
  have static: "set_wf ?vs" "agg_complete ?sc" using i by (simp_all add: inv_def static_ok_def)
  have ok0: "vote_set_ok ?sc ?msg (vs_len ?vs) st0"
    using i by (auto simp: st0_def inv_def votes_ok_def dest!: bt_get_SomeD split: option.splits)
  have put: "inv par rnd (?put st)" if "vote_set_ok ?sc ?msg (vs_len ?vs) st" for st
    using i that by (auto simp: inv_def votes_ok_def dest!: bt_insert_memD)
  show ?thesis
  proof (cases "s' = s")
    case True
    with i show ?thesis by simp
  next
    case False
    with v have sg: "unat (v_signer v) < vs_len ?vs"
      by (auto simp: on_vote_def bind_eq_Some_conv split: if_splits)
    show ?thesis
    proof (cases "vote_admit ?sc ?msg v st0")
      case None
      with v False put [OF ok0] show ?thesis
        by (auto simp: on_vote_def bind_eq_Some_conv Let_def st0_def split: if_splits)
    next
      case (Some st1)
      note ok1 = vote_admit_ok [OF Some ok0 sg]
      obtain st2 r where q: "vote_quorum ?sc ?vs ?msg st1 = (st2, r)" by force
      note ok2 = vote_quorum_ok [OF ok1 [THEN conjunct1] static(2) q]
      show ?thesis
      proof (cases r)
        case None
        with v False Some q put [of st2] ok2 show ?thesis
          by (auto simp: on_vote_def bind_eq_Some_conv Let_def st0_def split: if_splits)
      next
        case R: (Some x)
        obtain signers g where x: "x = (signers, g)" by force
        let ?qc = "\<lparr>qc_epoch = c_epoch ?cfg, qc_round = v_round v, qc_block = v_block v,
          qc_height = vs_height st2, qc_signers = bitmap_encode signers (vs_len ?vs), qc_sig = Some g\<rparr>"
        have "process_qc ent ?qc (?put st2) = Some s'"
          using v False Some q R x by (auto simp: on_vote_def bind_eq_Some_conv Let_def st0_def split: if_splits)
        moreover have "good_qc ?cfg ?sc ?qc"
          using ok2 R x static by (intro good_qc_of_quorum) auto
        ultimately show ?thesis
          using inv_process_qc [of ?qc "?put st2" s'] put [of st2] ok2 a by simp
      qed
    qed
  qed
qed

lemma inv_cast_vote:
  assumes c: "cast_vote ent p nx me t = Some t'" and i: "inv par rnd t" and l: "loop_ok p t"
    and p: "good_prop par rnd (e_cfg t) (e_scheme t) p" "safe_to_vote p" and a: "props_auth par rnd t'"
  shows "inv par rnd t' \<and> loop_ok p t'"
proof -
  let ?t = "note_signing (GVote me p) t"
  have "vote_ok par rnd (e_cfg t) (e_scheme t) (qc_round (e_high_qc t)) (e_last_voted t) p"
    using p l by (simp add: vote_ok_def loop_ok_def)
  with i l have it: "inv par rnd ?t" by (simp add: inv_def log_ok_vote)
  have "loop_ok p ?t"
    using l unfolding loop_ok_def by simp
  with loop_ok_evolves [OF evolves_cast_vote [OF c]] have "loop_ok p t'" .
  moreover have "inv par rnd t'"
  proof -
    from c obtain g vote where "(if is_me nx ?t then on_vote ent vote ?t else Some (push (SendTo nx (MVote vote)) ?t)) = Some t'"
      unfolding cast_vote_def Let_def by (auto simp: bind_eq_Some_conv)
    then show ?thesis
    proof (cases "is_me nx ?t")
      case True
      with \<open>(if _ then _ else _) = _\<close> have "on_vote ent vote ?t = Some t'" by simp
      from inv_on_vote [OF this it a] show ?thesis .
    next
      case False
      with \<open>(if _ then _ else _) = _\<close> have "t' = push (SendTo nx (MVote vote)) ?t" by simp
      with it show ?thesis by (simp add: inv_def)
    qed
  qed
  ultimately show ?thesis by simp
qed

lemma inv_cast_votes:
  assumes f: "for_each (cast_vote ent p nx) ms (s\<lparr>e_last_voted := bi_round (p_block p)\<rparr>) = Some s'"
    and i: "inv par rnd s" and lt: "e_last_voted s < bi_round (p_block p)"
    and p: "good_prop par rnd (e_cfg s) (e_scheme s) p" "safe_to_vote p"
    and hq: "qc_round (p_qc p) \<le> qc_round (e_high_qc s)" and a: "props_auth par rnd s'"
  shows "inv par rnd s'"
proof -
  let ?P = "\<lambda>t. inv par rnd t \<and> loop_ok p t \<and> e_cfg t = e_cfg s \<and> e_scheme t = e_scheme s"
  let ?s0 = "s\<lparr>e_last_voted := bi_round (p_block p)\<rparr>"
  have "?P s'"
  proof (rule for_each_inv_back [where P = ?P and Q = "props_auth par rnd", OF f _ a])
    have log: "log_ok par rnd (e_cfg s) (e_scheme s) (qc_round (e_high_qc s)) (e_last_voted s) (signings s)"
      using i by (simp add: inv_def)
    have lo: "loop_ok p ?s0"
      using log lt hq unfolding loop_ok_def log_ok_def vote_ok_def by fastforce
    have "inv par rnd ?s0"
      using i lt log_ok_mono [OF log order_refl, of "bi_round (p_block p)"] by (simp add: inv_def)
    with lo show "?P ?s0" by simp
  next
    fix me t t'
    assume "cast_vote ent p nx me t = Some t'" "props_auth par rnd t'"
    from props_auth_mono [OF evolves_cast_vote [OF this(1)] this(2)] show "props_auth par rnd t"
      by (simp add: props_auth_note_vote)
  next
    fix me t t'
    assume P: "?P t" and c: "cast_vote ent p nx me t = Some t'" and "props_auth par rnd t'"
    with inv_cast_vote [OF c] p have "inv par rnd t' \<and> loop_ok p t'" by simp
    moreover have "e_cfg t' = e_cfg t" "e_scheme t' = e_scheme t"
      using evolves_cast_vote [OF c] by (simp_all add: evolves_def)
    ultimately show "?P t'" using P by simp
  qed
  then show ?thesis by simp
qed

lemma inv_pending_remove: "inv par rnd s \<Longrightarrow> inv par rnd (s\<lparr>e_pending := bt_remove h (e_pending s)\<rparr>)"
  by (auto simp: inv_def pending_ok_def bt_remove_def)

lemma inv_on_validated:
  assumes "on_validated ent block valid s = Some s'" and i: "inv par rnd s" and a: "props_auth par rnd s'"
  shows "inv par rnd s'"
  using assms(1)
proof (rule on_validated_cases)
  fix p nx
  let ?s1 = "s\<lparr>e_pending := bt_remove block (e_pending s)\<rparr>"
  assume p: "bt_get block (e_pending s) = Some p" and lt: "e_last_voted s < bi_round (p_block p)"
    and safe: "safe_to_vote p" and f: "for_each (cast_vote ent p nx) (c_me (e_cfg s))
         (s\<lparr>e_pending := bt_remove block (e_pending s), e_last_voted := bi_round (p_block p)\<rparr>) = Some s'"
  have "good_prop par rnd (e_cfg s) (e_scheme s) p \<and> qc_round (p_qc p) \<le> qc_round (e_high_qc s)"
    using i bt_get_SomeD [OF p] by (auto simp: inv_def pending_ok_def)
  with inv_cast_votes [of p nx "c_me (e_cfg s)" ?s1 s'] f inv_pending_remove [OF i] lt safe a
  show ?thesis by simp
qed (use i inv_pending_remove in auto)

lemma inv_consider_vote:
  assumes "consider_vote ent p nil s = Some s'" and i: "inv par rnd s"
    and p: "good_prop par rnd (e_cfg s) (e_scheme s) p" "qc_round (p_qc p) \<le> qc_round (e_high_qc s)"
    and a: "props_auth par rnd s'"
  shows "inv par rnd s'"
  using assms(1)
proof (rule consider_vote_cases)
  fix t
  assume t: "t = s\<lparr>e_pending := bt_insert (bi_hash (p_block p)) p (e_pending s)\<rparr>"
    and s': "s' = push (Validate p) t \<or> extending (on_validated ent (bi_hash (p_block p)) True) t = Some s'"
  have "pending_ok par rnd (e_cfg s) (e_scheme s) (qc_round (e_high_qc s)) (e_pending t)"
    using i p by (auto simp: t inv_def pending_ok_def dest!: bt_insert_memD)
  then have it: "inv par rnd t" using i by (simp add: t inv_def)
  from s' show "inv par rnd s'"
  proof
    assume "s' = push (Validate p) t"
    then show ?thesis using it by (simp add: inv_def)
  next
    assume "extending (on_validated ent (bi_hash (p_block p)) True) t = Some s'"
    then show ?thesis
      by (rule inv_extending [OF _ it a]) (auto dest: evolves_on_validated inv_on_validated)
  qed
qed (use i in simp)

lemma proposal_ok_good:
  assumes "proposal_ok H p l s" "auth_block par rnd (p_block p)" "length (qc_signers (p_qc p)) \<le> 8192"
  shows "good_prop par rnd (e_cfg s) (e_scheme s) p"
  using assms
  by (auto simp: proposal_ok_def Let_def good_prop_def verify_qc_def verify_tc_def good_tc_def not_le
      intro: good_qcI split: option.splits)

lemma inv_remember: "inv par rnd s \<Longrightarrow> auth_block par rnd b \<Longrightarrow> inv par rnd (remember_block b s)"
  using inv_insert_block [of par rnd s b] by (simp add: remember_block_def)

lemma inv_on_proposal:
  assumes "on_proposal H ent p s = Some s'" and i: "inv par rnd s"
    and b: "auth_block par rnd (p_block p)" and sh: "length (qc_signers (p_qc p)) \<le> 8192" "short_tc (p_tc p)"
    and a: "props_auth par rnd s'"
  shows "inv par rnd s'"
  using assms(1)
proof (rule on_proposal_cases)
  fix l s1 s2
  assume ok: "proposal_ok H p l s" and q: "process_qc ent (p_qc p) (remember_block (p_block p) s) = Some s1"
    and t: "(case p_tc p of Some tc \<Rightarrow> process_tc ent tc s1 | None \<Rightarrow> Some s1) = Some s2"
    and c: "consider_vote ent p (is_nil_height (bi_height (p_block p)) s) s2 = Some s'"
  let ?s0 = "remember_block (p_block p) s"
  have good: "good_prop par rnd (e_cfg s) (e_scheme s) p" by (rule proposal_ok_good [OF ok b sh(1)])
  have e2: "evolves s2 s'" and e1: "evolves s1 s2" and e0: "evolves ?s0 s1"
    using evolves_consider_vote [OF c] evolves_opt_tc [OF t] evolves_process_qc [OF q] by auto
  note a2 = props_auth_mono [OF e2 a]
  note a1 = props_auth_mono [OF e1 a2]
  have cfg: "e_cfg s1 = e_cfg s" "e_scheme s1 = e_scheme s" "e_cfg s2 = e_cfg s" "e_scheme s2 = e_scheme s"
    using e0 e1 by (simp_all add: evolves_def remember_block_def)
  have "good_qc (e_cfg ?s0) (e_scheme ?s0) (p_qc p)" using good by (simp add: good_prop_def remember_block_def)
  note i1 = inv_process_qc [OF q inv_remember [OF i b] this a1]
  have i2: "inv par rnd s2"
  proof (cases "p_tc p")
    case None
    with t i1 show ?thesis by simp
  next
    case (Some tc)
    with good sh(2) have "good_qc (e_cfg s1) (e_scheme s1) (tc_high_qc tc)"
      by (auto simp: good_prop_def short_tc_def cfg intro: good_tc_high)
    with inv_process_tc [of tc s1 s2] Some t i1 a2 show ?thesis by simp
  qed
  have "qc_round (p_qc p) \<le> qc_round (e_high_qc s2)"
    using i1 e1 by (auto simp: evolves_def)
  with inv_consider_vote [OF c i2 _ _ a] good show ?thesis by (simp add: cfg)
qed (use i in simp)

lemma inv_on_proposed:
  assumes "on_proposed H ent block qc tc payload s = Some s'" and i: "inv par rnd s"
    and sh: "length (qc_signers qc) \<le> 8192" "short_tc tc" and a: "props_auth par rnd s'"
  shows "inv par rnd s'"
  using assms(1)
proof (rule on_proposed_cases)
  fix me g p s1
  assume p: "p = \<lparr>p_epoch = c_epoch (e_cfg s), p_block = block, p_qc = qc, p_tc = tc, p_proposer = me,
         p_payload = payload, p_sig = g\<rparr>"
    and op: "on_proposal H ent p (push (Broadcast (MProposal p)) (note_signing (GPropose me p) s)) = Some s1"
    and s': "s' = s1 \<or> (\<exists>rest. set rest \<subseteq> set (out s1)
         \<and> extending (on_validated ent (bi_hash block) True) (s1\<lparr>out := rest\<rparr>) = Some s')"
  let ?s0 = "push (Broadcast (MProposal p)) (note_signing (GPropose me p) s)"
  have e1: "evolves s1 s'"
    using s'
  proof (elim disjE exE conjE)
    fix rest
    assume "extending (on_validated ent (bi_hash block) True) (s1\<lparr>out := rest\<rparr>) = Some s'"
    from evolves_extending [OF this evolves_on_validated] show "evolves s1 s'"
      by (rule evolves_trans [OF evolves_out])
  qed simp
  note a1 = props_auth_mono [OF e1 a]
  note a0 = props_auth_mono [OF evolves_on_proposal [OF op] a1]
  have b: "auth_block par rnd (p_block p)" using a0 by (simp add: props_auth_def)
  have "inv par rnd ?s0" using i by (simp add: inv_def log_ok_propose)
  from inv_on_proposal [OF op this b _ _ a1] sh have i1: "inv par rnd s1" by (simp add: p)
  from s' show ?thesis
  proof (elim disjE exE conjE)
    fix rest
    assume r: "set rest \<subseteq> set (out s1)"
      and v: "extending (on_validated ent (bi_hash block) True) (s1\<lparr>out := rest\<rparr>) = Some s'"
    have "inv par rnd (s1\<lparr>out := rest\<rparr>)"
      using i1 r by (intro inv_out) (auto simp: inv_def out_ok_def)
    from inv_extending [OF v this a evolves_on_validated inv_on_validated] show ?thesis .
  qed (use i1 in simp)
qed (use i in simp)

lemma inv_lead_round:
  assumes l: "lead_round H ent r s = Some s'" and i: "inv par rnd s" and a: "props_auth par rnd s'"
  shows "inv par rnd s'"
proof -
  let ?s1 = "s\<lparr>e_proposed := insert r (e_proposed s)\<rparr>"
  have i1: "inv par rnd ?s1" using i by (simp add: inv_def)
  from l consider "s' = s" | "s' = push (Propose r (e_high_qc ?s1) (e_entry_tc ?s1)) ?s1"
    | b where "extending (on_proposed H ent b (e_high_qc ?s1) (e_entry_tc ?s1) []) ?s1 = Some s'"
    unfolding lead_round_def Let_def by (auto simp: bind_eq_Some_conv split: if_splits)
  then show ?thesis
  proof cases
    case 2
    with i1 show ?thesis by (simp add: inv_def)
  next
    case 3
    have sh: "length (qc_signers (e_high_qc ?s1)) \<le> 8192" "short_tc (e_entry_tc ?s1)"
      using i1 by (simp_all add: inv_def good_qc_def)
    show ?thesis
      by (rule inv_extending [OF 3 i1 a]) (auto dest: evolves_on_proposed intro: inv_on_proposed [OF _ _ sh])
  qed (use i in simp)
qed

lemma inv_enter_round_body:
  assumes "enter_round_body H ent r tc s = Some s'" and i: "inv par rnd s" and sh: "short_tc tc"
    and a: "props_auth par rnd s'"
  shows "inv par rnd s'"
  using assms(1)
proof (rule enter_round_body_cases)
  fix s1
  assume s1: "retry_commit (s\<lparr>e_round := r, e_entry_tc := tc, e_requested := {}\<rparr>) = Some s1"
    and s': "s' = s1 \<or> lead_round H ent r (prune (push (ScheduleTimeout r (timeout_ms s1)) s1)) = Some s'"
  have "inv par rnd (s\<lparr>e_round := r, e_entry_tc := tc, e_requested := {}\<rparr>)"
    using i sh by (simp add: inv_def)
  from inv_retry_commit [OF s1 this] have i1: "inv par rnd s1" .
  from s' show ?thesis
  proof
    assume l: "lead_round H ent r (prune (push (ScheduleTimeout r (timeout_ms s1)) s1)) = Some s'"
    have "inv par rnd (prune (push (ScheduleTimeout r (timeout_ms s1)) s1))"
      using i1 by (intro inv_prune) (simp add: inv_def)
    with l show ?thesis by (rule inv_lead_round [OF _ _ a])
  qed (use i1 in simp)
qed (use i in simp)

lemma inv_adopt_last_tc:
  assumes "adopt_last_tc ent t s = Some s'" "inv par rnd s" "short_tc (t_last_tc t)" "props_auth par rnd s'"
  shows "inv par rnd s'"
proof -
  from assms(1) consider "s' = s"
    | tc where "t_last_tc t = Some tc" "verify_tc tc s" "process_tc ent tc s = Some s'"
    by (auto simp: adopt_last_tc_def split: option.splits if_splits)
  then show ?thesis
  proof cases
    case 2
    have "good_qc (e_cfg s) (e_scheme s) (tc_high_qc tc)"
      using 2(1,2) assms(3) by (intro good_tc_high) (auto simp: short_tc_def good_tc_def verify_tc_def)
    with 2(3) assms(2,4) show ?thesis by (auto dest: inv_process_tc)
  qed (use assms(2) in simp)
qed

lemma inv_collect_timeout:
  assumes c: "collect_timeout ent lt t s = Some s'" and i: "inv par rnd s"
    and q: "good_qc (e_cfg s) (e_scheme s) (t_high_qc t)" and a: "props_auth par rnd s'"
    and lt: "\<And>s s'. lt s = Some s' \<Longrightarrow> inv par rnd s \<Longrightarrow> props_auth par rnd s' \<Longrightarrow> inv par rnd s'"
  shows "inv par rnd s'"
proof -
  define st where "st = (case bt_get (t_round t) (e_timeouts s) of Some st \<Rightarrow> st
    | None \<Rightarrow> \<lparr>ts_entries = [], ts_high_qc = t_high_qc t, ts_done = False\<rparr>)"
  let ?put = "\<lambda>st. s\<lparr>e_timeouts := bt_insert (t_round t) st (e_timeouts s)\<rparr>"
  have g0: "good_qc (e_cfg s) (e_scheme s) (ts_high_qc st)"
    using i q by (auto simp: st_def inv_def timeouts_ok_def dest!: bt_get_SomeD split: option.splits)
  then have g1: "good_qc (e_cfg s) (e_scheme s) (ts_high_qc (add_timeout t st))"
    using q by (simp add: add_timeout_def Let_def)
  have put: "inv par rnd (?put u)" if "good_qc (e_cfg s) (e_scheme s) (ts_high_qc u)" for u
    using i that by (auto simp: inv_def timeouts_ok_def dest!: bt_insert_memD)
  let ?st' = "add_timeout t st"
  let ?w = "weight_of (c_validators (e_cfg s)) (map fst (ts_entries ?st'))"
  have c': "(if ts_done st then Some (?put st)
     else if is_quorum (c_validators (e_cfg s)) ?w then
       process_tc ent \<lparr>tc_epoch = c_epoch (e_cfg s), tc_round = t_round t, tc_high_qc = ts_high_qc ?st',
         tc_entries = ts_entries ?st'\<rparr> (?put (?st'\<lparr>ts_done := True\<rparr>))
     else if is_one_third (c_validators (e_cfg s)) ?w \<and> t_round t = e_round s \<and> t_round t \<notin> e_timed_out s
     then lt (?put ?st') else Some (?put ?st')) = Some s'"
    using c unfolding collect_timeout_def Let_def st_def by simp
  show ?thesis
  proof (cases "ts_done st")
    case True
    with c' put [OF g0] show ?thesis by simp
  next
    case D: False
    show ?thesis
    proof (cases "is_quorum (c_validators (e_cfg s)) ?w")
      case True
      with c' D have p: "process_tc ent \<lparr>tc_epoch = c_epoch (e_cfg s), tc_round = t_round t,
          tc_high_qc = ts_high_qc ?st', tc_entries = ts_entries ?st'\<rparr> (?put (?st'\<lparr>ts_done := True\<rparr>)) = Some s'"
        by simp
      have "inv par rnd (?put (?st'\<lparr>ts_done := True\<rparr>))" using g1 by (intro put) simp
      from inv_process_tc [OF p this _ a] g1 show ?thesis by simp
    next
      case False
      with c' D lt [OF _ put [OF g1] a] put [OF g1] show ?thesis by (auto split: if_splits)
    qed
  qed
qed

lemma inv_on_timeout_msg_body:
  assumes "on_timeout_msg_body ent lt t s = Some s'" and i: "inv par rnd s" and sh: "short_timeout t"
    and a: "props_auth par rnd s'"
    and ev: "\<And>s s'. lt s = Some s' \<Longrightarrow> evolves s s'"
    and lt: "\<And>s s'. lt s = Some s' \<Longrightarrow> inv par rnd s \<Longrightarrow> props_auth par rnd s' \<Longrightarrow> inv par rnd s'"
  shows "inv par rnd s'"
  using assms(1)
proof (rule on_timeout_msg_body_cases)
  fix s1 s2
  assume ck: "timeout_checks t s" and s1: "adopt_last_tc ent t s = Some s1"
    and s2: "process_qc ent (t_high_qc t) s1 = Some s2" and c: "collect_timeout ent lt t s2 = Some s'"
  note e1 = evolves_adopt_last_tc [OF s1] and e2 = evolves_process_qc [OF s2]
    and e3 = evolves_collect_timeout [OF c ev]
  note a2 = props_auth_mono [OF e3 a]
  note a1 = props_auth_mono [OF e2 a2]
  have q: "good_qc (e_cfg s) (e_scheme s) (t_high_qc t)"
    using ck sh by (auto simp: timeout_checks_def verify_qc_def short_timeout_def intro: good_qcI)
  have i1: "inv par rnd s1"
    using sh by (intro inv_adopt_last_tc [OF s1 i _ a1]) (simp add: short_timeout_def)
  have q1: "good_qc (e_cfg s1) (e_scheme s1) (t_high_qc t)" using q e1 by (simp add: evolves_def)
  have i2: "inv par rnd s2" using inv_process_qc [OF s2 i1 q1 a2] by simp
  have "good_qc (e_cfg s2) (e_scheme s2) (t_high_qc t)" using q1 e2 by (simp add: evolves_def)
  from inv_collect_timeout [OF c i2 this a lt] show ?thesis .
qed (use i in simp)

lemma inv_send_timeout:
  assumes st: "send_timeout otm r q me u = Some u'" and i: "inv par rnd u" and rf: "reports_from r q u"
    and a: "props_auth par rnd u'" and ev: "\<And>t s s'. otm t s = Some s' \<Longrightarrow> evolves s s'"
    and otm: "\<And>t s s'. otm t s = Some s' \<Longrightarrow> inv par rnd s \<Longrightarrow> short_timeout t \<Longrightarrow> props_auth par rnd s'
      \<Longrightarrow> inv par rnd s'"
  shows "inv par rnd u' \<and> reports_from r q u' \<and> props_auth par rnd u"
proof -
  let ?u = "note_signing (GTimeout me r q) u"
  from st obtain g where "otm \<lparr>t_epoch = c_epoch (e_cfg u), t_round = r, t_high_qc = e_high_qc u,
       t_signer = me, t_sig = g, t_last_tc = e_entry_tc u\<rparr> (push (Broadcast (MTimeout
       \<lparr>t_epoch = c_epoch (e_cfg u), t_round = r, t_high_qc = e_high_qc u,
       t_signer = me, t_sig = g, t_last_tc = e_entry_tc u\<rparr>)) ?u) = Some u'"
    by (auto simp: send_timeout_def Let_def bind_eq_Some_conv)
  then obtain t where t: "otm t (push (Broadcast (MTimeout t)) ?u) = Some u'"
    "t_high_qc t = e_high_qc u" "t_last_tc t = e_entry_tc u" by force
  have "log_ok par rnd (e_cfg u) (e_scheme u) (qc_round (e_high_qc u)) (e_last_voted u) (signings u @ [GTimeout me r q])"
    using i rf by (intro log_ok_timeout) (auto simp: inv_def reports_from_def)
  then have iu: "inv par rnd (push (Broadcast (MTimeout t)) ?u)" using i by (simp add: inv_def)
  have "short_timeout t" using i t by (simp add: short_timeout_def inv_def good_qc_def)
  from otm [OF t(1) iu this a] have "inv par rnd u'" .
  moreover have e: "evolves ?u u'" by (rule evolves_trans [OF evolves_push ev [OF t(1)]])
  moreover have "reports_from r q ?u" using rf by (simp add: reports_from_def)
  from reports_from_evolves [OF e this] have "reports_from r q u'" .
  moreover from props_auth_mono [OF e a] have "props_auth par rnd u" by (simp add: props_auth_note_timeout)
  ultimately show ?thesis by simp
qed

lemma send_timeout_props:
  assumes "send_timeout otm r q me u = Some u'" "props_auth par rnd u'"
    and ev: "\<And>t s s'. otm t s = Some s' \<Longrightarrow> evolves s s'"
  shows "props_auth par rnd u"
proof -
  from assms(1) obtain t where t: "otm t (push (Broadcast (MTimeout t)) (note_signing (GTimeout me r q) u)) = Some u'"
    by (auto simp: send_timeout_def Let_def bind_eq_Some_conv)
  from props_auth_mono [OF evolves_trans [OF evolves_push ev [OF t]] assms(2)] show ?thesis
    by (simp add: props_auth_note_timeout)
qed

lemma inv_local_timeout_body:
  fixes s :: "('sig, 'agg) est"
  assumes "local_timeout_body otm s = Some s'" and i: "inv par rnd s" and a: "props_auth par rnd s'"
    and ev: "\<And>t s s'. otm t s = Some s' \<Longrightarrow> evolves s s'"
    and otm: "\<And>t s s'. otm t s = Some s' \<Longrightarrow> inv par rnd s \<Longrightarrow> short_timeout t \<Longrightarrow> props_auth par rnd s'
      \<Longrightarrow> inv par rnd s'"
  shows "inv par rnd s'"
  using assms(1)
proof (rule local_timeout_body_cases)
  fix s1 :: "('sig, 'agg) est"
  let ?r = "e_round s" and ?q = "qc_round (e_high_qc s1)"
  let ?P = "\<lambda>u. inv par rnd u \<and> reports_from ?r ?q u"
  assume t: "timing_out ?r s s1" and s': "s' = s1 \<or> for_until (\<lambda>t. e_round t \<noteq> ?r)
         (send_timeout otm ?r ?q) (c_me (e_cfg s)) s1 = Some s'"
  have i1: "inv par rnd s1"
    using i t log_ok_mono [of par rnd "e_cfg s" "e_scheme s" "qc_round (e_high_qc s)" "e_last_voted s"
      "signings s" "qc_round (e_high_qc s)" "max (e_last_voted s) ?r"]
    by (auto simp: inv_def timing_out_def)
  moreover have "?r \<le> e_last_voted s1" using t by (simp add: timing_out_def)
  with i1 have "reports_from ?r ?q s1" by (auto simp: inv_def log_ok_def vote_ok_def reports_from_def)
  ultimately have P1: "?P s1" by simp
  from s' show ?thesis
  proof
    assume f: "for_until (\<lambda>t. e_round t \<noteq> ?r) (send_timeout otm ?r ?q) (c_me (e_cfg s)) s1 = Some s'"
    have "?P s'"
      by (rule for_until_inv_back [where P = ?P and Q = "props_auth par rnd", OF f P1 a])
        (auto dest: send_timeout_props [OF _ _ ev] inv_send_timeout [OF _ _ _ _ ev otm])
    then show ?thesis by simp
  qed (use P1 in simp)
qed

lemma inv_local_timeout:
  "local_timeout d ent s = Some s' \<Longrightarrow> inv par rnd s \<Longrightarrow> props_auth par rnd s' \<Longrightarrow> inv par rnd s'"
proof (induction d arbitrary: s s')
  case (Suc d)
  note ev = evolves_local_timeout [where d = d]
  show ?case
    by (rule inv_local_timeout_body [OF Suc.prems(1) [simplified] Suc.prems(2,3)])
      (auto intro: evolves_on_timeout_msg_body [OF _ ev] inv_on_timeout_msg_body [OF _ _ _ _ ev Suc.IH])
qed simp

lemma inv_on_external_commit:
  assumes "on_external_commit ent b qc s = Some s'" "inv par rnd s" "auth_block par rnd b"
    and "length (qc_signers qc) \<le> 8192" "props_auth par rnd s'"
  shows "inv par rnd s'"
proof (cases "bi_height b \<le> bi_height (e_committed s) \<or> \<not> verify_qc qc s \<or> qc_block qc \<noteq> bi_hash b")
  case True
  with assms(1,2) show ?thesis by (auto simp: on_external_commit_def)
next
  case False
  let ?s1 = "s\<lparr>e_blocks := bt_insert (bi_hash b) b (e_blocks s), e_committed := b\<rparr>"
  have "inv par rnd ?s1" using inv_insert_block [OF assms(2,3)] assms(3) by (simp add: inv_def)
  moreover have "good_qc (e_cfg s) (e_scheme s) qc"
    using False assms(4) by (auto simp: verify_qc_def intro: good_qcI)
  moreover have "process_qc ent qc ?s1 = Some s'" using False assms(1) by (simp add: on_external_commit_def)
  ultimately show ?thesis using inv_process_qc [of qc ?s1 s'] assms(5) by simp
qed

end

text \<open>
  The condition on inputs: a block's parent and round are the ones its hash stands for, and bitmaps have
  at most 8192 bytes, so that they list no signer twice.
\<close>

fun input_ok :: "(b256 \<Rightarrow> b256) \<Rightarrow> (b256 \<Rightarrow> round) \<Rightarrow> ('sig, 'agg) input \<Rightarrow> bool" where
  "input_ok par rnd IStart = True"
| "input_ok par rnd (IMessage (MProposal p)) =
     (auth_block par rnd (p_block p) \<and> length (qc_signers (p_qc p)) \<le> 8192 \<and> short_tc (p_tc p))"
| "input_ok par rnd (IMessage (MVote v)) = True"
| "input_ok par rnd (IMessage (MTimeout t)) = short_timeout t"
| "input_ok par rnd (IValidated b ok) = True"
| "input_ok par rnd (IProposed b qc tc payload) = (length (qc_signers qc) \<le> 8192 \<and> short_tc tc)"
| "input_ok par rnd (ITimeout r) = True"
| "input_ok par rnd (IBlock b) = auth_block par rnd b"
| "input_ok par rnd (IExternal b qc) = (auth_block par rnd b \<and> length (qc_signers qc) \<le> 8192)"

context entry_safe
begin

lemma inv_handle:
  assumes h: "handle H ent i s = Some s'" and inv: "inv par rnd s" and ok: "input_ok par rnd i"
    and a: "props_auth par rnd s'"
  shows "inv par rnd s'"
proof (cases i)
  case IStart
  with h have "ent (e_round s + 1) None s = Some s'" by (simp add: start_def)
  from ent_inv [OF this inv _ a] show ?thesis by (simp add: short_tc_def)
next
  case (IMessage m)
  show ?thesis
  proof (cases m)
    case (MProposal p)
    with IMessage h inv ok a show ?thesis
      by (auto simp: on_message_def split: if_splits intro: inv_on_proposal)
  next
    case (MVote v)
    with IMessage h inv a show ?thesis by (auto simp: on_message_def split: if_splits intro: inv_on_vote)
  next
    case (MTimeout t)
    with IMessage h inv ok a show ?thesis
      by (auto simp: on_message_def on_timeout_msg_def split: if_splits
          intro: inv_on_timeout_msg_body [OF _ _ _ _ evolves_local_timeout inv_local_timeout])
  qed
next
  case (ITimeout r)
  with h inv a show ?thesis by (auto simp: on_timeout_def split: if_splits intro: inv_local_timeout)
qed (use h inv ok a in \<open>auto intro: inv_on_validated inv_on_proposed inv_on_block inv_on_external_commit\<close>)

end

lemma inv_enter_round:
  fixes s :: "('sig, 'agg) est"
  shows "enter_round H f r tc s = Some s' \<Longrightarrow> inv par rnd s \<Longrightarrow> short_tc tc \<Longrightarrow> props_auth par rnd s'
    \<Longrightarrow> inv par rnd s'"
proof (induction f arbitrary: r tc s s')
  case (Suc f)
  have "entry_safe (enter_round H f :: ('sig, 'agg) entry) par rnd"
    by unfold_locales (rule Suc.IH)
  from entry_safe.inv_enter_round_body [OF this] Suc.prems show ?case by simp
qed simp

interpretation es: entry_safe "enter_round H f" par rnd for H f par rnd
  by unfold_locales (rule inv_enter_round)

lemma inv_step:
  "step H f i s = Some s' \<Longrightarrow> inv par rnd s \<Longrightarrow> input_ok par rnd i \<Longrightarrow> props_auth par rnd s' \<Longrightarrow> inv par rnd s'"
  unfolding step_def by (erule es.inv_handle) (simp_all add: inv_out)

end
