(* ===== verification/Agreement.thy ===== *)
theory Agreement
  imports Engine_Safe
begin

text \<open>
  Agreement. The locale \<open>voting\<close> is the abstract protocol: what validators outside a faulty third
  voted for and reported, and the rules they follow. Its theorem is that two blocks that are final
  by the two-chain rule lie on one chain. The rules are then proved of a set of engines of one
  epoch, each run from its start through any sequence of inputs and restarts, and the locale is
  interpreted on them.
\<close>

subsection \<open>The abstract protocol\<close>

text \<open>
  \<open>vote i r h k\<close>: \<open>i\<close> voted in round \<open>r\<close> for block \<open>h\<close>, proposed with a certificate of round \<open>k\<close> for
  its parent. \<open>report i r q\<close>: \<open>i\<close> timed out in round \<open>r\<close> and reported a certificate of round \<open>q\<close>.
\<close>

locale voting = quorum_system W M quorum
  for W :: "'i \<Rightarrow> nat" and M :: "'i set" and quorum :: "'i set \<Rightarrow> bool" +
  fixes F :: "'i set"
    and vote :: "'i \<Rightarrow> nat \<Rightarrow> 'h \<Rightarrow> nat \<Rightarrow> bool"
    and report :: "'i \<Rightarrow> nat \<Rightarrow> nat \<Rightarrow> bool"
    and par :: "'h \<Rightarrow> 'h" and rnd :: "'h \<Rightarrow> nat" and anchor :: 'h
  assumes faulty: "3 * sum W F \<le> sum W M" "finite F"
    and once: "i \<in> M - F \<Longrightarrow> vote i r h k \<Longrightarrow> vote i r h' k' \<Longrightarrow> h = h'"
    and round: "i \<in> M - F \<Longrightarrow> vote i r h k \<Longrightarrow> rnd h = r \<and> k < r"
    and extends: "i \<in> M - F \<Longrightarrow> vote i r h k \<Longrightarrow>
      (k = 0 \<and> par h = anchor) \<or> (\<exists>Q. quorum Q \<and> (\<forall>j \<in> Q - F. \<exists>k'. vote j k (par h) k'))"
    and safe: "i \<in> M - F \<Longrightarrow> vote i r h k \<Longrightarrow>
      k + 1 = r \<or> (\<exists>Q. quorum Q \<and> (\<forall>j \<in> Q - F. \<exists>q \<le> k. report j (r - 1) q))"
    and covers: "i \<in> M - F \<Longrightarrow> vote i r h k \<Longrightarrow> report i r' q \<Longrightarrow> r \<le> r' \<Longrightarrow> k \<le> q"
    and anchor_round: "rnd anchor = 0"
begin

definition certified :: "nat \<Rightarrow> 'h \<Rightarrow> bool" where
  "certified r h \<longleftrightarrow> (\<exists>Q. quorum Q \<and> (\<forall>j \<in> Q - F. \<exists>k. vote j r h k))"

text \<open>Final by the two-chain rule; the anchor counts as certified in round 0.\<close>

definition final :: "'h \<Rightarrow> bool" where
  "final h \<longleftrightarrow> (\<exists>c. (certified (rnd h) h \<or> h = anchor) \<and> certified (Suc (rnd h)) c \<and> par c = h)"

lemma quorum_members: "quorum Q \<Longrightarrow> i \<in> Q \<Longrightarrow> i \<notin> F \<Longrightarrow> i \<in> M - F"
  using quorum_weight by blast

lemma certified_vote:
  assumes "certified r h"
  obtains i k where "i \<in> M - F" "vote i r h k"
proof -
  from assms obtain Q where Q: "quorum Q" "\<forall>j \<in> Q - F. \<exists>k. vote j r h k" by (auto simp: certified_def)
  from quorum_has_honest [OF Q(1) faulty] obtain i where "i \<in> Q" "i \<notin> F" by blast
  with Q that quorum_members show ?thesis by blast
qed

lemma certified_both:
  assumes "certified r h" "quorum Q"
  obtains i k where "i \<in> M - F" "i \<in> Q" "vote i r h k"
proof -
  from assms(1) obtain R where R: "quorum R" "\<forall>j \<in> R - F. \<exists>k. vote j r h k" by (auto simp: certified_def)
  from quorum_inter_honest [OF assms(2) R(1) faulty] obtain i where "i \<in> Q" "i \<in> R" "i \<notin> F" .
  with R that assms(2) quorum_members show ?thesis by blast
qed

lemma certified_round: "certified r h \<Longrightarrow> rnd h = r \<and> 0 < r"
  by (erule certified_vote) (use round in fastforce)

lemma certified_unique:
  assumes "certified r h" "certified r h'"
  shows "h = h'"
proof -
  from assms(2) obtain Q where Q: "quorum Q" "\<forall>j \<in> Q - F. \<exists>k. vote j r h' k" by (auto simp: certified_def)
  from certified_both [OF assms(1) Q(1)] obtain i k where "i \<in> M - F" "i \<in> Q" "vote i r h k" .
  moreover from this Q(2) obtain k' where "vote i r h' k'" by blast
  ultimately show ?thesis using once by blast
qed

lemma certified_parent:
  assumes "certified r h"
  obtains (anchor) "par h = anchor" | (parent) k where "certified k (par h)" "k < r"
    "k + 1 = r \<or> (\<exists>Q. quorum Q \<and> (\<forall>j \<in> Q - F. \<exists>q \<le> k. report j (r - 1) q))"
proof -
  from certified_vote [OF assms] obtain i k where v: "i \<in> M - F" "vote i r h k" .
  from extends [OF v] show ?thesis
  proof
    assume "\<exists>Q. quorum Q \<and> (\<forall>j \<in> Q - F. \<exists>k'. vote j k (par h) k')"
    then have "certified k (par h)" by (simp add: certified_def)
    with parent round [OF v] safe [OF v] show ?thesis by blast
  qed (use anchor in simp)
qed

lemma certified_from_anchor: "certified r h \<Longrightarrow> \<exists>n. (par ^^ n) h = anchor"
proof (induction r arbitrary: h rule: less_induct)
  case (less r)
  from less.prems show ?case
  proof (cases rule: certified_parent)
    case anchor
    then have "(par ^^ 1) h = anchor" by simp
    then show ?thesis ..
  next
    case (parent k)
    from less.IH [OF parent(2,1)] obtain n where "(par ^^ n) (par h) = anchor" ..
    then have "(par ^^ Suc n) h = anchor" by (simp only: funpow_Suc_right comp_apply)
    then show ?thesis ..
  qed
qed

text \<open>
  The heart of the argument: once \<open>h\<close> of round \<open>r\<close> has a certified child of round \<open>r + 1\<close>, every
  block certified in round \<open>r\<close> or later extends \<open>h\<close>. A proposal that skips below \<open>h\<close> needs a timeout
  certificate that reports nothing as high as \<open>r\<close>, but one of its signers voted for the child, and
  so had seen the certificate of \<open>h\<close>.
\<close>

lemma certified_extends:
  assumes h: "certified r h" and c: "certified (Suc r) c" and p: "par c = h"
    and d: "certified r' d" and le: "r \<le> r'"
  shows "\<exists>n. (par ^^ n) d = h"
  using d le
proof (induction r' arbitrary: d rule: less_induct)
  case (less r')
  consider "r' = r" | "r' = Suc r" | "Suc r < r'" using less.prems(2) by linarith
  then show ?case
  proof cases
    case 1
    with certified_unique less.prems(1) h have "(par ^^ 0) d = h" by auto
    then show ?thesis ..
  next
    case 2
    with certified_unique less.prems(1) c have "d = c" by auto
    with p have "(par ^^ 1) d = h" by simp
    then show ?thesis ..
  next
    case 3
    have child: "\<And>i k. i \<in> M - F \<Longrightarrow> vote i (Suc r) c k \<Longrightarrow> k = r"
    proof -
      fix i k
      assume v: "i \<in> M - F" "vote i (Suc r) c k"
      from extends [OF v] show "k = r"
      proof
        assume "k = 0 \<and> par c = anchor"
        with p certified_round [OF h] anchor_round show ?thesis by auto
      next
        assume "\<exists>Q. quorum Q \<and> (\<forall>j \<in> Q - F. \<exists>k'. vote j k (par c) k')"
        then have "certified k h" by (simp add: certified_def p)
        with certified_round h show ?thesis by metis
      qed
    qed
    from certified_vote [OF less.prems(1)] obtain i k where v: "i \<in> M - F" "vote i r' d k" .
    show ?thesis
    proof (cases "r \<le> k")
      case True
      with extends [OF v] certified_round [OF h] have "certified k (par d)"
        by (auto simp: certified_def)
      from less.IH [OF _ this True] round [OF v] obtain n where "(par ^^ n) (par d) = h" by blast
      then have "(par ^^ Suc n) d = h" by (simp only: funpow_Suc_right comp_apply)
      then show ?thesis ..
    next
      case False
      with safe [OF v] 3 obtain Q where Q: "quorum Q" "\<forall>j \<in> Q - F. \<exists>q \<le> k. report j (r' - 1) q" by auto
      from certified_both [OF c Q(1)] obtain j k' where j: "j \<in> M - F" "j \<in> Q" "vote j (Suc r) c k'" .
      from Q(2) j(1,2) obtain q where q: "q \<le> k" "report j (r' - 1) q" by blast
      have "k' \<le> q" by (rule covers [OF j(1,3) q(2)]) (use 3 in simp)
      with child [OF j(1,3)] q(1) False show ?thesis by simp
    qed
  qed
qed

theorem final_comparable:
  assumes "final h" "final h'"
  shows "\<exists>n. (par ^^ n) h = h' \<or> (par ^^ n) h' = h"
proof -
  from assms obtain c c' where c: "certified (rnd h) h \<or> h = anchor" "certified (Suc (rnd h)) c" "par c = h"
    and c': "certified (rnd h') h' \<or> h' = anchor" "certified (Suc (rnd h')) c'" "par c' = h'"
    by (auto simp: final_def)
  show ?thesis
  proof (cases "h = anchor \<or> h' = anchor")
    case True
    have "\<exists>n. (par ^^ n) x = anchor" if "certified (rnd x) x \<or> x = anchor" for x
      using that certified_from_anchor by (metis funpow_0)
    with True c(1) c'(1) show ?thesis by blast
  next
    case False
    with c(1) c'(1) have "certified (rnd h) h" "certified (rnd h') h'" by auto
    with certified_extends [OF _ c(2,3)] certified_extends [OF _ c'(2,3)] show ?thesis
      by (meson linear)
  qed
qed

end

subsection \<open>Runs of an engine\<close>

text \<open>
  A run: from a new engine, through inputs that satisfy \<open>input_ok\<close> (blocks are what their hashes stand
  for, bitmaps of certificates have at most 8192 bytes), and through restarts from the state the engine persists. The last argument collects the actions. The ghost log
  of signatures outlives a restart.
\<close>

inductive engine_run ::
    "keccak_fn \<Rightarrow> (b256 \<Rightarrow> b256) \<Rightarrow> (b256 \<Rightarrow> round) \<Rightarrow> config \<Rightarrow> ('sig, 'agg) scheme
      \<Rightarrow> ('sig, 'agg) est \<Rightarrow> ('sig, 'agg) action list \<Rightarrow> bool"
  for H par rnd cfg sc where
  run_new: "engine_run H par rnd cfg sc (engine_new cfg sc) []"
| run_step: "engine_run H par rnd cfg sc s acts \<Longrightarrow> input_ok par rnd i \<Longrightarrow> step H f i s = Some s'
    \<Longrightarrow> engine_run H par rnd cfg sc s' (acts @ out s')"
| run_restart: "engine_run H par rnd cfg sc s acts
    \<Longrightarrow> engine_run H par rnd cfg sc ((resume cfg sc (persisted_of s))\<lparr>signings := signings s\<rparr>) acts"

lemma engine_new_sel [simp]:
  "e_cfg (engine_new cfg sc) = cfg" "e_scheme (engine_new cfg sc) = sc"
  "e_committed (engine_new cfg sc) = c_anchor cfg" "signings (engine_new cfg sc) = []"
  "e_last_voted (engine_new cfg sc) = 0" "e_entry_tc (engine_new cfg sc) = None"
  "e_pending (engine_new cfg sc) = []" "e_votes (engine_new cfg sc) = []"
  "e_timeouts (engine_new cfg sc) = []" "out (engine_new cfg sc) = []"
  "e_blocked_commit (engine_new cfg sc) = None"
  by (simp_all add: engine_new_def Let_def)

lemma good_anchor: "good_qc cfg sc (anchor_cert (c_epoch cfg) (bi_hash (c_anchor cfg)) (bi_height (c_anchor cfg)))"
  by (simp add: good_qc_def anchor_cert_def is_anchor_def)

lemma inv_new:
  assumes "static_ok cfg sc" "auth_block par rnd (c_anchor cfg)"
  shows "inv par rnd (engine_new cfg sc)"
  using assms good_anchor [of cfg sc]
  by (simp add: inv_def engine_new_def Let_def qcs_ok_def blocked_ok_def timeouts_ok_def short_tc_def
      tree_ok_def votes_ok_def pending_ok_def log_ok_def votes_agree_def reports_ok_def anchor_cert_def)

lemma com_ok_new: "com_ok (c_anchor cfg) (e_blocks (engine_new cfg sc)) (e_qcs (engine_new cfg sc))"
  by (simp add: com_ok_def engine_new_def Let_def bt_has_def bt_wf_def bt_get_def)

text \<open>Restart rebuilds the tree above the committed block; everything else it needs was persisted.\<close>

definition restore_blocks ::
    "block_info \<Rightarrow> block_info list \<Rightarrow> (b256, block_info) btmap \<Rightarrow> (b256, block_info) btmap" where
  "restore_blocks com bs m =
     fold (\<lambda>b m. if bi_height b > bi_height com then bt_insert (bi_hash b) b m else m) bs m"

lemma tree_ok_insert: "tree_ok par rnd m \<Longrightarrow> auth_block par rnd b \<Longrightarrow> tree_ok par rnd (bt_insert (bi_hash b) b m)"
  by (auto simp: tree_ok_def dest!: bt_insert_memD)

lemma restore_blocks_tree:
  "tree_ok par rnd m \<Longrightarrow> \<forall>b \<in> set bs. auth_block par rnd b \<Longrightarrow> tree_ok par rnd (restore_blocks com bs m)"
  unfolding restore_blocks_def
  by (induction bs arbitrary: m) (auto simp: tree_ok_insert)

lemma restore_blocks_com:
  "com_ok com m qs \<Longrightarrow> com_ok com (restore_blocks com bs m) qs"
  unfolding restore_blocks_def
  by (induction bs arbitrary: m) (auto simp: com_ok_insert_block)

lemma resume_sel:
  fixes sc :: "('sig, 'agg) scheme"
  assumes "ps_epoch p = c_epoch cfg"
  defines "e \<equiv> engine_new cfg sc"
  defines "up \<equiv> bi_height (ps_committed p) > bi_height (c_anchor cfg)"
  defines "com \<equiv> (if up then ps_committed p else c_anchor cfg)"
  shows "resume cfg sc p = e\<lparr>
      e_round := max (qc_round (ps_high_qc p)) (ps_last_voted p),
      e_last_voted := ps_last_voted p, e_high_qc := ps_high_qc p,
      e_blocks := restore_blocks com (ps_blocks p)
        (if up then bt_insert (bi_hash com) com [] else e_blocks e),
      e_qcs := bt_insert (qc_block (ps_high_qc p)) (ps_high_qc p)
        (if up then bt_insert (bi_hash com) (ps_committed_qc p) [] else e_qcs e),
      e_committed := com\<rparr>"
  using assms by (simp add: resume_def Let_def restore_blocks_def engine_new_def)

lemma persisted_of_sel [simp]:
  "ps_epoch (persisted_of s) = c_epoch (e_cfg s)" "ps_committed (persisted_of s) = e_committed s"
  "ps_high_qc (persisted_of s) = e_high_qc s" "ps_last_voted (persisted_of s) = e_last_voted s"
  by (simp_all add: persisted_of_def)

lemma persisted_committed_qc:
  assumes "com_ok (e_committed s) (e_blocks s) (e_qcs s)" "qcs_ok (e_cfg s) (e_scheme s) (e_qcs s)"
  shows "qc_block (ps_committed_qc (persisted_of s)) = bi_hash (e_committed s)
    \<and> good_qc (e_cfg s) (e_scheme s) (ps_committed_qc (persisted_of s))"
proof -
  from assms(1) obtain q where "bt_get (bi_hash (e_committed s)) (e_qcs s) = Some q"
    by (auto simp: com_ok_def bt_has_def split: option.splits)
  with qcs_okD [OF assms(2) this] show ?thesis by (simp add: persisted_of_def)
qed

lemma persisted_blocks_auth:
  assumes "tree_ok par rnd (e_blocks s)"
  shows "\<forall>b \<in> set (ps_blocks (persisted_of s)). auth_block par rnd b"
  using assms by (auto simp: persisted_of_def tree_ok_def)

lemma inv_restart:
  assumes i: "inv par rnd s" and c: "com_ok (e_committed s) (e_blocks s) (e_qcs s)"
    and anc: "auth_block par rnd (c_anchor (e_cfg s))"
  defines "s' \<equiv> (resume (e_cfg s) (e_scheme s) (persisted_of s))\<lparr>signings := signings s\<rparr>"
  shows "inv par rnd s' \<and> com_ok (e_committed s') (e_blocks s') (e_qcs s')"
proof -
  let ?cfg = "e_cfg s" and ?sc = "e_scheme s"
  let ?e = "engine_new ?cfg ?sc" and ?ps = "persisted_of s"
  let ?up = "bi_height (e_committed s) > bi_height (c_anchor ?cfg)"
  let ?com = "if ?up then e_committed s else c_anchor ?cfg"
  let ?bs = "if ?up then bt_insert (bi_hash ?com) ?com [] else e_blocks ?e"
  let ?qs = "if ?up then bt_insert (bi_hash ?com) (ps_committed_qc ?ps) [] else e_qcs ?e"
  note res = resume_sel [of ?ps ?cfg ?sc, simplified persisted_of_sel, OF refl]
  have new: "inv par rnd ?e" using i anc by (intro inv_new) (simp_all add: inv_def)
  have q: "qc_block (ps_committed_qc ?ps) = bi_hash (e_committed s) \<and> good_qc ?cfg ?sc (ps_committed_qc ?ps)"
    using i c by (intro persisted_committed_qc) (simp_all add: inv_def)
  have com: "auth_block par rnd ?com" using i anc by (simp add: inv_def)
  have tree: "tree_ok par rnd (restore_blocks ?com (ps_blocks ?ps) ?bs)"
  proof (rule restore_blocks_tree)
    show "tree_ok par rnd ?bs" using com new by (auto simp: tree_ok_def inv_def dest!: bt_insert_memD)
    show "\<forall>b \<in> set (ps_blocks ?ps). auth_block par rnd b"
      using i by (intro persisted_blocks_auth) (simp add: inv_def)
  qed
  have qcs: "qcs_ok ?cfg ?sc (bt_insert (qc_block (e_high_qc s)) (e_high_qc s) ?qs)"
    using i new q by (auto simp: qcs_ok_def inv_def dest!: bt_insert_memD)
  have "com_ok ?com ?bs ?qs"
    using com_ok_new [of ?cfg ?sc] by (simp add: com_ok_def bt_has_def bt_get_def bt_wf_def)
  from com_ok_insert_qc [OF restore_blocks_com [OF this]]
  have "com_ok (e_committed s') (e_blocks s') (e_qcs s')" by (simp add: s'_def res)
  moreover have "inv par rnd s'"
    unfolding inv_def using i new com tree qcs by (simp add: s'_def res inv_def pending_ok_def)
  ultimately show ?thesis by simp
qed

lemma run_ok:
  assumes "engine_run H par rnd cfg sc s acts" "static_ok cfg sc" "auth_block par rnd (c_anchor cfg)"
    "props_auth par rnd s"
  shows "inv par rnd s \<and> com_ok (e_committed s) (e_blocks s) (e_qcs s) \<and> e_cfg s = cfg \<and> e_scheme s = sc
    \<and> out_ok par rnd cfg sc acts"
  using assms
proof (induction rule: engine_run.induct)
  case run_new
  then show ?case by (simp add: inv_new com_ok_new)
next
  case (run_step s acts i f s')
  have ev: "evolves s s'" using run_step.hyps(3) by (rule evolves_step)
  with run_step props_auth_mono have IH: "inv par rnd s" "com_ok (e_committed s) (e_blocks s) (e_qcs s)"
    "e_cfg s = cfg" "e_scheme s = sc" "out_ok par rnd cfg sc acts" by blast+
  have "inv par rnd s'" using inv_step run_step.hyps(2,3) run_step.prems(3) IH(1) by blast
  with IH ev show ?case by (simp add: evolves_def inv_def)
next
  case (run_restart s acts)
  have "props_auth par rnd s" using run_restart.prems(3) by (simp add: props_auth_def)
  with run_restart have IH: "inv par rnd s" "com_ok (e_committed s) (e_blocks s) (e_qcs s)"
    "e_cfg s = cfg" "e_scheme s = sc" "out_ok par rnd cfg sc acts" by blast+
  from inv_restart [OF IH(1,2)] IH run_restart.prems(2) show ?case
    by (simp add: resume_sel)
qed

subsection \<open>The engines of one epoch\<close>

text \<open>
  The committee of one epoch: \<open>n_engine i\<close> is the engine that signs for validator \<open>i\<close> (one engine may
  sign for several) and \<open>n_acts i\<close> what it asked its node to do. \<open>n_faulty\<close> are the validators of which
  nothing is known.
\<close>

record ('sig, 'agg) net =
  n_validators :: validator_set
  n_chain_id :: u64
  n_epoch :: u64
  n_anchor :: block_info
  n_faulty :: "validator_index set"
  n_engine :: "validator_index \<Rightarrow> ('sig, 'agg) est"
  n_acts :: "validator_index \<Rightarrow> ('sig, 'agg) action list"

text \<open>
  What a signature of a correct validator on a vote or timeout message of this epoch stands for. It
  says nothing of other messages: keys sign those elsewhere.
\<close>

definition stands_for :: "('sig, 'agg) net \<Rightarrow> validator_index \<Rightarrow> byte list \<Rightarrow> bool" where
  "stands_for n i msg \<longleftrightarrow>
     (\<forall>r b. msg = vote_msg (n_chain_id n) (n_epoch n) r b \<longrightarrow>
        (\<exists>p. GVote i p \<in> set (signings (n_engine n i)) \<and> bi_round (p_block p) = r \<and> bi_hash (p_block p) = b)) \<and>
     (\<forall>r q. msg = timeout_msg (n_chain_id n) (n_epoch n) r q \<longrightarrow>
        GTimeout i r q \<in> set (signings (n_engine n i)))"

text \<open>
  A correct engine: configured for the epoch, with a scheme that is complete and unforgeable, run as
  \<open>engine_run\<close> says, proposing the blocks its node built, and below the last round number.
\<close>

definition correct_engine ::
    "keccak_fn \<Rightarrow> (b256 \<Rightarrow> b256) \<Rightarrow> (b256 \<Rightarrow> round) \<Rightarrow> ('sig, 'agg) net \<Rightarrow> validator_index \<Rightarrow> bool" where
  "correct_engine H par rnd n i \<longleftrightarrow>
     (let s = n_engine n i; cfg = e_cfg s; sc = e_scheme s in
      c_validators cfg = n_validators n \<and> c_chain_id cfg = n_chain_id n \<and> c_epoch cfg = n_epoch n \<and>
      c_anchor cfg = n_anchor n \<and>
      agg_complete sc \<and> agg_sound sc (n_faulty n) (stands_for n) \<and> sig_sound sc (n_faulty n) (stands_for n) \<and>
      engine_run H par rnd cfg sc s (n_acts n i) \<and> props_auth par rnd s \<and> e_last_voted s \<noteq> -1)"

definition net_ok :: "keccak_fn \<Rightarrow> (b256 \<Rightarrow> b256) \<Rightarrow> (b256 \<Rightarrow> round) \<Rightarrow> ('sig, 'agg) net \<Rightarrow> bool" where
  "net_ok H par rnd n \<longleftrightarrow>
     set_wf (n_validators n) \<and> byz_third (n_validators n) (n_faulty n) \<and>
     auth_block par rnd (n_anchor n) \<and> rnd (bi_hash (n_anchor n)) = 0 \<and>
     (\<forall>i \<in> members (n_validators n) - n_faulty n. correct_engine H par rnd n i)"

definition cast :: "('sig, 'agg) net \<Rightarrow> validator_index \<Rightarrow> round \<Rightarrow> b256 \<Rightarrow> round \<Rightarrow> bool" where
  "cast n i r h k \<longleftrightarrow> (\<exists>p. GVote i p \<in> set (signings (n_engine n i)) \<and> bi_round (p_block p) = r
     \<and> bi_hash (p_block p) = h \<and> qc_round (p_qc p) = k)"

definition gave_up :: "('sig, 'agg) net \<Rightarrow> validator_index \<Rightarrow> round \<Rightarrow> round \<Rightarrow> bool" where
  "gave_up n i r q \<longleftrightarrow> GTimeout i r q \<in> set (signings (n_engine n i))"

definition quorum_voted :: "('sig, 'agg) net \<Rightarrow> round \<Rightarrow> b256 \<Rightarrow> bool" where
  "quorum_voted n r h \<longleftrightarrow> (\<exists>Q. vs_quorum (n_validators n) Q \<and>
     (\<forall>j \<in> Q - n_faulty n. \<exists>k. cast n j r h k))"

lemma stands_for_vote: "stands_for n i (vote_msg (n_chain_id n) (n_epoch n) r b) \<Longrightarrow> \<exists>k. cast n i r b k"
  by (auto simp: stands_for_def cast_def)

lemma stands_for_timeout:
  "stands_for n i (timeout_msg (n_chain_id n) (n_epoch n) r q) \<Longrightarrow> gave_up n i r q"
  by (auto simp: stands_for_def gave_up_def)

lemma net_okD:
  assumes "net_ok H par rnd n" "i \<in> members (n_validators n) - n_faulty n"
  shows "correct_engine H par rnd n i"
  using assms by (simp add: net_ok_def)

text \<open>What a correct engine's invariant says of its log, in terms of the committee.\<close>

lemma correct_engine_inv:
  assumes "net_ok H par rnd n" "i \<in> members (n_validators n) - n_faulty n"
  defines "s \<equiv> n_engine n i"
  shows "inv par rnd s" "out_ok par rnd (e_cfg s) (e_scheme s) (n_acts n i)"
proof -
  have "correct_engine H par rnd n i" using assms by (simp add: net_okD)
  then have c: "engine_run H par rnd (e_cfg s) (e_scheme s) s (n_acts n i)" "props_auth par rnd s"
    "agg_complete (e_scheme s)" "c_validators (e_cfg s) = n_validators n" "c_anchor (e_cfg s) = n_anchor n"
    by (simp_all add: correct_engine_def Let_def s_def)
  have "static_ok (e_cfg s) (e_scheme s)" "auth_block par rnd (c_anchor (e_cfg s))"
    using assms(1) c by (simp_all add: static_ok_def net_ok_def)
  from run_ok [OF c(1) this c(2)] show "inv par rnd s" "out_ok par rnd (e_cfg s) (e_scheme s) (n_acts n i)"
    by simp_all
qed

lemma good_qc_voted:
  assumes n: "net_ok H par rnd n" "i \<in> members (n_validators n) - n_faulty n"
    and q: "good_qc (e_cfg (n_engine n i)) (e_scheme (n_engine n i)) q"
  shows "(qc_round q = 0 \<and> qc_block q = bi_hash (n_anchor n)) \<or> quorum_voted n (qc_round q) (qc_block q)"
proof (cases "is_anchor q")
  case True
  with q net_okD [OF n] show ?thesis
    by (simp add: good_qc_def correct_engine_def Let_def is_anchor_def)
next
  case False
  let ?Q = "set (bitmap_decode (qc_signers q))"
  from net_okD [OF n] have c: "c_validators (e_cfg (n_engine n i)) = n_validators n"
    "c_chain_id (e_cfg (n_engine n i)) = n_chain_id n" "c_epoch (e_cfg (n_engine n i)) = n_epoch n"
    "agg_sound (e_scheme (n_engine n i)) (n_faulty n) (stands_for n)"
    by (simp_all add: correct_engine_def Let_def)
  from q False c obtain a where a: "length (qc_signers q) \<le> 8192"
    "is_quorum (n_validators n) (weight_of (n_validators n) (bitmap_decode (qc_signers q)))"
    "\<forall>i \<in> ?Q. unat i < vs_len (n_validators n)"
    "verify_aggregate (e_scheme (n_engine n i)) (bitmap_decode (qc_signers q))
       (vote_msg (n_chain_id n) (n_epoch n) (qc_round q) (qc_block q)) a"
    by (auto simp: good_qc_def)
  have "vs_quorum (n_validators n) ?Q"
    using a n(1) by (intro vs_quorumI bitmap_decode_distinct) (simp_all add: net_ok_def)
  moreover from a(4) c(4) have "\<forall>j \<in> ?Q - n_faulty n. \<exists>k. cast n j (qc_round q) (qc_block q) k"
    unfolding agg_sound_def using stands_for_vote by blast
  ultimately show ?thesis by (auto simp: quorum_voted_def)
qed

lemma correct_log:
  assumes "net_ok H par rnd n" "i \<in> members (n_validators n) - n_faulty n"
  defines "s \<equiv> n_engine n i"
  shows "log_ok par rnd (e_cfg s) (e_scheme s) (qc_round (e_high_qc s)) (e_last_voted s) (signings s)"
  using correct_engine_inv(1) [OF assms(1,2)] by (simp add: inv_def s_def)

lemma cast_once:
  assumes "net_ok H par rnd n" "i \<in> members (n_validators n) - n_faulty n" "cast n i r h k" "cast n i r h' k'"
  shows "h = h'"
  using correct_log [OF assms(1,2)] assms(3,4) unfolding cast_def log_ok_def votes_agree_def by metis

lemma cast_covered:
  assumes "net_ok H par rnd n" "i \<in> members (n_validators n) - n_faulty n" "cast n i r h k"
    "gave_up n i r' q" "r \<le> r'"
  shows "k \<le> q"
  using correct_log [OF assms(1,2)] assms(3-5) unfolding cast_def gave_up_def log_ok_def reports_ok_def by blast

lemma cast_prop:
  assumes "net_ok H par rnd n" "i \<in> members (n_validators n) - n_faulty n" "cast n i r h k"
  obtains p where "good_prop par rnd (e_cfg (n_engine n i)) (e_scheme (n_engine n i)) p" "safe_to_vote p"
    "bi_round (p_block p) = r" "bi_hash (p_block p) = h" "qc_round (p_qc p) = k" "r \<le> e_last_voted (n_engine n i)"
  using correct_log [OF assms(1,2)] assms(3) that unfolding cast_def log_ok_def vote_ok_def by blast

lemma cast_round:
  assumes "net_ok H par rnd n" "i \<in> members (n_validators n) - n_faulty n" "cast n i r h k"
  shows "rnd h = r \<and> k < r \<and> r + 1 \<noteq> 0"
proof -
  from cast_prop [OF assms] obtain p where p: "good_prop par rnd (e_cfg (n_engine n i)) (e_scheme (n_engine n i)) p"
    "bi_round (p_block p) = r" "bi_hash (p_block p) = h" "qc_round (p_qc p) = k" "r \<le> e_last_voted (n_engine n i)" .
  have "e_last_voted (n_engine n i) \<noteq> -1" using net_okD [OF assms(1,2)] by (simp add: correct_engine_def Let_def)
  with p(5) have "r \<noteq> -1" using word_order.extremum_unique by blast
  then have "r + 1 \<noteq> 0" by (metis add_eq_0_iff2 eq_neg_iff_add_eq_0)
  with p show ?thesis by (auto simp: good_prop_def auth_block_def)
qed

lemma cast_extends:
  assumes "net_ok H par rnd n" "i \<in> members (n_validators n) - n_faulty n" "cast n i r h k"
  shows "(k = 0 \<and> par h = bi_hash (n_anchor n)) \<or> quorum_voted n k (par h)"
proof -
  from cast_prop [OF assms] obtain p where p: "good_prop par rnd (e_cfg (n_engine n i)) (e_scheme (n_engine n i)) p"
    "bi_hash (p_block p) = h" "qc_round (p_qc p) = k" .
  then have "good_qc (e_cfg (n_engine n i)) (e_scheme (n_engine n i)) (p_qc p)" "qc_block (p_qc p) = par h"
    by (auto simp: good_prop_def auth_block_def)
  from good_qc_voted [OF assms(1,2) this(1)] this(2) p(3) show ?thesis by auto
qed

lemma cast_safe:
  assumes n: "net_ok H par rnd n" "i \<in> members (n_validators n) - n_faulty n" and c: "cast n i r h k"
  shows "k + 1 = r \<or> (\<exists>Q. vs_quorum (n_validators n) Q \<and> (\<forall>j \<in> Q - n_faulty n. \<exists>q \<le> k. gave_up n j (r - 1) q))"
proof (cases "k + 1 = r")
  case ne: False
  let ?s = "n_engine n i"
  from cast_prop [OF n c] obtain p where p: "good_prop par rnd (e_cfg ?s) (e_scheme ?s) p"
    "safe_to_vote p" "bi_round (p_block p) = r" "qc_round (p_qc p) = k" .
  from p ne obtain tc where tc: "p_tc p = Some tc" "tc_round tc + 1 = r" "max_qc_round tc \<le> k"
    by (auto simp: safe_to_vote_def Let_def split: option.splits)
  from p(1) tc(1) have "good_tc (e_cfg ?s) (e_scheme ?s) tc" by (simp add: good_prop_def)
  with net_okD [OF n] have t: "tc_verify (e_scheme ?s) (n_validators n) (n_chain_id n) (n_epoch n) (bi_hash (n_anchor n)) tc"
    and so: "sig_sound (e_scheme ?s) (n_faulty n) (stands_for n)"
    by (simp_all add: good_tc_def correct_engine_def Let_def)
  have wf: "set_wf (n_validators n)" using n(1) by (simp add: net_ok_def)
  from tc_verify_quorum [OF wf t so] obtain Q where Q: "vs_quorum (n_validators n) Q"
    "\<forall>i \<in> Q - n_faulty n. \<exists>qr \<le> max_qc_round tc. qr < tc_round tc
       \<and> stands_for n i (timeout_msg (n_chain_id n) (n_epoch n) (tc_round tc) qr)" .
  have r: "r - 1 = tc_round tc" using tc(2) by auto
  have "\<forall>j \<in> Q - n_faulty n. \<exists>q \<le> k. gave_up n j (r - 1) q"
    unfolding r using Q(2) tc(3) stands_for_timeout by (meson order_trans)
  with Q(1) show ?thesis by blast
qed simp

text \<open>The engines follow the abstract protocol; a committee that is not \<open>net_ok\<close> is read as an empty one.\<close>

definition nat_vote ::
    "keccak_fn \<Rightarrow> (b256 \<Rightarrow> b256) \<Rightarrow> (b256 \<Rightarrow> round) \<Rightarrow> ('sig, 'agg) net \<Rightarrow> validator_index \<Rightarrow> nat \<Rightarrow> b256 \<Rightarrow> nat \<Rightarrow> bool" where
  "nat_vote H par rnd n i r h k \<longleftrightarrow> net_ok H par rnd n \<and> (\<exists>wr wk. cast n i wr h wk \<and> r = unat wr \<and> k = unat wk)"

definition nat_report :: "('sig, 'agg) net \<Rightarrow> validator_index \<Rightarrow> nat \<Rightarrow> nat \<Rightarrow> bool" where
  "nat_report n i r q \<longleftrightarrow> (\<exists>wr wq. gave_up n i wr wq \<and> r = unat wr \<and> q = unat wq)"

definition net_quorum ::
    "keccak_fn \<Rightarrow> (b256 \<Rightarrow> b256) \<Rightarrow> (b256 \<Rightarrow> round) \<Rightarrow> ('sig, 'agg) net \<Rightarrow> validator_index set \<Rightarrow> bool" where
  "net_quorum H par rnd n Q \<longleftrightarrow> net_ok H par rnd n \<and> vs_quorum (n_validators n) Q"

definition net_faulty ::
    "keccak_fn \<Rightarrow> (b256 \<Rightarrow> b256) \<Rightarrow> (b256 \<Rightarrow> round) \<Rightarrow> ('sig, 'agg) net \<Rightarrow> validator_index set" where
  "net_faulty H par rnd n = (if net_ok H par rnd n then n_faulty n else {})"

definition nat_round ::
    "keccak_fn \<Rightarrow> (b256 \<Rightarrow> b256) \<Rightarrow> (b256 \<Rightarrow> round) \<Rightarrow> ('sig, 'agg) net \<Rightarrow> b256 \<Rightarrow> nat" where
  "nat_round H par rnd n h = (if net_ok H par rnd n then unat (rnd h) else 0)"

lemma quorum_voted_nat:
  assumes "net_ok H par rnd n" "quorum_voted n r h"
  shows "\<exists>Q. net_quorum H par rnd n Q \<and> (\<forall>j \<in> Q - net_faulty H par rnd n. \<exists>k. nat_vote H par rnd n j (unat r) h k)"
  using assms unfolding quorum_voted_def net_quorum_def net_faulty_def nat_vote_def by metis

lemma unat_Suc_word: "k < (r :: u64) \<Longrightarrow> k + 1 = r \<longleftrightarrow> unat k + 1 = unat r"
proof -
  assume "k < r"
  then have "unat k + 1 < 2 ^ 64" using unsigned_less [of r, where ?'a = nat] by (simp add: word_less_nat_alt)
  then have "unat (k + 1) = unat k + 1" by (simp add: unat_word_ariths)
  then show ?thesis by (metis word_unat_eq_iff)
qed

lemma unat_pred: "(0 :: u64) < r \<Longrightarrow> unat (r - 1) = unat r - 1"
  by (simp add: unat_minus_one word_greater_zero_iff)

interpretation nv: voting "wt (n_validators n)" "members (n_validators n)" "net_quorum H par rnd n"
  "net_faulty H par rnd n" "nat_vote H par rnd n" "nat_report n" par "nat_round H par rnd n" "bi_hash (n_anchor n)"
  for n H par rnd
proof unfold_locales
  fix Q show "net_quorum H par rnd n Q \<Longrightarrow> Q \<subseteq> members (n_validators n)
      \<and> 2 * sum (wt (n_validators n)) (members (n_validators n)) < 3 * sum (wt (n_validators n)) Q"
    by (simp add: net_quorum_def vs_quorum_def)
next
  show "3 * sum (wt (n_validators n)) (net_faulty H par rnd n) \<le> sum (wt (n_validators n)) (members (n_validators n))"
    by (simp add: net_faulty_def net_ok_def byz_third_members)
next
  fix i r h k h' k'
  assume i: "i \<in> members (n_validators n) - net_faulty H par rnd n" and v: "nat_vote H par rnd n i r h k"
  then obtain wr wk where ok: "net_ok H par rnd n" and c: "cast n i wr h wk" "r = unat wr" "k = unat wk"
    by (auto simp: nat_vote_def)
  from i ok have i: "i \<in> members (n_validators n) - n_faulty n" by (simp add: net_faulty_def)
  note facts = cast_round [OF ok i c(1)] and ext = cast_extends [OF ok i c(1)] and safe = cast_safe [OF ok i c(1)]
  show "nat_vote H par rnd n i r h' k' \<Longrightarrow> h = h'"
    using cast_once [OF ok i c(1)] c(2) unfolding nat_vote_def by (metis word_unat_eq_iff)
  show "nat_round H par rnd n h = r \<and> k < r"
    using facts ok c by (simp add: nat_round_def word_less_nat_alt)
  show "(k = 0 \<and> par h = bi_hash (n_anchor n)) \<or>
      (\<exists>Q. net_quorum H par rnd n Q \<and> (\<forall>j \<in> Q - net_faulty H par rnd n. \<exists>k'. nat_vote H par rnd n j k (par h) k'))"
    using ext quorum_voted_nat [OF ok] c(3) by auto
  show "k + 1 = r \<or> (\<exists>Q. net_quorum H par rnd n Q \<and> (\<forall>j \<in> Q - net_faulty H par rnd n. \<exists>q \<le> k. nat_report n j (r - 1) q))"
  proof (cases "wk + 1 = wr")
    case True
    with facts c unat_Suc_word show ?thesis by blast
  next
    case False
    with safe obtain Q where Q: "vs_quorum (n_validators n) Q" "\<forall>j \<in> Q - n_faulty n. \<exists>q \<le> wk. gave_up n j (wr - 1) q" by blast
    have "0 < wr" using facts word_coorder.not_eq_extremum by force
    then have "unat (wr - 1) = r - 1" using unat_pred c(2) by simp
    with Q(2) c(3) have "\<forall>j \<in> Q - n_faulty n. \<exists>q \<le> k. nat_report n j (r - 1) q"
      unfolding nat_report_def by (metis word_le_nat_alt)
    with Q(1) ok show ?thesis by (auto simp: net_quorum_def net_faulty_def)
  qed
next
  fix i r h k r' q
  assume i: "i \<in> members (n_validators n) - net_faulty H par rnd n" and v: "nat_vote H par rnd n i r h k"
    and rep: "nat_report n i r' q" and le: "r \<le> r'"
  then obtain wr wk where ok: "net_ok H par rnd n" and c: "cast n i wr h wk" "r = unat wr" "k = unat wk"
    by (auto simp: nat_vote_def)
  from i ok have i: "i \<in> members (n_validators n) - n_faulty n" by (simp add: net_faulty_def)
  from rep obtain wr' wq where w: "gave_up n i wr' wq" "r' = unat wr'" "q = unat wq" by (auto simp: nat_report_def)
  from cast_covered [OF ok i c(1) w(1)] le c w show "k \<le> q" by (simp add: word_le_nat_alt)
qed (auto simp: nat_round_def net_ok_def)

abbreviation net_certified ::
    "keccak_fn \<Rightarrow> (b256 \<Rightarrow> b256) \<Rightarrow> (b256 \<Rightarrow> round) \<Rightarrow> ('sig, 'agg) net \<Rightarrow> nat \<Rightarrow> b256 \<Rightarrow> bool" where
  "net_certified H par rnd n \<equiv>
     voting.certified (net_quorum H par rnd n) (net_faulty H par rnd n) (nat_vote H par rnd n)"

abbreviation net_final ::
    "keccak_fn \<Rightarrow> (b256 \<Rightarrow> b256) \<Rightarrow> (b256 \<Rightarrow> round) \<Rightarrow> ('sig, 'agg) net \<Rightarrow> b256 \<Rightarrow> bool" where
  "net_final H par rnd n \<equiv> voting.final (net_quorum H par rnd n) (net_faulty H par rnd n) (nat_vote H par rnd n)
     par (nat_round H par rnd n) (bi_hash (n_anchor n))"

lemma quorum_voted_certified:
  assumes "net_ok H par rnd n" "quorum_voted n r h"
  shows "net_certified H par rnd n (unat r) h" "rnd h = r" "r + 1 \<noteq> 0"
proof -
  show c: "net_certified H par rnd n (unat r) h"
    unfolding nv.certified_def using assms by (rule quorum_voted_nat)
  from nv.certified_vote [OF c] obtain i k
    where i: "i \<in> members (n_validators n) - net_faulty H par rnd n" and v: "nat_vote H par rnd n i (unat r) h k" .
  from i assms(1) have i: "i \<in> members (n_validators n) - n_faulty n" by (simp add: net_faulty_def)
  from v obtain k' where "cast n i r h k'" by (auto simp: nat_vote_def word_unat_eq_iff [symmetric])
  from cast_round [OF assms(1) i this] show "rnd h = r" "r + 1 \<noteq> 0" by simp_all
qed

lemma two_chain_final:
  assumes n: "net_ok H par rnd n" "i \<in> members (n_validators n) - n_faulty n"
    and t: "two_chain par rnd (e_cfg (n_engine n i)) (e_scheme (n_engine n i)) h"
  shows "net_final H par rnd n h"
proof -
  from t obtain pqc qc where q: "good_qc (e_cfg (n_engine n i)) (e_scheme (n_engine n i)) pqc"
    "good_qc (e_cfg (n_engine n i)) (e_scheme (n_engine n i)) qc" "qc_block pqc = h" "par (qc_block qc) = h"
    "rnd h + 1 = rnd (qc_block qc)"
    by (auto simp: two_chain_def)
  have r0: "rnd (bi_hash (n_anchor n)) = 0" using n(1) by (simp add: net_ok_def)
  have h: "(net_certified H par rnd n (nat_round H par rnd n h) h \<or> h = bi_hash (n_anchor n)) \<and> rnd h + 1 \<noteq> 0"
    using good_qc_voted [OF n q(1)]
  proof
    assume "quorum_voted n (qc_round pqc) (qc_block pqc)"
    from quorum_voted_certified [OF n(1) this] q(3) n(1) show ?thesis by (simp add: nat_round_def)
  qed (use q(3) r0 in simp)
  have "net_certified H par rnd n (Suc (nat_round H par rnd n h)) (qc_block qc)"
    using good_qc_voted [OF n q(2)]
  proof
    assume v: "quorum_voted n (qc_round qc) (qc_block qc)"
    from quorum_voted_certified [OF n(1) v] q(5) have "net_certified H par rnd n (unat (rnd h + 1)) (qc_block qc)"
      by simp
    moreover have "unat (rnd h + 1) = Suc (unat (rnd h))" using h by (simp add: unatSuc add.commute)
    ultimately show ?thesis using n(1) by (simp add: nat_round_def)
  qed (use q(5) r0 h in simp)
  with h q(4) show ?thesis unfolding nv.final_def by blast
qed

lemma funpow_reach: "a \<le> b \<Longrightarrow> (f ^^ (b - a)) ((f ^^ a) t) = (f ^^ b) t"
  by (metis comp_apply funpow_add le_add_diff_inverse2)

lemma funpow_comparable:
  assumes "x = (f ^^ a) t" "y = (f ^^ b) t"
  shows "\<exists>k. (f ^^ k) x = y \<or> (f ^^ k) y = x"
  using linear [of a b] funpow_reach [of a b f t] funpow_reach [of b a f t] assms by blast

text \<open>
  A concrete run, used to show that the hypotheses can hold: one validator, two blocks, the first of
  which becomes final. Signatures are those of \<open>ideal_scheme\<close> over the four messages signed.
\<close>

definition demo_says :: "validator_index \<Rightarrow> byte list \<Rightarrow> bool" where
  "demo_says i msg \<longleftrightarrow> i = 0 \<and> msg \<in> set [vote_msg 1 0 1 11, vote_msg 1 0 2 12,
     proposal_msg (\<lambda>_. 0) 1 0 1 11 [], proposal_msg (\<lambda>_. 0) 1 0 2 12 []]"

definition demo_cfg :: config where
  "demo_cfg = config_genesis 1 (vs_equal 1) (Some 0) 7 1000"

definition demo_par :: "b256 \<Rightarrow> b256" where
  "demo_par h = (if h = 12 then 11 else if h = 11 then 7 else 0)"

definition demo_rnd :: "b256 \<Rightarrow> round" where
  "demo_rnd h = (if h = 12 then 2 else if h = 11 then 1 else 0)"

definition demo_block :: "b256 \<Rightarrow> block_info" where
  "demo_block h = \<lparr>bi_hash = h, bi_parent = demo_par h, bi_round = demo_rnd h, bi_height = demo_rnd h\<rparr>"

definition demo_qc :: "round \<Rightarrow> unit qc" where
  "demo_qc r = (if r = 0 then anchor_cert 0 7 0 else
     \<lparr>qc_epoch = 0, qc_round = r, qc_block = 10 + ucast r, qc_height = r, qc_signers = [1], qc_sig = Some ()\<rparr>)"

definition demo_prop :: "round \<Rightarrow> (unit, unit) proposal" where
  "demo_prop r = \<lparr>p_epoch = 0, p_block = demo_block (10 + ucast r), p_qc = demo_qc (r - 1), p_tc = None,
     p_proposer = 0, p_payload = [], p_sig = ()\<rparr>"

lemma demo_says_simps:
  "demo_says 0 (vote_msg 1 0 1 11)" "demo_says 0 (vote_msg 1 0 2 12)"
  "demo_says 0 (proposal_msg (\<lambda>_. 0) 1 0 1 11 [])" "demo_says 0 (proposal_msg (\<lambda>_. 0) 1 0 2 12 [])"
  by (simp_all add: demo_says_def)

lemma demo_cfg_sel [simp]:
  "c_chain_id demo_cfg = 1" "c_epoch demo_cfg = 0" "c_validators demo_cfg = vs_equal 1" "c_me demo_cfg = [0]"
  "c_anchor demo_cfg = \<lparr>bi_hash = 7, bi_parent = 0, bi_round = 0, bi_height = 0\<rparr>"
  "c_end_height demo_cfg = -1" "c_base_timeout_ms demo_cfg = 1000"
  by (simp_all add: demo_cfg_def config_genesis_def)

lemma ideal_scheme_sel [simp]:
  "sign (ideal_scheme says) i msg = Some ()" "verify (ideal_scheme says) i msg s = says i msg"
  "aggregate (ideal_scheme says) ss = Some ()"
  "verify_aggregate (ideal_scheme says) is msg a = list_all (\<lambda>i. says i msg) is"
  by (simp_all add: ideal_scheme_def)

lemma demo_set:
  "leader (vs_equal (Suc 0)) r = Some 0" "bitmap_encode [0] (Suc 0) = [1]" "bitmap_decode [1] = [0]"
  "is_quorum (vs_equal (Suc 0)) (weight_of (vs_equal (Suc 0)) [0])" "vs_len (vs_equal (Suc 0)) = Suc 0"
  "\<not> (2 :: u64) \<le> 1" "\<not> (-1 :: u64) \<le> 1"
  subgoal by (simp add: leader_def vs_equal_def)
  by code_simp+

lemmas run_simps = step_def start_def enter_round_body_def lead_round_def
  prune_def eng_leader_def is_me_def timeout_ms_def is_nil_height_def extending_def push_def note_signing_def
  on_proposed_def on_proposal_def proposal_ok_def remember_block_def consider_vote_def safe_to_vote_def
  on_validated_def cast_vote_def on_vote_def vote_admit_def vote_quorum_def agg_all_def sig_of_def
  empty_vote_set_def check_pending_def process_qc_def record_qc_def try_commit_def verify_qc_def qc_verify_def
  proof_for_def commit_chain_def push_commit_def end_epoch_def unblock_def block_on_def retry_commit_def
  bt_retain_def bt_remove_def bt_has_def bt_get_def saturating_sub_def anchor_cert_def is_anchor_def Let_def
  engine_new_def

lemmas demo_simps = demo_says_simps demo_set demo_block_def demo_par_def demo_rnd_def demo_qc_def demo_prop_def

definition demo_s1 :: "(unit, unit) est" where
  "demo_s1 = (engine_new demo_cfg (ideal_scheme demo_says))\<lparr>e_round := 1, e_proposed := {1},
     out := [ScheduleTimeout 1 1000, Propose 1 (demo_qc 0) None]\<rparr>"

text \<open>After the rounds 1 and 2: a vote set with one checked vote, its certificate, the next round.\<close>

definition demo_after :: "round \<Rightarrow> (unit, unit) est \<Rightarrow> (unit, unit) est" where
  "demo_after r s = s\<lparr>e_round := r + 1, e_last_voted := r, e_high_qc := demo_qc r,
     e_blocks := bt_insert (10 + ucast r) (demo_block (10 + ucast r)) (e_blocks s),
     e_qcs := bt_insert (10 + ucast r) (demo_qc r) (e_qcs s),
     e_votes := bt_insert (r, 10 + ucast r) \<lparr>vs_height = r, vs_sigs = [], vs_pending = [(0, ())], vs_done = True\<rparr> (e_votes s),
     e_proposed := insert (r + 1) (e_proposed s),
     signings := signings s @ [GPropose 0 (demo_prop r), GVote 0 (demo_prop r)]\<rparr>"

definition demo_s2 :: "(unit, unit) est" where
  "demo_s2 = (demo_after 1 demo_s1)\<lparr>
     out := [Broadcast (MProposal (demo_prop 1)), ScheduleTimeout 2 1000, Propose 2 (demo_qc 1) None]\<rparr>"

definition demo_s3 :: "(unit, unit) est" where
  "demo_s3 = (demo_after 2 demo_s2)\<lparr>
     e_blocks := bt_remove 7 (e_blocks (demo_after 2 demo_s2)), e_qcs := bt_remove 7 (e_qcs (demo_after 2 demo_s2)),
     e_committed := demo_block 11,
     out := [Broadcast (MProposal (demo_prop 2)),
       Commit [demo_block 11] \<lparr>cp_qc = demo_qc 1, cp_child_qc = demo_qc 2, cp_child_header = [], cp_nil_rounds = [],
         cp_committed = 11, cp_committed_height = 1\<rparr>,
       ScheduleTimeout 3 1000, Propose 3 (demo_qc 2) None]\<rparr>"

lemma demo_step1: "step (\<lambda>_. 0) 1 IStart (engine_new demo_cfg (ideal_scheme demo_says)) = Some demo_s1"
  by (simp add: run_simps demo_simps demo_s1_def)

lemma demo_step2: "step (\<lambda>_. 0) 1 (IProposed (demo_block 11) (demo_qc 0) None []) demo_s1 = Some demo_s2"
  by (simp add: run_simps demo_simps demo_s1_def demo_s2_def demo_after_def)

lemma demo_step3: "step (\<lambda>_. 0) 1 (IProposed (demo_block 12) (demo_qc 1) None []) demo_s2 = Some demo_s3"
proof -
  have "{a :: u64. (a = 2 \<or> a = 1) \<and> 1 \<le> a + 1} = {2, 1}" by auto
  then show ?thesis by (simp add: run_simps demo_simps demo_s1_def demo_s2_def demo_s3_def demo_after_def)
qed

definition demo_net :: "(unit, unit) net" where
  "demo_net = \<lparr>n_validators = vs_equal 1, n_chain_id = 1, n_epoch = 0, n_anchor = c_anchor demo_cfg,
     n_faulty = {}, n_engine = (\<lambda>_. demo_s3), n_acts = (\<lambda>_. (([] @ out demo_s1) @ out demo_s2) @ out demo_s3)\<rparr>"

lemma demo_run:
  "engine_run (\<lambda>_. 0) demo_par demo_rnd demo_cfg (ideal_scheme demo_says) demo_s3 (n_acts demo_net i)"
proof -
  have ok: "input_ok demo_par demo_rnd (IProposed b (demo_qc r) None [])" for b r
    by (simp add: demo_qc_def anchor_cert_def short_tc_def)
  have r1: "engine_run (\<lambda>_. 0) demo_par demo_rnd demo_cfg (ideal_scheme demo_says) demo_s1 ([] @ out demo_s1)"
    by (rule run_step [OF run_new _ demo_step1]) simp
  note r2 = run_step [OF r1 ok demo_step2]
  from run_step [OF r2 ok demo_step3] show ?thesis by (simp add: demo_net_def)
qed

lemma demo_after_sel:
  "signings (demo_after r s) = signings s @ [GPropose 0 (demo_prop r), GVote 0 (demo_prop r)]"
  "e_last_voted (demo_after r s) = r" "e_cfg (demo_after r s) = e_cfg s" "e_scheme (demo_after r s) = e_scheme s"
  by (simp_all add: demo_after_def)

lemma demo_log:
  "signings demo_s3 = [GPropose 0 (demo_prop 1), GVote 0 (demo_prop 1), GPropose 0 (demo_prop 2), GVote 0 (demo_prop 2)]"
  "e_last_voted demo_s3 = 2" "e_cfg demo_s3 = demo_cfg" "e_scheme demo_s3 = ideal_scheme demo_says"
proof -
  have s1: "signings demo_s1 = []" "e_cfg demo_s1 = demo_cfg" "e_scheme demo_s1 = ideal_scheme demo_says"
    by (simp_all add: demo_s1_def)
  have s2: "signings demo_s2 = [GPropose 0 (demo_prop 1), GVote 0 (demo_prop 1)]" "e_cfg demo_s2 = demo_cfg"
    "e_scheme demo_s2 = ideal_scheme demo_says"
    by (simp_all add: demo_s2_def demo_after_sel s1)
  show "signings demo_s3 = [GPropose 0 (demo_prop 1), GVote 0 (demo_prop 1), GPropose 0 (demo_prop 2), GVote 0 (demo_prop 2)]"
    "e_last_voted demo_s3 = 2" "e_cfg demo_s3 = demo_cfg" "e_scheme demo_s3 = ideal_scheme demo_says"
    by (simp_all add: demo_s3_def demo_after_sel s2)
qed

lemma demo_stands_for:
  assumes "demo_says i msg"
  shows "stands_for demo_net i msg"
proof -
  have v: "vote_msg c e r b \<noteq> timeout_msg c' e' r' q" "proposal_msg H c e r b pl \<noteq> timeout_msg c' e' r' q"
    "proposal_msg H c e r b pl \<noteq> vote_msg c' e' r' b'" for c e r b c' e' r' q H pl b'
    by (auto simp: vote_msg_def timeout_msg_def proposal_msg_def domain_msg_def dest: arg_cong [where f = length])
  from assms have "i = 0" and msg: "msg = vote_msg 1 0 1 11 \<or> msg = vote_msg 1 0 2 12 \<or>
      msg = proposal_msg (\<lambda>_. 0) 1 0 1 11 [] \<or> msg = proposal_msg (\<lambda>_. 0) 1 0 2 12 []"
    by (simp_all add: demo_says_def)
  moreover have "\<exists>p. GVote 0 p \<in> set (signings demo_s3) \<and> bi_round (p_block p) = 1 \<and> bi_hash (p_block p) = 11"
    by (rule exI [of _ "demo_prop 1"]) (simp add: demo_log demo_prop_def demo_block_def demo_rnd_def)
  moreover have "\<exists>p. GVote 0 p \<in> set (signings demo_s3) \<and> bi_round (p_block p) = 2 \<and> bi_hash (p_block p) = 12"
    by (rule exI [of _ "demo_prop 2"]) (simp add: demo_log demo_prop_def demo_block_def demo_rnd_def)
  ultimately show ?thesis
    unfolding stands_for_def by (auto simp: demo_net_def v)
qed

lemma agg_complete_ideal: "agg_complete (ideal_scheme says)"
  by (auto simp: agg_complete_def list_all_iff list_all2_conv_all_nth in_set_conv_nth)

lemma demo_correct: "correct_engine (\<lambda>_. 0) demo_par demo_rnd demo_net i"
proof -
  have a: "agg_sound (ideal_scheme demo_says) {} (stands_for demo_net)"
    and b: "sig_sound (ideal_scheme demo_says) {} (stands_for demo_net)"
    unfolding agg_sound_def sig_sound_def by (auto simp: list_all_iff intro: demo_stands_for)
  have p: "auth_block demo_par demo_rnd (p_block (demo_prop r))" for r
    by (simp add: auth_block_def demo_prop_def demo_block_def)
  have "\<And>v q. GPropose v q \<in> set (signings demo_s3) \<Longrightarrow> q = demo_prop 1 \<or> q = demo_prop 2"
    unfolding demo_log(1) by auto
  then have c: "props_auth demo_par demo_rnd demo_s3" unfolding props_auth_def using p by blast
  have n: "n_engine demo_net i = demo_s3" "n_faulty demo_net = {}" "n_validators demo_net = vs_equal 1"
    "n_chain_id demo_net = 1" "n_epoch demo_net = 0" "n_anchor demo_net = c_anchor demo_cfg"
    by (simp_all add: demo_net_def)
  show ?thesis
    unfolding correct_engine_def Let_def n demo_log
    by (intro conjI a b c demo_run agg_complete_ideal) simp_all
qed

lemma demo_net_ok: "net_ok (\<lambda>_. 0) demo_par demo_rnd demo_net"
proof -
  have "set_wf (vs_equal 1)" by (simp add: set_wf_def vs_equal_def nat_total_def)
  moreover have "byz_third (vs_equal 1) {}" by (simp add: byz_third_def)
  moreover have "auth_block demo_par demo_rnd (c_anchor demo_cfg)" "demo_rnd (bi_hash (c_anchor demo_cfg)) = 0"
    by (simp_all add: auth_block_def demo_par_def demo_rnd_def)
  ultimately show ?thesis unfolding net_ok_def using demo_correct by (simp add: demo_net_def)
qed

text \<open>
  C1. Agreement. Take the engines of one epoch with at most a third of the weight faulty (\<open>net_ok\<close>).
  Each engine of a correct validator runs from a new engine through any sequence of inputs, in any
  order and number, and restarts, under these conditions (\<open>correct_engine\<close>, \<open>engine_run\<close>, \<open>input_ok\<close>):
  the signature scheme is complete and unforgeable outside of the faulty validators; every certificate
  in an input has a bitmap of at most 8192 bytes (a longer one can be forged by one validator, see
  \<open>qc_forged_by_one\<close>); and a block's hash fixes its parent and its round, in every proposal, block and
  outside commit an engine receives and in the blocks it proposes itself. The last condition leaves out
  a leader that announces one hash with two parents or rounds, and the checkpoint phase, where a mined
  block is proposed again under a later round. Then any two blocks that engines of correct validators
  committed lie on one chain: one is an ancestor of the other.
\<close>

theorem engine_agreement:
  assumes "net_ok H par rnd n"
    and "i \<in> members (n_validators n) - n_faulty n" "j \<in> members (n_validators n) - n_faulty n"
    and "Commit bs pf \<in> set (n_acts n i)" "Commit bs' pf' \<in> set (n_acts n j)"
    and "b \<in> set bs" "b' \<in> set bs'"
  shows "\<exists>k. (par ^^ k) (bi_hash b) = bi_hash b' \<or> (par ^^ k) (bi_hash b') = bi_hash b"
proof -
  have final: "\<exists>h m. net_final H par rnd n h \<and> bi_hash x = (par ^^ m) h"
    if "v \<in> members (n_validators n) - n_faulty n" "Commit xs pr \<in> set (n_acts n v)" "x \<in> set xs" for v xs pr x
  proof -
    from correct_engine_inv(2) [OF assms(1) that(1)] that(2)
    have "commit_ok par rnd (e_cfg (n_engine n v)) (e_scheme (n_engine n v)) xs" by (auto simp: out_ok_def)
    with that(3) two_chain_final [OF assms(1) that(1)] show ?thesis unfolding commit_ok_def by blast
  qed
  from final [OF assms(2,4,6)] obtain h m where h: "net_final H par rnd n h" "bi_hash b = (par ^^ m) h" by blast
  from final [OF assms(3,5,7)] obtain h' m' where h': "net_final H par rnd n h'" "bi_hash b' = (par ^^ m') h'" by blast
  from nv.final_comparable [OF h(1) h'(1)] obtain k where "(par ^^ k) h = h' \<or> (par ^^ k) h' = h" ..
  then consider "bi_hash b' = (par ^^ (m' + k)) h" | "bi_hash b = (par ^^ (m + k)) h'"
    using h(2) h'(2) by (auto simp: funpow_add)
  then show ?thesis
  proof cases
    case 1
    from funpow_comparable [OF h(2) 1] show ?thesis .
  next
    case 2
    from funpow_comparable [OF 2 h'(2)] show ?thesis .
  qed
qed

theorem engine_agreement_witness:
  "net_ok (\<lambda>_. 0) demo_par demo_rnd demo_net \<and> (0 :: validator_index) \<in> members (n_validators demo_net) - n_faulty demo_net
    \<and> (\<exists>pf. Commit [demo_block 11] pf \<in> set (n_acts demo_net 0))
    \<and> (\<exists>k. (demo_par ^^ k) (bi_hash (demo_block 11)) = bi_hash (demo_block 11)
         \<or> (demo_par ^^ k) (bi_hash (demo_block 11)) = bi_hash (demo_block 11))"
proof -
  have m: "(0 :: validator_index) \<in> members (n_validators demo_net) - n_faulty demo_net"
    by (simp add: demo_net_def members_def vs_equal_def)
  have "\<exists>pf. Commit [demo_block 11] pf \<in> set (n_acts demo_net 0)" by (auto simp: demo_net_def demo_s3_def)
  moreover from this obtain pf where "Commit [demo_block 11] pf \<in> set (n_acts demo_net 0)" ..
  from engine_agreement [OF demo_net_ok m m this this, of "demo_block 11" "demo_block 11"]
  have "\<exists>k. (demo_par ^^ k) (bi_hash (demo_block 11)) = bi_hash (demo_block 11)
         \<or> (demo_par ^^ k) (bi_hash (demo_block 11)) = bi_hash (demo_block 11)" by simp
  ultimately show ?thesis using demo_net_ok m by blast
qed

text \<open>
  C2. Voting discipline of one engine, across restarts, on a run as in \<open>engine_run\<close>: the certificates in
  its inputs have bitmaps of at most 8192 bytes, and the hash of a block fixes its parent and round, in
  its inputs and its own proposals (\<open>input_ok\<close>, \<open>props_auth\<close>). It votes for at most one block per round,
  only for proposals that are safe to vote for and whose parent certificate it holds or exceeds, and
  a timeout it signs reports at least the parent certificate of every block it voted for up to that
  round.
\<close>

theorem run_votes_safe:
  assumes "engine_run H par rnd cfg sc s acts" "static_ok cfg sc" "auth_block par rnd (c_anchor cfg)"
    and "props_auth par rnd s"
  shows "(\<forall>v p v' p'. GVote v p \<in> set (signings s) \<longrightarrow> GVote v' p' \<in> set (signings s)
        \<longrightarrow> bi_round (p_block p) = bi_round (p_block p') \<longrightarrow> bi_hash (p_block p) = bi_hash (p_block p'))
    \<and> (\<forall>v p. GVote v p \<in> set (signings s) \<longrightarrow> safe_to_vote p \<and> bi_parent (p_block p) = qc_block (p_qc p)
        \<and> bi_round (p_block p) \<le> e_last_voted s \<and> qc_round (p_qc p) \<le> qc_round (e_high_qc s))
    \<and> (\<forall>v r q v' p. GTimeout v r q \<in> set (signings s) \<longrightarrow> GVote v' p \<in> set (signings s)
        \<longrightarrow> bi_round (p_block p) \<le> r \<longrightarrow> qc_round (p_qc p) \<le> q)"
proof (intro conjI)
  have l: "log_ok par rnd cfg sc (qc_round (e_high_qc s)) (e_last_voted s) (signings s)"
    using run_ok [OF assms] by (auto simp: inv_def)
  show "\<forall>v p v' p'. GVote v p \<in> set (signings s) \<longrightarrow> GVote v' p' \<in> set (signings s)
        \<longrightarrow> bi_round (p_block p) = bi_round (p_block p') \<longrightarrow> bi_hash (p_block p) = bi_hash (p_block p')"
    using l unfolding log_ok_def votes_agree_def by blast
  show "\<forall>v p. GVote v p \<in> set (signings s) \<longrightarrow> safe_to_vote p \<and> bi_parent (p_block p) = qc_block (p_qc p)
        \<and> bi_round (p_block p) \<le> e_last_voted s \<and> qc_round (p_qc p) \<le> qc_round (e_high_qc s)"
    using l unfolding log_ok_def vote_ok_def good_prop_def by blast
  show "\<forall>v r q v' p. GTimeout v r q \<in> set (signings s) \<longrightarrow> GVote v' p \<in> set (signings s)
        \<longrightarrow> bi_round (p_block p) \<le> r \<longrightarrow> qc_round (p_qc p) \<le> q"
    using l unfolding log_ok_def reports_ok_def by blast
qed

theorem run_votes_safe_witness:
  "engine_run (\<lambda>_. 0) demo_par demo_rnd demo_cfg (ideal_scheme demo_says) demo_s3 (n_acts demo_net 0)
    \<and> GVote 0 (demo_prop 1) \<in> set (signings demo_s3) \<and> safe_to_vote (demo_prop 1)"
proof -
  have v: "GVote 0 (demo_prop 1) \<in> set (signings demo_s3)" by (simp add: demo_log)
  have i: "(0 :: validator_index) \<in> members (n_validators demo_net) - n_faulty demo_net"
    by (simp add: demo_net_def members_def vs_equal_def)
  have "props_auth demo_par demo_rnd demo_s3"
    using demo_correct [of 0] by (simp add: correct_engine_def Let_def demo_net_def)
  moreover have "static_ok demo_cfg (ideal_scheme demo_says)"
    using correct_engine_inv(1) [OF demo_net_ok i] by (simp add: inv_def demo_net_def demo_log)
  moreover have "auth_block demo_par demo_rnd (c_anchor demo_cfg)"
    by (simp add: auth_block_def demo_par_def demo_rnd_def)
  ultimately have "safe_to_vote (demo_prop 1)" using run_votes_safe [OF demo_run] v by blast
  with demo_run v show ?thesis by blast
qed

text \<open>
  C3. Progress is monotone. Whatever the input, an engine's round, last voted round, highest
  certificate round and committed height never go down, it never leaves the finished state, and its
  log of signatures only grows. Every signature it adds, a vote, a timeout or a proposal, is for a
  round between its round before the input and its round after it. A vote is moreover strictly above
  the last voted round before the input and not above the one after it. A timeout is not above the
  last voted round after the input (it may repeat a round already voted or timed out in), and reports
  at least the highest certificate held before the input.
\<close>

theorem step_monotone:
  assumes "step H f i s = Some s'"
  shows "e_round s \<le> e_round s' \<and> e_last_voted s \<le> e_last_voted s'
    \<and> qc_round (e_high_qc s) \<le> qc_round (e_high_qc s') \<and> bi_height (e_committed s) \<le> bi_height (e_committed s')
    \<and> (e_finished s \<longrightarrow> e_finished s')
    \<and> (\<exists>d. signings s' = signings s @ d
        \<and> (\<forall>g \<in> set d. e_round s \<le> signing_round g \<and> signing_round g \<le> e_round s')
        \<and> (\<forall>v p. GVote v p \<in> set d \<longrightarrow>
             e_last_voted s < bi_round (p_block p) \<and> bi_round (p_block p) \<le> e_last_voted s')
        \<and> (\<forall>v r q. GTimeout v r q \<in> set d \<longrightarrow> qc_round (e_high_qc s) \<le> q \<and> r \<le> e_last_voted s'))"
  using evolves_step [OF assms] unfolding evolves_def by blast

theorem step_monotone_witness:
  "step (\<lambda>_. 0) 1 (IProposed (demo_block 12) (demo_qc 1) None []) demo_s2 = Some demo_s3
    \<and> e_round demo_s2 \<le> e_round demo_s3 \<and> bi_height (e_committed demo_s2) \<le> bi_height (e_committed demo_s3)"
  using step_monotone [OF demo_step3] demo_step3 by blast

end
