(* ===== verification/Forks.thy ===== *)
theory Forks
  imports Prelude
begin

text \<open>
  Hard forks and fork ids (\<^verbatim>\<open>crates/primitives/src/forks.rs\<close>): the fork table of a chain, which rules
  apply at a height, and the EIP-2124 check two peers run on each other's fork id. The bytecode that
  the testnet's forks install is generated by the contract build and is the parameter \<open>code\<close>, from
  file name to bytes.
\<close>

subsection \<open>Fork tables\<close>

record irregular_change =
  ic_address :: address
  ic_code :: "byte list option"
  ic_storage :: "(b256 \<times> b256) list"

record fork =
  f_name :: string
  f_activation :: u64
  f_changes :: "irregular_change list"

definition TESTNET_CHAIN_ID :: u64 where "TESTNET_CHAIN_ID = 8018"
definition SWARM :: string where "SWARM = ''swarm''"
definition TEE :: string where "TEE = ''tee''"
definition TESTNET_SWARM_ACTIVATION :: u64 where "TESTNET_SWARM_ACTIVATION = 2401"
definition TESTNET_TEE_ACTIVATION :: u64 where "TESTNET_TEE_ACTIVATION = 233401"

definition install :: "address \<Rightarrow> byte list \<Rightarrow> irregular_change" where
  "install addr code = \<lparr>ic_address = addr, ic_code = Some code, ic_storage = []\<rparr>"

definition TESTNET_FORKS :: "(string \<Rightarrow> byte list) \<Rightarrow> fork list" where
  "TESTNET_FORKS code =
     [\<lparr>f_name = SWARM, f_activation = TESTNET_SWARM_ACTIVATION,
       f_changes = [\<lparr>ic_address = 0xB017000000000000000000000000000000000005,
          ic_code = Some (code ''8018-swarm/SwarmStorage.bin''), ic_storage = []\<rparr>]\<rparr>,
      \<lparr>f_name = TEE, f_activation = TESTNET_TEE_ACTIVATION,
       f_changes =
         [install 0xB017000000000000000000000000000000000006 (code ''8018-tee/ComputeMarket.bin''),
          install 0xB017000000000000000000000000000000000007 (code ''8018-tee/ModelRegistry.bin''),
          install 0xB017000000000000000000000000000000000008 (code ''8018-tee/ImageRegistry.bin''),
          install 0xB017000000000000000000000000000000000009 (code ''8018-tee/TeeCollateral.bin''),
          install 0xB01700000000000000000000000000000000000A (code ''8018-tee/TdxVerifier.bin''),
          install 0xB01700000000000000000000000000000000000B (code ''8018-tee/EnclaveLease.bin''),
          install 0xB01700000000000000000000000000000000000C (code ''8018-tee/LimitedWallet.bin'')]\<rparr>]"

definition forks :: "(string \<Rightarrow> byte list) \<Rightarrow> u64 \<Rightarrow> fork list" where
  "forks code chain_id = (if chain_id = TESTNET_CHAIN_ID then TESTNET_FORKS code else [])"

definition active :: "(string \<Rightarrow> byte list) \<Rightarrow> u64 \<Rightarrow> string \<Rightarrow> u64 \<Rightarrow> bool" where
  "active code chain_id feature number =
     (case find (\<lambda>f. f_name f = feature) (forks code chain_id) of
        Some f \<Rightarrow> number \<ge> f_activation f
      | None \<Rightarrow> True)"

subsection \<open>Fork ids\<close>

record fork_id =
  fi_hash :: "byte list"
  fi_next :: u64

definition crc32_bit :: "u32 \<Rightarrow> u32" where
  "crc32_bit crc = (if crc AND 1 \<noteq> 0 then drop_bit 1 crc XOR 0xEDB88320 else drop_bit 1 crc)"

definition crc32_byte :: "byte \<Rightarrow> u32 \<Rightarrow> u32" where
  "crc32_byte b crc = (crc32_bit ^^ 8) (crc XOR ucast b)"

definition crc32_update :: "u32 \<Rightarrow> byte list \<Rightarrow> u32" where
  "crc32_update crc data = NOT (fold crc32_byte data (NOT crc))"

fun hashes_from :: "u32 \<Rightarrow> u64 list \<Rightarrow> byte list list" where
  "hashes_from crc [] = []"
| "hashes_from crc (a # as) = (let crc = crc32_update crc (be64 a) in be32 crc # hashes_from crc as)"

definition hashes :: "b256 \<Rightarrow> u64 list \<Rightarrow> byte list list" where
  "hashes genesis acts = (let crc = crc32_update 0 (be256 genesis) in be32 crc # hashes_from crc acts)"

definition activations :: "fork list \<Rightarrow> u64 list" where
  "activations fs = remdups_adj (sort (filter (\<lambda>a. a > 0 \<and> a \<noteq> -1) (map f_activation fs)))"

definition passed_at :: "u64 list \<Rightarrow> u64 \<Rightarrow> nat" where
  "passed_at acts head = length (takeWhile (\<lambda>a. a \<le> head) acts)"

definition fork_id_at :: "b256 \<Rightarrow> fork list \<Rightarrow> u64 \<Rightarrow> fork_id" where
  "fork_id_at genesis fs head =
     (let acts = activations fs; passed = passed_at acts head in
      \<lparr>fi_hash = hashes genesis acts ! passed,
       fi_next = (if passed < length acts then acts ! passed else 0)\<rparr>)"

datatype compatibility = Compatible | PeerKnowsNewerFork | Incompatible

fun position :: "'a \<Rightarrow> 'a list \<Rightarrow> nat option" where
  "position x [] = None"
| "position x (y # ys) = (if y = x then Some 0 else map_option Suc (position x ys))"

definition check_fork :: "b256 \<Rightarrow> fork list \<Rightarrow> u64 \<Rightarrow> fork_id \<Rightarrow> compatibility" where
  "check_fork genesis fs head remote =
     (let acts = activations fs;
          all = hashes genesis acts;
          passed = passed_at acts head
      in
      if fi_hash remote = all ! passed then
        (if fi_next remote \<noteq> 0 \<and> head \<ge> fi_next remote then Incompatible
         else if fi_next remote \<noteq> 0 \<and> fi_next remote \<notin> set acts then PeerKnowsNewerFork
         else Compatible)
      else
        (case position (fi_hash remote) (take passed all) of
           Some i \<Rightarrow> if fi_next remote = acts ! i then Compatible else Incompatible
         | None \<Rightarrow> if fi_hash remote \<in> set (drop (passed + 1) all) then Compatible else Incompatible))"

subsection \<open>Lemmas\<close>

text \<open>The table-driven CRC is a stream: hashing in pieces is hashing the concatenation.\<close>

lemma crc32_append: "crc32_update (crc32_update c a) b = crc32_update c (a @ b)"
  by (simp add: crc32_update_def)

text \<open>The CRC on natural numbers, where \<open>simp\<close> can compute it.\<close>

definition crc_bit_nat :: "nat \<Rightarrow> nat" where
  "crc_bit_nat n = (if odd n then (n div 2) XOR 0xEDB88320 else n div 2)"

definition crc_byte_nat :: "nat \<Rightarrow> nat \<Rightarrow> nat" where
  "crc_byte_nat b n = (crc_bit_nat ^^ 8) (n XOR b)"

lemma unat_crc32_bit: "unat (crc32_bit w) = crc_bit_nat (unat w)"
proof -
  have "odd (unat w) \<longleftrightarrow> odd w" using bit_unsigned_iff [of w 0, where ?'a = nat] by (simp add: bit_0)
  then have "w AND 1 \<noteq> 0 \<longleftrightarrow> odd (unat w)" by (simp add: and_one_eq mod2_eq_if)
  moreover have "unat (drop_bit 1 w) = unat w div 2" unfolding unat_drop_bit_eq by (simp add: drop_bit_eq_div)
  ultimately show ?thesis by (simp add: crc32_bit_def crc_bit_nat_def unsigned_xor_eq)
qed

lemma unat_crc32_byte: "unat (crc32_byte b w) = crc_byte_nat (unat b) (unat w)"
proof -
  have "unat ((crc32_bit ^^ n) v) = (crc_bit_nat ^^ n) (unat v)" for n v
    by (induction n) (simp_all add: unat_crc32_bit)
  then show ?thesis
    by (simp add: crc32_byte_def crc_byte_nat_def unsigned_xor_eq unsigned_ucast_eq
        take_bit_nat_eq_self [OF less_trans [OF unsigned_less]])
qed

lemma unat_crc32_update:
  "unat (crc32_update c bs) = 0xFFFFFFFF - fold crc_byte_nat (map unat bs) (0xFFFFFFFF - unat c)"
proof -
  have fold: "unat (fold crc32_byte xs w) = fold crc_byte_nat (map unat xs) (unat w)" for xs w
    by (induction xs arbitrary: w) (simp_all add: unat_crc32_byte)
  have not: "unat (NOT w) = 0xFFFFFFFF - unat w" for w :: u32
  proof -
    have "unat (-1 - w) = unat (-1 :: u32) - unat w" by (rule unat_sub) simp
    moreover have "NOT w = -1 - w" by (simp add: not_eq_complement)
    ultimately show ?thesis by (simp only: unsigned_minus_1_eq_mask) (simp add: mask_eq_exp_minus_1)
  qed
  show ?thesis by (simp add: crc32_update_def fold not)
qed

lemma crc_byte_unfold:
  "crc_byte_nat b n = crc_bit_nat (crc_bit_nat (crc_bit_nat (crc_bit_nat
     (crc_bit_nat (crc_bit_nat (crc_bit_nat (crc_bit_nat (n XOR b))))))))"
  by (simp add: crc_byte_nat_def numeral_eq_Suc)

lemma crc32_standard: "crc32_update 0 [0x31, 0x32, 0x33, 0x34, 0x35, 0x36, 0x37, 0x38, 0x39] = 0xCBF43926"
  by (simp add: word_unat_eq_iff unat_crc32_update crc_byte_unfold crc_bit_nat_def)

lemma length_hashes [simp]: "length (hashes g acts) = Suc (length acts)"
proof -
  have "length (hashes_from c acts) = length acts" for c by (induction acts arbitrary: c) (simp_all add: Let_def)
  then show ?thesis by (simp add: hashes_def Let_def)
qed

text \<open>A longer table only appends hashes.\<close>

lemma hashes_from_append:
  "hashes_from c (a @ b) = hashes_from c a @ hashes_from (crc32_update c (concat (map be64 a))) b"
  by (induction a arbitrary: c) (simp_all add: Let_def crc32_append, simp add: crc32_update_def)

lemma hashes_prefix: "take (Suc (length a)) (hashes g (a @ b)) = hashes g a"
proof -
  have "length (hashes_from c a) = length a" for c by (induction a arbitrary: c) (simp_all add: Let_def)
  then show ?thesis by (simp add: hashes_def Let_def hashes_from_append)
qed

lemma hashes_nth_prefix: "i \<le> length a \<Longrightarrow> hashes g (a @ b) ! i = hashes g a ! i"
  by (metis hashes_prefix le_imp_less_Suc nth_take)

lemma passed_le [simp]: "passed_at acts h \<le> length acts"
  by (simp add: passed_at_def length_takeWhile_le)

lemma sorted_activations: "sorted (activations fs) \<and> distinct (activations fs)"
  unfolding activations_def by (simp add: sorted_remdups_adj distinct_dedup)

lemma activations_pos: "a \<in> set (activations fs) \<Longrightarrow> a \<noteq> 0"
  by (auto simp: activations_def)

text \<open>The activations passed are those up to the head; the next one is above it.\<close>

lemma passed_next: "passed_at acts h < length acts \<Longrightarrow> h < acts ! passed_at acts h"
  unfolding passed_at_def using nth_length_takeWhile [of "\<lambda>a. a \<le> h" acts] by auto

lemma passed_all:
  "passed_at acts h = length acts \<longleftrightarrow> (\<forall>a \<in> set acts. a \<le> h)"
proof -
  have "length (takeWhile P xs) = length xs \<longleftrightarrow> (\<forall>x \<in> set xs. P x)" for P and xs :: "u64 list"
    by (induction xs) auto
  then show ?thesis by (simp add: passed_at_def)
qed

lemma position_distinct: "distinct xs \<Longrightarrow> i < length xs \<Longrightarrow> position (xs ! i) xs = Some i"
proof (induction xs arbitrary: i)
  case (Cons x xs)
  show ?case
  proof (cases i)
    case (Suc j)
    with Cons have "x \<noteq> xs ! j" by (metis distinct.simps(2) length_Cons not_less_eq nth_mem)
    with Suc Cons show ?thesis by simp
  qed simp
qed simp

lemma position_None: "position x xs = None \<longleftrightarrow> x \<notin> set xs"
  by (induction xs) auto

lemma nth_mem_drop: "n \<le> i \<Longrightarrow> i < length xs \<Longrightarrow> xs ! i \<in> set (drop n xs)"
  unfolding in_set_conv_nth by (intro exI [of _ "i - n"]) simp

subsection \<open>Properties\<close>

lemma check_self: "check_fork g fs h (fork_id_at g fs h) = Compatible"
  using passed_next [of "activations fs" h] activations_pos [of _ fs]
  by (auto simp: check_fork_def fork_id_at_def Let_def not_le nth_mem)

text \<open>
  C23. Peers with one fork table accept each other at any pair of heights, as long as the fork hashes
  of the table differ (CRC32 values may collide); at equal heights they always do.
\<close>

theorem fork_peers_compatible:
  "check_fork g fs h (fork_id_at g fs h) = Compatible
   \<and> (distinct (hashes g (activations fs)) \<longrightarrow> check_fork g fs h (fork_id_at g fs h') = Compatible)"
proof (intro conjI impI)
  show "check_fork g fs h (fork_id_at g fs h) = Compatible" by (rule check_self)
  assume d: "distinct (hashes g (activations fs))"
  let ?acts = "activations fs" and ?all = "hashes g (activations fs)"
  let ?p = "passed_at ?acts h" and ?p' = "passed_at ?acts h'"
  have len: "?p < length ?all" "?p' < length ?all" by (simp_all add: le_imp_less_Suc)
  have hash: "fi_hash (fork_id_at g fs h') = ?all ! ?p'" by (simp add: fork_id_at_def Let_def)
  consider "?p' = ?p" | "?p' < ?p" | "?p < ?p'" by linarith
  then show "check_fork g fs h (fork_id_at g fs h') = Compatible"
  proof cases
    case 1
    then have "fork_id_at g fs h' = fork_id_at g fs h" by (simp add: fork_id_at_def Let_def)
    then show ?thesis by (simp add: check_self)
  next
    case 2
    then have ne: "?all ! ?p' \<noteq> ?all ! ?p" using d len by (simp add: nth_eq_iff_index_eq)
    have "position (?all ! ?p') (take ?p ?all) = Some ?p'"
      using position_distinct [of "take ?p ?all" ?p'] 2 d len by simp
    moreover have "fi_next (fork_id_at g fs h') = ?acts ! ?p'"
      using less_le_trans [OF 2 passed_le] by (simp add: fork_id_at_def Let_def)
    ultimately show ?thesis using ne by (simp add: check_fork_def Let_def hash)
  next
    case 3
    then have ne: "?all ! ?p' \<noteq> ?all ! ?p" using d len by (simp add: nth_eq_iff_index_eq)
    have "?all ! ?p' \<notin> set (take ?p ?all)"
    proof
      assume "?all ! ?p' \<in> set (take ?p ?all)"
      then obtain i where "i < ?p" "?all ! i = ?all ! ?p'" by (auto simp: in_set_conv_nth)
      with d len 3 show False by (simp add: nth_eq_iff_index_eq)
    qed
    moreover have "?all ! ?p' \<in> set (drop (?p + 1) ?all)" using 3 len by (intro nth_mem_drop) simp_all
    ultimately show ?thesis
      using ne by (simp add: check_fork_def Let_def hash position_None [symmetric])
  qed
qed

theorem fork_peers_compatible_witness:
  "distinct (hashes 0 (activations ([] :: fork list)))
    \<and> check_fork 0 [] 5 (fork_id_at 0 [] 999) = Compatible"
proof -
  have d: "distinct (hashes 0 (activations ([] :: fork list)))" by (simp add: hashes_def activations_def Let_def)
  with fork_peers_compatible [of 0 "[]" 5 999] show ?thesis by blast
qed

lemma passed_at_prefix: "\<forall>x \<in> set xs. x \<le> h \<Longrightarrow> passed_at (xs @ ys) h = length xs + passed_at ys h"
  by (simp add: passed_at_def)

text \<open>
  C24. Stale software is told apart, but only once it has stopped upgrading. Let the peer's table be
  ours without some last forks, let us have passed the first fork it lacks, and let the fork hashes of
  our table be distinct. The peer is incompatible when it has passed every fork it knows. While it is
  still syncing below one of them, it announces a fork that we share as its next one and is taken for
  compatible.
\<close>

theorem fork_peer_stale:
  assumes d: "distinct (hashes g (activations ours))"
    and acts: "activations ours = activations theirs @ a # rest"
    and a: "a \<le> h"
  shows "check_fork g ours h (fork_id_at g theirs h') =
    (if \<forall>x \<in> set (activations theirs). x \<le> h' then Incompatible else Compatible)"
proof -
  let ?n = "length (activations theirs)" and ?k = "passed_at (activations theirs) h'"
    and ?all = "hashes g (activations ours)" and ?p = "passed_at (activations ours) h"
  have sorted: "sorted (activations theirs @ a # rest)" using sorted_activations [of ours] acts by simp
  then have "\<forall>x \<in> set (activations theirs). x \<le> h" using a by (auto simp: sorted_append)
  from passed_at_prefix [OF this] have n: "?n < ?p" using a by (simp add: acts passed_at_def)
  have kn: "?k \<le> ?n" by simp
  have k: "?k < ?p" using n by (rule le_less_trans [OF passed_le])
  have len: "?p < length ?all" by (simp add: le_imp_less_Suc)
  have id: "fork_id_at g theirs h' = \<lparr>fi_hash = ?all ! ?k, fi_next = (if ?k < ?n then activations theirs ! ?k else 0)\<rparr>"
    using hashes_nth_prefix [OF kn, of g] by (simp add: fork_id_at_def Let_def acts)
  have ne: "?all ! ?k \<noteq> ?all ! ?p" using d len k by (simp add: nth_eq_iff_index_eq)
  have pos: "position (?all ! ?k) (take ?p ?all) = Some ?k"
    using position_distinct [of "take ?p ?all" ?k] k d len by simp
  have all: "(\<forall>x \<in> set (activations theirs). x \<le> h') \<longleftrightarrow> \<not> ?k < ?n"
    unfolding passed_all [symmetric] using kn by linarith
  have nx: "activations ours ! ?k = (if ?k < ?n then activations theirs ! ?k else a)"
    using kn by (simp add: acts nth_append)
  have "a \<noteq> 0" using activations_pos [of a ours] by (simp add: acts)
  then show ?thesis unfolding all using ne pos nx by (simp add: check_fork_def Let_def id)
qed

definition toy_fork :: "u64 \<Rightarrow> fork" where
  "toy_fork a = \<lparr>f_name = ''f'', f_activation = a, f_changes = []\<rparr>"

lemma toy_hashes: "hashes 0 [100, 200] = map be32 [420107693, 2738067696, 1723345343]"
proof -
  have rep: "nat_be n 0 = replicate n 0" for n by (induction n) (simp_all add: replicate_append_same)
  have z: "map unat (be256 0) = [0, 0, 0, 0, 0, 0, 0, 0, 0, 0, 0, 0, 0, 0, 0, 0,
      0, 0, 0, 0, 0, 0, 0, 0, 0, 0, 0, 0, 0, 0, 0, 0]"
    unfolding be256_def by (simp add: rep) (simp add: numeral_eq_Suc)
  have "nat_be 7 0 = [0, 0, 0, 0, 0, 0, 0]" unfolding rep by (simp add: numeral_eq_Suc)
  then have h: "map unat (be64 100) = [0, 0, 0, 0, 0, 0, 0, 100]" "map unat (be64 200) = [0, 0, 0, 0, 0, 0, 0, 200]"
    using nat_be.simps(2) [of 7 100] nat_be.simps(2) [of 7 200] by (simp_all add: be64_def)
  have c: "unat (crc32_update 0 (be256 0)) = 420107693"
    by (simp add: unat_crc32_update z crc_byte_unfold crc_bit_nat_def)
  have c1: "unat (crc32_update (crc32_update 0 (be256 0)) (be64 100)) = 2738067696"
    by (simp add: unat_crc32_update [of "crc32_update 0 (be256 0)"] c h crc_byte_unfold crc_bit_nat_def)
  have c2: "unat (crc32_update (crc32_update (crc32_update 0 (be256 0)) (be64 100)) (be64 200)) = 1723345343"
    by (simp add: unat_crc32_update [of "crc32_update (crc32_update 0 (be256 0)) (be64 100)"] c1 h
        crc_byte_unfold crc_bit_nat_def)
  show ?thesis using c c1 c2 by (simp add: hashes_def Let_def word_unat_eq_iff)
qed

lemma toy_activations:
  "activations [toy_fork 100] = [100]" "activations [] = []" "activations [toy_fork 100, toy_fork 200] = [100, 200]"
  by (simp_all add: activations_def toy_fork_def)

theorem fork_peer_stale_witness:
  "check_fork 0 [toy_fork 100, toy_fork 200] 250 (fork_id_at 0 [toy_fork 100] 150) = Incompatible
    \<and> check_fork 0 [toy_fork 100, toy_fork 200] 250 (fork_id_at 0 [toy_fork 100] 50) = Compatible"
proof -
  have "distinct (hashes 0 (activations [toy_fork 100, toy_fork 200]))"
    by (simp add: toy_activations toy_hashes)
  from fork_peer_stale [OF this, of "[toy_fork 100]" 200 "[]" 250]
  show ?thesis by (simp add: toy_activations word_le_nat_alt)
qed

text \<open>
  Newer software is told apart: a peer that schedules one more fork than we know, above both
  heads, is reported as such once both sides passed all forks they share.
\<close>

theorem fork_peer_newer:
  assumes "activations theirs = activations ours @ [a]" "h < a" "h' < a"
    and "\<forall>x \<in> set (activations ours). x \<le> h \<and> x \<le> h'"
  shows "check_fork g ours h (fork_id_at g theirs h') = PeerKnowsNewerFork"
proof -
  let ?k = "length (activations ours)"
  have p: "passed_at (activations ours) h = ?k" "passed_at (activations ours @ [a]) h' = ?k"
    using assms(2-4) passed_all [of "activations ours" h] passed_at_prefix [of "activations ours" h' "[a]"]
    by (simp_all add: passed_at_def)
  have "a \<notin> set (activations ours)" using sorted_activations [of theirs] assms(1) by simp
  moreover have "a \<noteq> 0" using activations_pos [of a theirs] assms(1) by simp
  ultimately show ?thesis
    using assms(2) hashes_nth_prefix [of ?k "activations ours" g "[a]"]
    by (simp add: check_fork_def fork_id_at_def Let_def p assms(1) not_le)
qed

theorem fork_peer_newer_witness:
  "activations [toy_fork 100] = activations [] @ [100] \<and> (50 :: u64) < 100
    \<and> check_fork 7 [] 50 (fork_id_at 7 [toy_fork 100] 60) = PeerKnowsNewerFork"
proof -
  have "check_fork 7 [] 50 (fork_id_at 7 [toy_fork 100] 60) = PeerKnowsNewerFork"
    by (rule fork_peer_newer [where a = 100]) (simp_all add: toy_activations)
  then show ?thesis by (simp add: toy_activations)
qed

end
