(* ===== verification/Params.thy ===== *)
theory Params
  imports Prelude
begin

text \<open>
  Protocol constants and the arithmetic on them (\<^verbatim>\<open>crates/primitives/src/params.rs\<close>): emission eras,
  block rewards, shares in basis points; and the block gas limit rules of
  \<^verbatim>\<open>crates/chain/src/lib.rs\<close>. \<open>U256\<close> products wrap as in the \<^verbatim>\<open>ruint\<close> operators.
\<close>

subsection \<open>Constants\<close>

definition WEI_PER_BOLT :: u256 where "WEI_PER_BOLT = 1000000000000000000"
definition INITIAL_BLOCK_REWARD_BOLT :: u64 where "INITIAL_BLOCK_REWARD_BOLT = 32"
definition STORAGE_BLOCK_REWARD_BOLT :: u64 where "STORAGE_BLOCK_REWARD_BOLT = 1"
definition TAIL_CONSENSUS_REWARD_BOLT :: u64 where "TAIL_CONSENSUS_REWARD_BOLT = 1"
definition HALVING_SECONDS :: u64 where "HALVING_SECONDS = 4 * 365 * 86400"
definition GAS_LIMIT_MIN :: u64 where "GAS_LIMIT_MIN = 15000000"
definition GAS_LIMIT_MAX :: u64 where "GAS_LIMIT_MAX = 60000000"
definition MAX_REORG_DEPTH :: u64 where "MAX_REORG_DEPTH = 128"

lemmas param_defs = WEI_PER_BOLT_def INITIAL_BLOCK_REWARD_BOLT_def STORAGE_BLOCK_REWARD_BOLT_def
  TAIL_CONSENSUS_REWARD_BOLT_def HALVING_SECONDS_def GAS_LIMIT_MIN_def GAS_LIMIT_MAX_def

subsection \<open>Emission\<close>

definition emission_era :: "u64 \<Rightarrow> u64 \<Rightarrow> u64" where
  "emission_era genesis_timestamp timestamp = saturating_sub timestamp genesis_timestamp div HALVING_SECONDS"

definition consensus_reward :: "u64 \<Rightarrow> u256" where
  "consensus_reward era =
     (let total = drop_bit (unat (min era 63)) INITIAL_BLOCK_REWARD_BOLT;
          bolt = max (saturating_sub total STORAGE_BLOCK_REWARD_BOLT) TAIL_CONSENSUS_REWARD_BOLT
      in ucast bolt * WEI_PER_BOLT)"

definition storage_reward :: u256 where
  "storage_reward = ucast STORAGE_BLOCK_REWARD_BOLT * WEI_PER_BOLT"

definition share :: "u256 \<Rightarrow> u32 \<Rightarrow> u256" where
  "share amount bps = amount * ucast bps div 10000"

subsection \<open>Gas limit\<close>

definition clamp :: "'a::linorder \<Rightarrow> 'a \<Rightarrow> 'a \<Rightarrow> 'a" where
  "clamp x lo hi = (if x < lo then lo else if x > hi then hi else x)"

definition abs_diff :: "u64 \<Rightarrow> u64 \<Rightarrow> u64" where
  "abs_diff a b = (if a < b then b - a else a - b)"

definition valid_gas_limit :: "u64 \<Rightarrow> u64 \<Rightarrow> bool" where
  "valid_gas_limit parent_gas_limit gas_limit =
     (let max_delta = parent_gas_limit div 1024 in
      GAS_LIMIT_MIN \<le> gas_limit \<and> gas_limit \<le> GAS_LIMIT_MAX
      \<and> abs_diff gas_limit parent_gas_limit < max max_delta 1)"

definition next_gas_limit :: "u64 \<Rightarrow> u64 \<Rightarrow> u64" where
  "next_gas_limit parent_gas_limit target =
     (let step = saturating_sub (parent_gas_limit div 1024) 1;
          target = (if target = 0 then parent_gas_limit else target);
          target = clamp target GAS_LIMIT_MIN GAS_LIMIT_MAX;
          nxt = (if target > parent_gas_limit
                 then parent_gas_limit + min step (target - parent_gas_limit)
                 else parent_gas_limit - min step (parent_gas_limit - target))
      in clamp nxt GAS_LIMIT_MIN GAS_LIMIT_MAX)"

subsection \<open>Lemmas\<close>

lemma unat_min: "unat (min a b) = min (unat a) (unat b)"
  by (simp add: min_def word_le_nat_alt)

lemma unat_max: "unat (max a b) = max (unat a) (unat b)"
  by (simp add: max_def word_le_nat_alt)

lemma unat_drop_bit: "unat (drop_bit n w) = unat w div 2 ^ n"
  unfolding unat_drop_bit_eq by (simp add: drop_bit_eq_div)

lemma total_reward: "unat (drop_bit (unat (min era 63)) (32 :: u64)) = 32 div 2 ^ unat (era :: u64)"
proof -
  have "unat (drop_bit (unat (min era 63)) (32 :: u64)) = 32 div 2 ^ min (unat era) 63"
    by (simp only: unat_drop_bit unat_min) simp
  moreover have "(32::nat) div 2 ^ min (unat era) 63 = 32 div 2 ^ unat era"
  proof (cases "unat era \<le> 63")
    case False
    then have "(2::nat) ^ 63 \<le> 2 ^ unat era" by (intro power_increasing) simp_all
    then have "(32::nat) < 2 ^ unat era" by simp
    then show ?thesis using False by simp
  qed simp
  ultimately show ?thesis by simp
qed

lemma reward_bolt:
  "unat (max (saturating_sub (drop_bit (unat (min era 63)) (32 :: u64)) 1) 1) + 1 = max 2 (32 div 2 ^ unat (era :: u64))"
  unfolding unat_max unat_saturating_sub total_reward by simp

lemma unat_consensus_reward:
  "unat (consensus_reward era) + 10 ^ 18 = max 2 (32 div 2 ^ unat era) * 10 ^ 18"
proof -
  let ?b = "max (saturating_sub (drop_bit (unat (min era 63)) (32 :: u64)) 1) 1"
  have b: "unat ?b + 1 = max 2 (32 div 2 ^ unat era)" by (rule reward_bolt)
  have "(32::nat) div 2 ^ unat era \<le> 32" by simp
  with b have le: "unat ?b \<le> 31" by linarith
  have u: "unat (ucast ?b :: u256) = unat ?b" using le by (simp add: unsigned_ucast_eq take_bit_nat_eq_self)
  have "unat (ucast ?b * WEI_PER_BOLT) = unat ?b * 10 ^ 18"
    using le by (simp add: unat_word_ariths u param_defs)
  then show ?thesis
    unfolding consensus_reward_def Let_def using b by (simp add: param_defs)
qed

text \<open>The gas limit rules on natural numbers.\<close>

definition gas_ok :: "u64 \<Rightarrow> bool" where
  "gas_ok g \<longleftrightarrow> GAS_LIMIT_MIN \<le> g \<and> g \<le> GAS_LIMIT_MAX"

lemma gas_ok_nat: "gas_ok g \<longleftrightarrow> 15000000 \<le> unat g \<and> unat g \<le> 60000000"
  by (simp add: gas_ok_def param_defs word_le_nat_alt)

definition gas_target :: "u64 \<Rightarrow> u64 \<Rightarrow> u64" where
  "gas_target p t = clamp (if t = 0 then p else t) GAS_LIMIT_MIN GAS_LIMIT_MAX"

lemma gas_target_ok: "gas_ok (gas_target p t)"
  by (auto simp: gas_target_def clamp_def gas_ok_def param_defs)

definition nat_next :: "nat \<Rightarrow> nat \<Rightarrow> nat" where
  "nat_next p t = (if p < t then p + min (p div 1024 - 1) (t - p) else p - min (p div 1024 - 1) (p - t))"

lemma nat_next_range: "lo \<le> p \<Longrightarrow> p \<le> hi \<Longrightarrow> lo \<le> t \<Longrightarrow> t \<le> hi \<Longrightarrow> lo \<le> nat_next p t \<and> nat_next p t \<le> hi"
  by (auto simp: nat_next_def)

lemma unat_div_1024: "unat (p div 1024 :: u64) = unat p div 1024"
  by (simp add: unat_div)

lemma unat_next_gas_limit:
  assumes "gas_ok p"
  shows "unat (next_gas_limit p t) = nat_next (unat p) (unat (gas_target p t))"
proof -
  let ?t = "gas_target p t" and ?st = "saturating_sub (p div 1024) 1"
  let ?n = "if ?t > p then p + min ?st (?t - p) else p - min ?st (p - ?t)"
  have st: "unat ?st = unat p div 1024 - 1" by (simp add: unat_saturating_sub unat_div_1024)
  have r: "unat p \<le> 60000000" "unat ?t \<le> 60000000" "15000000 \<le> unat p" "15000000 \<le> unat ?t"
    using assms gas_target_ok by (simp_all add: gas_ok_nat)
  have "unat ?n = nat_next (unat p) (unat ?t)"
  proof (cases "p < ?t")
    case True
    have d: "unat (?t - p) = unat ?t - unat p" using True by (simp add: unat_sub less_imp_le)
    have "unat (p + min ?st (?t - p)) = unat p + min (unat p div 1024 - 1) (unat ?t - unat p)"
      using r True by (simp add: unat_word_ariths unat_min st d word_less_nat_alt)
    then show ?thesis using True by (simp add: nat_next_def word_less_nat_alt)
  next
    case False
    have d: "unat (p - ?t) = unat p - unat ?t" using False by (simp add: unat_sub)
    have "min ?st (p - ?t) \<le> p" using d by (simp add: word_le_nat_alt unat_min)
    then have "unat (p - min ?st (p - ?t)) = unat p - min (unat p div 1024 - 1) (unat p - unat ?t)"
      by (simp add: unat_sub unat_min st d)
    then show ?thesis using False by (simp add: nat_next_def word_less_nat_alt)
  qed
  moreover from nat_next_range [of 15000000 "unat p" 60000000 "unat ?t"] r calculation
  have "15000000 \<le> unat ?n \<and> unat ?n \<le> 60000000" by simp
  then have "clamp ?n GAS_LIMIT_MIN GAS_LIMIT_MAX = ?n"
    by (simp add: clamp_def param_defs word_less_nat_alt)
  ultimately show ?thesis unfolding next_gas_limit_def Let_def gas_target_def [symmetric] by simp
qed

subsection \<open>Properties\<close>

text \<open>
  C20. The emission schedule: a block pays 32, 16, 8, 4 and then forever 2 BOLT, storage reward
  included, by the era of its timestamp, and never more than an earlier block.
\<close>

theorem emission_schedule:
  "unat (consensus_reward era) + unat storage_reward = max 2 (32 div 2 ^ unat era) * 10 ^ 18
   \<and> (t \<le> t' \<longrightarrow> consensus_reward (emission_era g t') \<le> consensus_reward (emission_era g t))"
proof -
  have "unat storage_reward = 10 ^ 18" by (simp add: storage_reward_def param_defs)
  moreover have "unat (consensus_reward (emission_era g t')) \<le> unat (consensus_reward (emission_era g t))" if "t \<le> t'"
  proof -
    from that have "unat (saturating_sub t g) \<le> unat (saturating_sub t' g)"
      by (simp add: unat_saturating_sub word_le_nat_alt diff_le_mono)
    then have "unat (emission_era g t) \<le> unat (emission_era g t')"
      by (simp add: emission_era_def unat_div div_le_mono)
    then have "(2::nat) ^ unat (emission_era g t) \<le> 2 ^ unat (emission_era g t')" by (rule power_increasing) simp
    then have "(32::nat) div 2 ^ unat (emission_era g t') \<le> 32 div 2 ^ unat (emission_era g t)"
      by (rule div_le_mono2 [rotated]) simp
    then have "max 2 (32 div 2 ^ unat (emission_era g t')) * 10 ^ 18 \<le> (max 2 (32 div 2 ^ unat (emission_era g t)) * 10 ^ 18 :: nat)"
      by (intro mult_le_mono) auto
    with unat_consensus_reward [of "emission_era g t"] unat_consensus_reward [of "emission_era g t'"]
    show ?thesis by linarith
  qed
  ultimately show ?thesis using unat_consensus_reward [of era] by (simp add: word_le_nat_alt)
qed

theorem emission_schedule_witness:
  "(1000 :: u64) \<le> 1000000000
    \<and> consensus_reward (emission_era 0 1000000000) \<le> consensus_reward (emission_era 0 1000)"
  using emission_schedule [of 0 1000 1000000000 0] by simp

text \<open>
  C21. The gas limit a producer chooses always passes the verifier's check, whatever target the
  producer is set to.
\<close>

theorem next_gas_limit_valid:
  assumes "GAS_LIMIT_MIN \<le> p" "p \<le> GAS_LIMIT_MAX"
  shows "valid_gas_limit p (next_gas_limit p t)"
proof -
  let ?n = "next_gas_limit p t"
  from assms have ok: "gas_ok p" by (simp add: gas_ok_def)
  note n = unat_next_gas_limit [OF ok, of t]
  have r: "15000000 \<le> unat p" "unat p \<le> 60000000" "15000000 \<le> unat (gas_target p t)" "unat (gas_target p t) \<le> 60000000"
    using ok gas_target_ok by (simp_all add: gas_ok_nat)
  have "gas_ok ?n" using nat_next_range [of 15000000 "unat p" 60000000] r by (simp add: gas_ok_nat n)
  moreover have "unat (abs_diff ?n p) < unat p div 1024"
  proof -
    have "unat (abs_diff ?n p) = (if unat ?n < unat p then unat p - unat ?n else unat ?n - unat p)"
      by (simp add: abs_diff_def word_less_nat_alt unat_sub not_less word_le_nat_alt)
    also have "\<dots> \<le> unat p div 1024 - 1" unfolding n nat_next_def by auto
    also have "\<dots> < unat p div 1024" using r(1) by (simp add: div_greater_zero_iff)
    finally show ?thesis .
  qed
  ultimately show ?thesis
    by (simp add: valid_gas_limit_def Let_def gas_ok_def word_less_nat_alt unat_max unat_div_1024)
qed

theorem next_gas_limit_valid_witness:
  "GAS_LIMIT_MIN \<le> 30000000 \<and> (30000000 :: u64) \<le> GAS_LIMIT_MAX
    \<and> valid_gas_limit 30000000 (next_gas_limit 30000000 60000000)"
  using next_gas_limit_valid [of 30000000 60000000] by (simp add: param_defs)

text \<open>One step closes the distance to the target by at least 14647 gas, or reaches it.\<close>

definition gas_gap :: "nat \<Rightarrow> nat \<Rightarrow> nat" where
  "gas_gap a b = (a - b) + (b - a)"

lemma nat_next_gap:
  assumes "15000000 \<le> p"
  shows "gas_gap (nat_next p t) t \<le> gas_gap p t - 14647"
proof -
  define q where "q = p div 1024 - 1"
  have "14647 \<le> q" using div_le_mono [OF assms, of 1024] by (simp add: q_def)
  then show ?thesis unfolding nat_next_def q_def [symmetric] gas_gap_def by (simp add: min_def diff_le_mono2)
qed

lemma gas_gap_iterate:
  assumes "t \<noteq> 0" "gas_ok p"
  shows "gas_ok (((\<lambda>g. next_gas_limit g t) ^^ n) p)
    \<and> gas_gap (unat (((\<lambda>g. next_gas_limit g t) ^^ n) p)) (unat (gas_target p t)) \<le> 45000000 - n * 14647"
proof (induction n)
  case 0
  have "gas_ok p" "gas_ok (gas_target p t)" using assms gas_target_ok by auto
  then show ?case by (auto simp: gas_ok_nat gas_gap_def)
next
  case (Suc n)
  let ?g = "((\<lambda>g. next_gas_limit g t) ^^ n) p"
  from Suc have ok: "gas_ok ?g" by simp
  have t: "gas_target ?g t = gas_target p t" using assms(1) by (simp add: gas_target_def)
  have r: "15000000 \<le> unat ?g" "unat ?g \<le> 60000000" using ok by (simp_all add: gas_ok_nat)
  have "gas_ok (next_gas_limit ?g t)"
    using nat_next_range [of 15000000 "unat ?g" 60000000] r gas_target_ok [of ?g t]
    by (simp add: gas_ok_nat unat_next_gas_limit [OF ok])
  moreover have "gas_gap (unat (next_gas_limit ?g t)) (unat (gas_target p t)) \<le> 45000000 - Suc n * 14647"
    unfolding unat_next_gas_limit [OF ok] t 
    using nat_next_gap [OF r(1), of "unat (gas_target p t)"] conjunct2 [OF Suc] by simp
  ultimately show ?case by simp
qed

text \<open>
  C22. Every producer set to one non-zero target moves the gas limit there: from any limit in the
  allowed range, after at most 3073 blocks the limit is the target (clamped to the range), and it
  stays there.
\<close>

theorem gas_limit_converges:
  assumes "GAS_LIMIT_MIN \<le> p" "p \<le> GAS_LIMIT_MAX" "t \<noteq> 0" "3073 \<le> n"
  shows "((\<lambda>g. next_gas_limit g t) ^^ n) p = clamp t GAS_LIMIT_MIN GAS_LIMIT_MAX"
proof -
  have ok: "gas_ok p" using assms by (simp add: gas_ok_def)
  have "45000000 - n * 14647 = 0" using assms(4) by simp
  with gas_gap_iterate [OF assms(3) ok, of n]
  have "unat (((\<lambda>g. next_gas_limit g t) ^^ n) p) = unat (gas_target p t)" by (simp add: gas_gap_def)
  then have "((\<lambda>g. next_gas_limit g t) ^^ n) p = gas_target p t" by (simp add: word_unat_eq_iff)
  then show ?thesis using assms(3) by (simp add: gas_target_def)
qed

theorem gas_limit_converges_witness:
  "GAS_LIMIT_MIN \<le> 30000000 \<and> (30000000 :: u64) \<le> GAS_LIMIT_MAX
    \<and> ((\<lambda>g. next_gas_limit g 60000000) ^^ 3073) 30000000 = 60000000"
proof -
  have "((\<lambda>g. next_gas_limit g 60000000) ^^ 3073) 30000000 = clamp 60000000 GAS_LIMIT_MIN GAS_LIMIT_MAX"
    by (rule gas_limit_converges) (simp_all add: param_defs)
  then show ?thesis by (simp add: param_defs clamp_def)
qed

end
