(* ===== verification/Pow.thy ===== *)
theory Pow
  imports Params
begin

text \<open>
  Proof of work (\<^verbatim>\<open>crates/pow/src/lib.rs\<close>, \<^verbatim>\<open>crates/pow/src/asert.rs\<close>): the key schedule, the seal check,
  the nonce search and the ASERT difficulty rule.

  Parameters stand for what the sources only call: \<open>hh\<close> is \<^verbatim>\<open>Header::hash_slow\<close>, \<open>H\<close> is
  \<^verbatim>\<open>keccak256\<close> and \<open>rx\<close> the RandomX batch hash, which may fail.
\<close>

subsection \<open>Headers\<close>

record header =
  h_parent_hash :: b256
  h_ommers_hash :: b256
  h_beneficiary :: "160 word"
  h_state_root :: b256
  h_transactions_root :: b256
  h_receipts_root :: b256
  h_logs_bloom :: "byte list"
  h_difficulty :: u256
  h_number :: u64
  h_gas_limit :: u64
  h_gas_used :: u64
  h_timestamp :: u64
  h_extra_data :: "byte list"
  h_mix_hash :: b256
  h_nonce :: u64
  h_base_fee :: "u64 option"
  h_withdrawals_root :: "b256 option"
  h_blob_gas_used :: "u64 option"
  h_excess_blob_gas :: "u64 option"
  h_parent_beacon_root :: "b256 option"
  h_requests_hash :: "b256 option"

type_synonym header_hash = "header \<Rightarrow> b256"

subsection \<open>Key schedule and seals\<close>

definition SEED_EPOCH :: u64 where "SEED_EPOCH = 2048"
definition SEED_LAG :: u64 where "SEED_LAG = 64"

definition seed_height :: "u64 \<Rightarrow> u64" where
  "seed_height height =
     (if height \<le> SEED_EPOCH + SEED_LAG then 0
      else (height - SEED_LAG - 1) div SEED_EPOCH * SEED_EPOCH)"

definition seal_hash :: "header_hash \<Rightarrow> header \<Rightarrow> b256" where
  "seal_hash hh header = hh (header\<lparr>h_nonce := 0\<rparr>)"

definition pow_input :: "b256 \<Rightarrow> u64 \<Rightarrow> byte list" where
  "pow_input seal nonce = be256 seal @ be64 nonce"

definition meets :: "b256 \<Rightarrow> u256 \<Rightarrow> bool" where
  "meets pow difficulty = (if difficulty = 0 then False else pow \<le> (-1) div difficulty)"

definition work :: "u256 \<Rightarrow> u256" where
  "work difficulty = difficulty"

datatype algorithm = RandomBolt | Keccak

datatype pow_error = PowError string

type_synonym batch_hash = "b256 \<Rightarrow> byte list list \<Rightarrow> pow_error + b256 list"

definition hash_batch :: "keccak_fn \<Rightarrow> batch_hash \<Rightarrow> algorithm \<Rightarrow> batch_hash" where
  "hash_batch H rx alg key inputs =
     (case alg of
        RandomBolt \<Rightarrow> rx key inputs
      | Keccak \<Rightarrow> Inr (map (\<lambda>i. H (be256 key @ i)) inputs))"

text \<open>\<open>remove(0)\<close> panics on an empty answer: the outer \<open>None\<close>.\<close>

definition pow_hash :: "batch_hash \<Rightarrow> b256 \<Rightarrow> b256 \<Rightarrow> u64 \<Rightarrow> (pow_error + b256) option" where
  "pow_hash hb key seal nonce =
     (case hb key [pow_input seal nonce] of
        Inl e \<Rightarrow> Some (Inl e)
      | Inr [] \<Rightarrow> None
      | Inr (h # _) \<Rightarrow> Some (Inr h))"

definition pow_verify :: "header_hash \<Rightarrow> batch_hash \<Rightarrow> b256 \<Rightarrow> header \<Rightarrow> (pow_error + bool) option" where
  "pow_verify hh hb key header = do {
     r \<leftarrow> pow_hash hb key (seal_hash hh header) (h_nonce header);
     Some (case r of Inl e \<Rightarrow> Inl e | Inr pow \<Rightarrow> Inr (meets pow (h_difficulty header)))
   }"

definition key_for :: "keccak_fn \<Rightarrow> b256 \<Rightarrow> b256" where
  "key_for H seed_block = H (ascii ''boltchain/pow-key/v1'' @ be256 seed_block)"

subsection \<open>Nonce search\<close>

definition BATCH :: u64 where "BATCH = 16"

fun first_hit :: "u256 \<Rightarrow> u64 \<Rightarrow> b256 list \<Rightarrow> (u64 \<times> b256) option" where
  "first_hit difficulty i [] = None"
| "first_hit difficulty i (pow # pows) =
     (if meets pow difficulty then Some (i, pow) else first_hit difficulty (i + 1) pows)"

lemma search_measure:
  assumes "don < (tries :: u64)"
  shows "unat (tries - (don + min BATCH (tries - don))) < unat (tries - don)"
    and "unat (don + min BATCH (tries - don)) = unat don + min 16 (unat tries - unat don)"
    and "don + min BATCH (tries - don) \<le> tries"
proof -
  have d: "unat (tries - don) = unat tries - unat don" using assms by (simp add: unat_sub)
  have lt: "unat don < unat tries" using assms by (simp add: word_less_nat_alt)
  have m: "unat (min BATCH (tries - don)) = min 16 (unat tries - unat don)"
    by (simp add: unat_min d BATCH_def)
  have "unat don + min 16 (unat tries - unat don) < 2 ^ 64"
    using lt unsigned_less [of tries, where ?'a = nat] by simp
  then show s: "unat (don + min BATCH (tries - don)) = unat don + min 16 (unat tries - unat don)"
    by (simp add: unat_word_ariths m)
  then show le: "don + min BATCH (tries - don) \<le> tries" using lt by (simp add: word_le_nat_alt)
  show "unat (tries - (don + min BATCH (tries - don))) < unat (tries - don)"
    using lt by (simp add: unat_sub [OF le] s d)
qed

text \<open>\<open>stop k\<close> is what the flag reads before batch \<open>k\<close>; \<open>n\<close> and \<open>don\<close> are the loop variables.\<close>

function search_from ::
    "batch_hash \<Rightarrow> (nat \<Rightarrow> bool) \<Rightarrow> b256 \<Rightarrow> b256 \<Rightarrow> u256 \<Rightarrow> u64 \<Rightarrow> u64 \<Rightarrow> nat \<Rightarrow> u64 \<Rightarrow> u64
      \<Rightarrow> pow_error + (u64 \<times> b256) option" where
  "search_from hb stop key seal difficulty step tries k n don =
     (if \<not> don < tries then Inr None
      else if stop k then Inr None
      else
        (let count = min BATCH (tries - don);
             inputs = map (\<lambda>i. pow_input seal (n + of_nat i * step)) [0..<unat count]
         in case hb key inputs of
              Inl e \<Rightarrow> Inl e
            | Inr pows \<Rightarrow>
                (case first_hit difficulty 0 pows of
                   Some (i, pow) \<Rightarrow> Inr (Some (n + i * step, pow))
                 | None \<Rightarrow> search_from hb stop key seal difficulty step tries (Suc k) (n + count * step) (don + count))))"
  by pat_completeness auto
termination
  by (relation "measure (\<lambda>(_, _, _, _, _, _, tries, _, _, don). unat (tries - don))")
    (auto simp: search_measure)

declare search_from.simps [simp del]

definition search ::
    "batch_hash \<Rightarrow> (nat \<Rightarrow> bool) \<Rightarrow> b256 \<Rightarrow> b256 \<Rightarrow> u256 \<Rightarrow> u64 \<Rightarrow> u64 \<Rightarrow> u64
      \<Rightarrow> pow_error + (u64 \<times> b256) option" where
  "search hb stop key seal difficulty start step tries =
     search_from hb stop key seal difficulty step tries 0 start 0"

subsection \<open>Difficulty\<close>

record asert_params =
  ap_spacing :: u64
  ap_half_life :: u64
  ap_initial :: u256
  ap_minimum :: u256

definition saturating_mul :: "u256 \<Rightarrow> u256 \<Rightarrow> u256" where
  "saturating_mul a b = (if unat a * unat b < 2 ^ 256 then a * b else -1)"

text \<open>Leading zero bits of \<open>x\<close> in a word of the given number of bits.\<close>

fun leading_zeros_in :: "nat \<Rightarrow> nat \<Rightarrow> nat" where
  "leading_zeros_in 0 x = 0"
| "leading_zeros_in (Suc n) x = (if x \<ge> 2 ^ n then 0 else Suc (leading_zeros_in n x))"

definition leading_zeros :: "u256 \<Rightarrow> nat" where
  "leading_zeros w = leading_zeros_in 256 (unat w)"

text \<open>The cubic in \<open>u128\<close>; \<open>asert_factor_nat\<close> below shows that it does not overflow.\<close>

definition asert_factor :: "u128 \<Rightarrow> u128" where
  "asert_factor frac = 65536 + drop_bit 48
     (195766423245049 * frac + 971821376 * frac * frac + 5127 * frac * frac * frac + push_bit 47 1)"

definition next_difficulty :: "asert_params \<Rightarrow> u64 \<Rightarrow> u256 \<Rightarrow> u64 \<Rightarrow> u256" where
  "next_difficulty params parent_number parent_difficulty solve_time =
     (if parent_number \<le> 1 then max (ap_initial params) (ap_minimum params)
      else
        (let num = (uint solve_time - uint (ap_spacing params)) * 65536;
             exponent = num div uint (max (ap_half_life params) 1);
             shifts = exponent div 65536;
             frac = word_of_int (exponent mod 65536);
             factor = asert_factor frac;
             d = saturating_mul parent_difficulty 65536 div ucast factor;
             d = (if shifts \<ge> 0
                  then (if shifts \<ge> 256 then 0 else drop_bit (nat shifts) d)
                  else (let s = nat (- shifts) in
                        if s \<ge> 256 \<or> leading_zeros d < s then -1 else push_bit s d))
         in max d (ap_minimum params)))"

subsection \<open>The search finds the first nonce\<close>

lemma first_hit_find:
  "first_hit d (of_nat a) (map g [a..<b]) = map_option (\<lambda>j. (of_nat j, g j)) (find (\<lambda>j. meets (g j) d) [a..<b])"
proof (induction "b - a" arbitrary: a)
  case (Suc k)
  then have "a < b" by simp
  then have "[a..<b] = a # [Suc a..<b]" by (rule upt_conv_Cons)
  with Suc.hyps(1) [of "Suc a"] Suc.hyps(2) show ?case by (simp add: add.commute)
qed simp

lemma find_shift: "find P [a..<a + c] = map_option (\<lambda>i. a + i) (find (\<lambda>i. P (a + i)) [0..<c])"
proof -
  have "find P (map f xs) = map_option f (find (\<lambda>i. P (f i)) xs)" for f :: "nat \<Rightarrow> nat" and xs
    by (induction xs) auto
  from this [of "\<lambda>i. a + i" "[0..<c]"] show ?thesis by (simp add: map_add_upt add.commute)
qed

lemma find_append: "find P (xs @ ys) = (case find P xs of Some x \<Rightarrow> Some x | None \<Rightarrow> find P ys)"
  by (induction xs) auto

definition nonce_at :: "u64 \<Rightarrow> u64 \<Rightarrow> nat \<Rightarrow> u64" where
  "nonce_at start step j = start + of_nat j * step"

text \<open>What the search looks for among the nonces from position \<open>a\<close> on.\<close>

definition hit_from ::
    "(byte list \<Rightarrow> b256) \<Rightarrow> b256 \<Rightarrow> u256 \<Rightarrow> u64 \<Rightarrow> u64 \<Rightarrow> nat \<Rightarrow> nat \<Rightarrow> (u64 \<times> b256) option" where
  "hit_from hf seal d start step a b =
     map_option (\<lambda>j. (nonce_at start step j, hf (pow_input seal (nonce_at start step j))))
       (find (\<lambda>j. meets (hf (pow_input seal (nonce_at start step j))) d) [a..<b])"

lemma search_from_spec:
  assumes "\<And>ins. hb key ins = Inr (map hf ins)"
  shows "search_from hb (\<lambda>_. False) key seal d step tries k (nonce_at start step (unat don)) don
    = Inr (hit_from hf seal d start step (unat don) (unat tries))"
proof (induction "unat tries - unat don" arbitrary: k don rule: less_induct)
  case less
  show ?case
  proof (cases "don < tries")
    case False
    then show ?thesis by (simp add: search_from.simps hit_from_def word_less_nat_alt)
  next
    case True
    let ?c = "min BATCH (tries - don)" and ?don = "don + min BATCH (tries - don)"
    let ?g = "\<lambda>j. hf (pow_input seal (nonce_at start step j))"
    let ?f = "find (\<lambda>i. meets (?g (unat don + i)) d) [0..<unat ?c]"
    have lt: "unat don < unat tries" using True by (simp add: word_less_nat_alt)
    have c: "unat ?c = min 16 (unat tries - unat don)"
      using True by (simp add: unat_min unat_sub BATCH_def)
    have don: "unat ?don = unat don + unat ?c" using search_measure(2) [OF True] c by simp
    have shift: "nonce_at start step (unat don) + of_nat i * step = nonce_at start step (unat don + i)" for i
      by (simp add: nonce_at_def algebra_simps)
    have nxt: "nonce_at start step (unat don) + ?c * step = nonce_at start step (unat ?don)"
      using shift [of "unat ?c"] don by simp
    have hit: "first_hit d 0 (map (\<lambda>i. ?g (unat don + i)) [0..<unat ?c])
        = map_option (\<lambda>i. (of_nat i, ?g (unat don + i))) ?f"
      using first_hit_find [of d 0 "\<lambda>i. ?g (unat don + i)" "unat ?c"] by simp
    have rest: "search_from hb (\<lambda>_. False) key seal d step tries (Suc k) (nonce_at start step (unat ?don)) ?don
        = Inr (hit_from hf seal d start step (unat ?don) (unat tries))"
      using lt c don by (intro less) linarith
    have "unat don + unat ?c \<le> unat tries" using c lt by simp
    then have "[unat don..<unat tries] = [unat don..<unat don + unat ?c] @ [unat don + unat ?c..<unat tries]"
      using upt_add_eq_append [of "unat don" "unat don + unat ?c" "unat tries - (unat don + unat ?c)"] by simp
    then have split: "hit_from hf seal d start step (unat don) (unat tries) =
        (case ?f of Some i \<Rightarrow> Some (nonce_at start step (unat don + i), ?g (unat don + i))
         | None \<Rightarrow> hit_from hf seal d start step (unat ?don) (unat tries))"
      by (simp add: hit_from_def find_append find_shift don split: option.splits)
    show ?thesis
      by (subst search_from.simps)
        (simp add: True assms comp_def shift hit nxt rest split split: option.splits)
  qed
qed

text \<open>The stop flag can only cut the search short.\<close>

lemma search_from_stop:
  "search_from hb stop key seal d step tries k n don = Inr None
   \<or> search_from hb stop key seal d step tries k n don = search_from hb (\<lambda>_. False) key seal d step tries k n don"
proof (induction "unat tries - unat don" arbitrary: k n don rule: less_induct)
  case less
  show ?case
  proof (cases "don < tries")
    case True
    have "unat tries - unat (don + min BATCH (tries - don)) < unat tries - unat don"
      using search_measure(2) [OF True] True by (simp add: word_less_nat_alt)
    from less [OF this] show ?thesis
      by (subst (1 2 3) search_from.simps) (auto simp: Let_def split: sum.splits option.splits)
  qed (simp add: search_from.simps)
qed

text \<open>
  C14. The nonce search: with a hash that works on each input alone and no stop request, it returns
  the first of the \<open>tries\<close> nonces whose hash meets the difficulty, and nothing if there is none; a
  stop request can only turn the answer into nothing.
\<close>

theorem search_first:
  assumes "\<And>ins. hb key ins = Inr (map hf ins)"
  shows "search hb (\<lambda>_. False) key seal d start step tries = Inr (hit_from hf seal d start step 0 (unat tries))
    \<and> search hb stop key seal d start step tries \<in>
        {Inr None, Inr (hit_from hf seal d start step 0 (unat tries))}"
proof -
  have n: "nonce_at start step (unat (0 :: u64)) = start" by (simp add: nonce_at_def)
  from search_from_spec [of hb key hf seal d step tries 0 start 0, OF assms]
  have s: "search hb (\<lambda>_. False) key seal d start step tries = Inr (hit_from hf seal d start step 0 (unat tries))"
    unfolding search_def n by simp
  with search_from_stop [of hb stop key seal d step tries 0 start 0] show ?thesis
    by (auto simp: search_def)
qed

theorem search_first_witness:
  "hash_batch (\<lambda>m. of_nat (length m)) (\<lambda>_ _. Inr []) Keccak 5 = (\<lambda>ins. Inr (map (\<lambda>i. of_nat (length (be256 5 @ i))) ins))
    \<and> search (hash_batch (\<lambda>m. of_nat (length m)) (\<lambda>_ _. Inr []) Keccak) (\<lambda>_. False) 5 7 1 3 2 40
       = Inr (hit_from (\<lambda>i. of_nat (length (be256 5 @ i))) 7 1 3 2 0 40)"
  using search_first [of "hash_batch (\<lambda>m. of_nat (length m)) (\<lambda>_ _. Inr []) Keccak" 5
      "\<lambda>i. of_nat (length (be256 5 @ i))" 7 1 3 2 40 "\<lambda>_. False"]
  by (simp add: hash_batch_def fun_eq_iff)

text \<open>
  C15. Mining and verification agree: a nonce that the search returns for a header's seal hash and
  difficulty seals that header, whether or not the search was interrupted.
\<close>

theorem search_seals:
  assumes "\<And>ins. hb key ins = Inr (map hf ins)"
    and "search hb stop key (seal_hash hh header) (h_difficulty header) start step tries = Inr (Some (n, pow))"
  shows "pow_verify hh hb key (header\<lparr>h_nonce := n\<rparr>) = Some (Inr True)"
proof -
  have seal: "seal_hash hh (header\<lparr>h_nonce := n\<rparr>) = seal_hash hh header" by (simp add: seal_hash_def)
  have "search_from hb stop key (seal_hash hh header) (h_difficulty header) step tries 0 start 0
      = search_from hb (\<lambda>_. False) key (seal_hash hh header) (h_difficulty header) step tries 0 start 0"
    using search_from_stop [of hb stop key "seal_hash hh header" "h_difficulty header" step tries 0 start 0] assms(2)
    by (auto simp: search_def)
  moreover have "nonce_at start step (unat (0 :: u64)) = start" by (simp add: nonce_at_def)
  ultimately have "hit_from hf (seal_hash hh header) (h_difficulty header) start step 0 (unat tries) = Some (n, pow)"
    using search_from_spec [of hb key hf "seal_hash hh header" "h_difficulty header" step tries 0 start 0, OF assms(1)]
      assms(2) by (simp add: search_def)
  then have "meets (hf (pow_input (seal_hash hh header) n)) (h_difficulty header)"
    by (auto simp: hit_from_def find_Some_iff)
  then show ?thesis by (simp add: pow_verify_def pow_hash_def seal assms(1))
qed

definition toy_header :: header where
  "toy_header = \<lparr>h_parent_hash = 1, h_ommers_hash = 0, h_beneficiary = 0, h_state_root = 0, h_transactions_root = 0,
     h_receipts_root = 0, h_logs_bloom = [], h_difficulty = 1, h_number = 3, h_gas_limit = 30000000, h_gas_used = 0,
     h_timestamp = 100, h_extra_data = [], h_mix_hash = 0, h_nonce = 0, h_base_fee = None, h_withdrawals_root = None,
     h_blob_gas_used = None, h_excess_blob_gas = None, h_parent_beacon_root = None, h_requests_hash = None\<rparr>"

theorem search_seals_witness:
  "search (hash_batch (\<lambda>_. 9) (\<lambda>_ _. Inr []) Keccak) (\<lambda>_. False) 5 (seal_hash (\<lambda>_. 4) toy_header)
      (h_difficulty toy_header) 7 1 1 = Inr (Some (7, 9))
    \<and> pow_verify (\<lambda>_. 4) (hash_batch (\<lambda>_. 9) (\<lambda>_ _. Inr []) Keccak) 5 (toy_header\<lparr>h_nonce := 7\<rparr>) = Some (Inr True)"
proof -
  let ?hb = "hash_batch (\<lambda>_. 9) (\<lambda>_ _. Inr []) Keccak"
  have hb: "?hb 5 ins = Inr (map (\<lambda>_. 9) ins)" for ins by (simp add: hash_batch_def)
  have r: "search ?hb (\<lambda>_. False) 5 (seal_hash (\<lambda>_. 4) toy_header) (h_difficulty toy_header) 7 1 1 = Inr (Some (7, 9))"
    by (subst search_def, subst search_from.simps) (simp add: hb BATCH_def meets_def toy_header_def)
  show ?thesis using r search_seals [OF hb r] by simp
qed

subsection \<open>Key schedule\<close>

text \<open>
  C19. The seed block of a mined block: the last multiple of 2048 that is more than 64 blocks below
  it, or genesis, so miners know the next key 64 blocks ahead; it never moves back.
\<close>

theorem seed_height_schedule:
  "2048 dvd unat (seed_height h)
   \<and> (2112 < unat h \<longrightarrow> unat (seed_height h) + 64 < unat h \<and> unat h \<le> unat (seed_height h) + 2112)
   \<and> (unat h \<le> 2112 \<longrightarrow> seed_height h = 0)
   \<and> (h \<le> h' \<longrightarrow> seed_height h \<le> seed_height h')"
proof -
  have u: "unat (seed_height h) = (if unat h \<le> 2112 then 0 else (unat h - 65) div 2048 * 2048)" for h
  proof (cases "unat h \<le> 2112")
    case True
    then show ?thesis by (simp add: seed_height_def SEED_EPOCH_def SEED_LAG_def word_le_nat_alt)
  next
    case False
    then have "unat (h - 65) = unat h - 65" by (simp add: unat_sub word_le_nat_alt)
    then have d: "unat ((h - 65) div 2048) = (unat h - 65) div 2048" by (simp add: unat_div)
    have "(unat h - 65) div 2048 * 2048 \<le> unat h" by (simp add: div_times_less_eq_dividend le_trans)
    also have "\<dots> < 2 ^ 64" using unsigned_less [of h, where ?'a = nat] by simp
    finally have "unat ((h - 65) div 2048 * 2048) = (unat h - 65) div 2048 * 2048"
      by (simp only: unat_word_ariths(2) d) simp
    then show ?thesis using False by (simp add: seed_height_def SEED_EPOCH_def SEED_LAG_def word_le_nat_alt)
  qed
  have "seed_height h \<le> seed_height h'" if "h \<le> h'"
  proof -
    have "(unat h - 65) div 2048 \<le> (unat h' - 65) div 2048" using that by (intro div_le_mono) (simp add: word_le_nat_alt diff_le_mono)
    then show ?thesis using that by (auto simp: word_le_nat_alt u)
  qed
  moreover have "unat h - 65 < (unat h - 65) div 2048 * 2048 + 2048"
    using mod_less_divisor [of 2048 "unat h - 65"] div_mult_mod_eq [of "unat h - 65" 2048] by linarith
  moreover have "(unat h - 65) div 2048 * 2048 \<le> unat h - 65" by (simp add: div_times_less_eq_dividend)
  moreover have "seed_height h = 0" if "unat h \<le> 2112" using u [of h] that by (simp add: word_unat_eq_iff)
  ultimately show ?thesis by (auto simp: u)
qed

theorem seed_height_schedule_witness:
  "2112 < unat (5000 :: u64) \<and> unat (seed_height 5000) + 64 < unat (5000 :: u64) \<and> seed_height 5000 \<le> seed_height 6000"
  using seed_height_schedule [of 5000 6000] by (simp add: word_le_nat_alt)

subsection \<open>ASERT on natural numbers\<close>

definition asert_nat :: "nat \<Rightarrow> nat" where
  "asert_nat f = 65536 + (195766423245049 * f + 971821376 * f * f + 5127 * f * f * f + 2 ^ 47) div 2 ^ 48"

lemma asert_nat_mono: "f \<le> f' \<Longrightarrow> asert_nat f \<le> asert_nat f'"
  unfolding asert_nat_def by (intro add_left_mono div_le_mono add_mono mult_le_mono) simp_all

lemma asert_nat_bounds: "f < 65536 \<Longrightarrow> 65536 \<le> asert_nat f \<and> asert_nat f \<le> 131072"
  using asert_nat_mono [of f 65535] by (simp add: asert_nat_def)

lemma asert_factor_nat:
  assumes "f < 65536"
  shows "unat (asert_factor (of_nat f)) = asert_nat f"
proof -
  let ?w = "195766423245049 * of_nat f + 971821376 * of_nat f * of_nat f + 5127 * of_nat f * of_nat f * of_nat f + push_bit 47 1 :: u128"
  let ?n = "195766423245049 * f + 971821376 * f * f + 5127 * f * f * f + 2 ^ 47"
  have w: "?w = of_nat ?n" by (simp add: push_bit_eq_mult)
  have le: "?n \<le> 195766423245049 * 65536 + 971821376 * 65536 * 65536 + 5127 * 65536 * 65536 * 65536 + 2 ^ 47"
    using assms by (intro add_mono mult_le_mono) simp_all
  then have "?n < 2 ^ 128" by (rule order_le_less_trans) simp
  then have u: "unat ?w = ?n" unfolding w by (intro unat_of_nat_less) simp
  have d: "unat (drop_bit 48 ?w) = ?n div 2 ^ 48" by (simp only: unat_drop_bit u)
  have "?n div 2 ^ 48 \<le> (195766423245049 * 65536 + 971821376 * 65536 * 65536 + 5127 * 65536 * 65536 * 65536 + 2 ^ 47) div 2 ^ 48"
    using le by (rule div_le_mono)
  then have "65536 + ?n div 2 ^ 48 < 2 ^ 128" by simp
  then have "unat (65536 + drop_bit 48 ?w) = 65536 + ?n div 2 ^ 48"
    by (simp only: unat_word_ariths(1) d) simp
  then show ?thesis by (simp only: asert_factor_def asert_nat_def)
qed

lemma leading_zeros_in_less:
  "x < 2 ^ k \<Longrightarrow> s \<le> k \<Longrightarrow> leading_zeros_in k x < s \<longleftrightarrow> 2 ^ k \<le> x * 2 ^ s"
proof (induction k arbitrary: s)
  case (Suc k)
  show ?case
  proof (cases s)
    case 0
    with Suc.prems show ?thesis by simp
  next
    case (Suc s')
    show ?thesis
    proof (cases "2 ^ k \<le> x")
      case True
      then have "2 ^ k * 2 ^ 1 \<le> x * 2 ^ s" unfolding Suc by (intro mult_le_mono) simp_all
      with True Suc show ?thesis by (simp add: mult.commute)
    next
      case False
      with Suc.IH [of s'] Suc.prems Suc show ?thesis by simp
    qed
  qed
qed simp

lemma unat_push_bit: "unat w * 2 ^ s < 2 ^ LENGTH('a) \<Longrightarrow> unat (push_bit s (w :: 'a::len word)) = unat w * 2 ^ s"
  unfolding unsigned_push_bit_eq by (simp add: push_bit_eq_mult take_bit_nat_eq_self)

text \<open>The result before the lower bound is applied, as a function of the exponent.\<close>

definition asert_val :: "nat \<Rightarrow> int \<Rightarrow> nat" where
  "asert_val D e =
     (let q = D div asert_nat (nat (e mod 65536)); k = e div 65536 in
      if k \<ge> 0 then q div 2 ^ nat k else if nat (- k) < 256 \<and> q * 2 ^ nat (- k) < 2 ^ 256 then q * 2 ^ nat (- k) else 2 ^ 256 - 1)"

definition asert_exp :: "asert_params \<Rightarrow> u64 \<Rightarrow> int" where
  "asert_exp p t = (uint t - uint (ap_spacing p)) * 65536 div uint (max (ap_half_life p) 1)"

lemma unat_next_difficulty:
  assumes "1 < n"
  shows "unat (next_difficulty p n pd t)
    = max (asert_val (min (unat pd * 65536) (2 ^ 256 - 1)) (asert_exp p t)) (unat (ap_minimum p))"
proof -
  define D where "D = min (unat pd * 65536) (2 ^ 256 - 1)"
  define e where "e = asert_exp p t"
  define k where "k = e div 65536"
  define f where "f = nat (e mod 65536)"
  define d where "d = saturating_mul pd 65536 div ucast (asert_factor (word_of_int (e mod 65536)))"
  define q where "q = D div asert_nat f"
  define r where "r = (if k \<ge> 0 then (if k \<ge> 256 then 0 else drop_bit (nat k) d)
    else (let s = nat (- k) in if s \<ge> 256 \<or> leading_zeros d < s then -1 else push_bit s d))"
  have f: "f < 65536" by (simp add: f_def nat_less_iff)
  have "int f = e mod 65536" by (simp add: f_def)
  then have "word_of_int (e mod 65536) = (of_nat f :: u128)" by (metis of_int_of_nat_eq)
  then have uf: "unat (asert_factor (word_of_int (e mod 65536))) = asert_nat f" using asert_factor_nat [OF f] by simp
  have uc: "unat (ucast (asert_factor (word_of_int (e mod 65536))) :: u256) = asert_nat f"
    using asert_nat_bounds [OF f] by (simp add: unsigned_ucast_eq uf take_bit_nat_eq_self)
  have "unat (saturating_mul pd 65536) = D"
    by (simp add: D_def saturating_mul_def unat_word_ariths min_def unsigned_minus_1_eq_mask mask_eq_exp_minus_1)
  then have d: "unat d = q" by (simp add: d_def q_def unat_div uc)
  have q: "q < 2 ^ 256" using unsigned_less [of d, where ?'a = nat] d by simp
  have max: "unat (-1 :: u256) = 2 ^ 256 - 1" by (simp add: unsigned_minus_1_eq_mask mask_eq_exp_minus_1)
  have val: "asert_val D e = (if k \<ge> 0 then q div 2 ^ nat k
      else if nat (- k) < 256 \<and> q * 2 ^ nat (- k) < 2 ^ 256 then q * 2 ^ nat (- k) else 2 ^ 256 - 1)"
    by (simp add: asert_val_def Let_def q_def f_def k_def)
  have "unat r = asert_val D e"
  proof (cases "k \<ge> 0")
    case True
    have "q div 2 ^ nat k = 0" if "k \<ge> 256"
    proof -
      from that have "(2::nat) ^ 256 \<le> 2 ^ nat k" by (intro power_increasing) simp_all
      with q show ?thesis by simp
    qed
    with True show ?thesis by (simp add: val r_def unat_drop_bit d)
  next
    case False
    define s where "s = nat (- k)"
    show ?thesis
    proof (cases "s < 256")
      case True
      have lz: "leading_zeros d < s \<longleftrightarrow> 2 ^ 256 \<le> q * 2 ^ s"
        unfolding leading_zeros_def d using leading_zeros_in_less [OF q, of s] True by simp
      have sh: "unat (push_bit s d) = q * 2 ^ s" if "q * 2 ^ s < 2 ^ 256"
        using unat_push_bit [of d s] that by (simp add: d)
      show ?thesis
      proof (cases "q * 2 ^ s < 2 ^ 256")
        case True
        then have "\<not> leading_zeros d < s" by (simp add: lz)
        with \<open>s < 256\<close> False sh [OF True] True show ?thesis by (simp add: val r_def Let_def s_def [symmetric])
      next
        case nl: False
        then have "leading_zeros d < s" by (simp add: lz)
        with nl \<open>s < 256\<close> False show ?thesis by (simp add: val r_def Let_def s_def [symmetric] max)
      qed
    qed (use False in \<open>simp add: val r_def Let_def s_def [symmetric] max\<close>)
  qed
  moreover have "\<not> n \<le> 1" using assms by (simp add: not_le)
  then have "next_difficulty p n pd t = max r (ap_minimum p)"
    by (simp only: next_difficulty_def Let_def r_def d_def k_def e_def asert_exp_def if_False)
  ultimately show ?thesis by (simp add: unat_max D_def e_def)
qed

lemma asert_val_slow: "0 \<le> e \<Longrightarrow> asert_val D e = D div (asert_nat (nat (e mod 65536)) * 2 ^ nat (e div 65536))"
  by (simp add: asert_val_def Let_def div_mult2_eq pos_imp_zdiv_nonneg_iff)

lemma asert_val_antimono:
  assumes "0 \<le> e" "e \<le> e'"
  shows "asert_val D e' \<le> asert_val D e"
proof -
  let ?f = "\<lambda>e. nat (e mod 65536)" and ?k = "\<lambda>e. nat (e div 65536)"
  have f: "?f x < 65536" for x :: int by (simp add: nat_less_iff)
  have "asert_nat (?f e) * 2 ^ ?k e \<le> asert_nat (?f e') * 2 ^ ?k e'"
  proof (cases "?k e = ?k e'")
    case True
    then have "e div 65536 = e' div 65536"
      using assms by (simp add: eq_nat_nat_iff pos_imp_zdiv_nonneg_iff)
    moreover have "e = e div 65536 * 65536 + e mod 65536" "e' = e' div 65536 * 65536 + e' mod 65536" by simp_all
    ultimately have "e mod 65536 \<le> e' mod 65536" using assms(2) by linarith
    then have "asert_nat (?f e) \<le> asert_nat (?f e')" by (intro asert_nat_mono nat_mono)
    then show ?thesis unfolding True by (rule mult_le_mono1)
  next
    case False
    have "?k e \<le> ?k e'" using assms by (intro nat_mono zdiv_mono1) simp_all
    with False have "Suc (?k e) \<le> ?k e'" by simp
    then have p: "(2::nat) ^ Suc (?k e) \<le> 2 ^ ?k e'" by (intro power_increasing) simp_all
    have "asert_nat (?f e) * 2 ^ ?k e \<le> 131072 * 2 ^ ?k e" using asert_nat_bounds [OF f] by (intro mult_le_mono1) simp
    also have "\<dots> = 65536 * 2 ^ Suc (?k e)" by simp
    also have "\<dots> \<le> asert_nat (?f e') * 2 ^ ?k e'" using asert_nat_bounds [OF f] p by (intro mult_le_mono) simp_all
    finally show ?thesis .
  qed
  moreover have "0 < asert_nat (?f e) * 2 ^ ?k e" using asert_nat_bounds [OF f, of e] by simp
  ultimately show ?thesis using assms by (simp add: asert_val_slow div_le_mono2)
qed

lemma asert_exp_mono: "t \<le> t' \<Longrightarrow> asert_exp p t \<le> asert_exp p t'"
  unfolding asert_exp_def by (intro zdiv_mono1) (simp_all add: word_le_def max_def word_less_def)

lemma half_life_pos: "0 < uint (max (ap_half_life p) 1)"
  by (simp add: max_def word_le_def)

lemma asert_exp_spacing: "asert_exp p (ap_spacing p) = 0"
  by (simp add: asert_exp_def)

text \<open>
  C16. Difficulty of slow blocks: from the target spacing on, a longer solve time never gives a higher
  difficulty, and none is above the parent's (or the minimum); and a block exactly on schedule
  keeps the difficulty below $2^{240}$.
\<close>

theorem asert_slow:
  assumes "1 < n" "ap_spacing p \<le> t" "t \<le> t'"
  shows "next_difficulty p n pd t' \<le> next_difficulty p n pd t
    \<and> next_difficulty p n pd t \<le> max pd (ap_minimum p)
    \<and> (unat pd < 2 ^ 240 \<longrightarrow> next_difficulty p n pd (ap_spacing p) = max pd (ap_minimum p))"
proof -
  define D where "D = min (unat pd * 65536) (2 ^ 256 - 1)"
  have u: "unat (next_difficulty p n pd x) = max (asert_val D (asert_exp p x)) (unat (ap_minimum p))" for x
    unfolding D_def by (rule unat_next_difficulty [OF assms(1)])
  have e0: "0 \<le> asert_exp p t" "asert_exp p t \<le> asert_exp p t'"
    using asert_exp_mono [OF assms(2), of p] asert_exp_mono [OF assms(3), of p] by (simp_all add: asert_exp_spacing)
  have v0: "asert_val D 0 = D div 65536" by (simp add: asert_val_def asert_nat_def)
  have "asert_val D (asert_exp p t) \<le> D div 65536" using asert_val_antimono [of 0 "asert_exp p t" D] e0(1) v0 by simp
  also have "\<dots> \<le> unat pd * 65536 div 65536" unfolding D_def by (intro div_le_mono) simp
  finally have le: "asert_val D (asert_exp p t) \<le> unat pd" by simp
  have "D div 65536 = unat pd" if "unat pd < 2 ^ 240"
    unfolding D_def using that by (simp add: min_absorb1)
  then have same: "unat pd < 2 ^ 240 \<longrightarrow> asert_val D (asert_exp p (ap_spacing p)) = unat pd"
    by (simp add: asert_exp_spacing v0)
  show ?thesis
    unfolding word_le_nat_alt word_unat_eq_iff unat_max u
    using asert_val_antimono [OF e0, of D] le same by auto
qed

definition main_params :: asert_params where
  "main_params = \<lparr>ap_spacing = 12, ap_half_life = 3600, ap_initial = 262144, ap_minimum = 1\<rparr>"

theorem asert_slow_witness:
  "(1 :: u64) < 10 \<and> ap_spacing main_params \<le> 20 \<and> (20 :: u64) \<le> 30
    \<and> next_difficulty main_params 10 262144 30 \<le> next_difficulty main_params 10 262144 20"
  using asert_slow [of 10 main_params 20 30 262144] by (simp add: main_params_def word_le_nat_alt word_less_nat_alt)

text \<open>
  C17. The half-life is exact: one half-life late halves the difficulty, one half-life early doubles
  it (below $2^{240}$, before the minimum applies).
\<close>

theorem asert_half_life:
  assumes "1 < n" "0 < ap_half_life p" "unat pd < 2 ^ 240"
  shows "(uint t = uint (ap_spacing p) + uint (ap_half_life p)
        \<longrightarrow> next_difficulty p n pd t = max (pd div 2) (ap_minimum p))
    \<and> (uint t + uint (ap_half_life p) = uint (ap_spacing p)
        \<longrightarrow> next_difficulty p n pd t = max (2 * pd) (ap_minimum p))"
proof -
  define D where "D = unat pd * 65536"
  have D: "min (unat pd * 65536) (2 ^ 256 - 1) = D" using assms(3) by (simp add: D_def)
  have u: "unat (next_difficulty p n pd t) = max (asert_val D (asert_exp p t)) (unat (ap_minimum p))"
    using unat_next_difficulty [OF assms(1), of p pd t] unfolding D .
  have hl: "uint (max (ap_half_life p) 1) = uint (ap_half_life p)" "0 < uint (ap_half_life p)"
    using assms(2) by (simp_all add: max_def word_less_def word_le_def)
  have half: "asert_val D 65536 = unat (pd div 2)" by (simp add: asert_val_def asert_nat_def D_def unat_div)
  have dbl: "asert_val D (-65536) = unat (2 * pd)"
    using assms(3) by (simp add: asert_val_def asert_nat_def D_def unat_word_ariths)
  have "asert_exp p t = 65536" if "uint t = uint (ap_spacing p) + uint (ap_half_life p)"
    using that hl by (simp add: asert_exp_def)
  moreover have "asert_exp p t = -65536" if "uint t + uint (ap_half_life p) = uint (ap_spacing p)"
  proof -
    from that have "uint t - uint (ap_spacing p) = - uint (ap_half_life p)" by simp
    moreover have "- uint (ap_half_life p) * 65536 = uint (ap_half_life p) * (-65536)" by simp
    moreover have "uint (ap_half_life p) * (-65536) div uint (ap_half_life p) = -65536"
      using hl(2) by (intro nonzero_mult_div_cancel_left) simp
    ultimately show ?thesis unfolding asert_exp_def hl(1) by (simp only:)
  qed
  ultimately show ?thesis
    unfolding word_unat_eq_iff unat_max u using half dbl by auto
qed

theorem asert_half_life_witness:
  "(1 :: u64) < 10 \<and> next_difficulty main_params 10 262144 3612 = 131072"
  using asert_half_life [of 10 main_params 262144 3612] by (simp add: main_params_def max_def word_le_nat_alt word_less_nat_alt)

text \<open>
  C18. The division rounds down before the shift to the left, so at a low difficulty a block that
  comes early can lower the difficulty: from difficulty 3 with mainnet's parameters, a block
  found after one second instead of twelve leads to difficulty 2, where one on schedule keeps 3.
\<close>

theorem asert_fast_block_lowers:
  "next_difficulty main_params 10 3 1 = 2 \<and> next_difficulty main_params 10 3 12 = 3"
proof -
  have e: "asert_exp main_params 1 = -201" "asert_exp main_params 12 = 0"
    by (simp_all add: asert_exp_def main_params_def max_def word_le_nat_alt)
  have v: "asert_val 196608 (-201) = 2" "asert_val 196608 0 = 3" by (simp_all add: asert_val_def asert_nat_def)
  have "unat (next_difficulty main_params 10 3 1) = 2" "unat (next_difficulty main_params 10 3 12) = 3"
    using unat_next_difficulty [of 10 main_params 3 1] unat_next_difficulty [of 10 main_params 3 12]
    by (simp_all add: e v word_less_nat_alt) (simp_all add: main_params_def)
  then show ?thesis by (simp add: word_unat_eq_iff)
qed

end
