(* ===== verification/Trie.thy ===== *)
theory Trie
  imports Prelude "HOL-Library.List_Lexorder" "HOL-Library.Sublist"
begin

text \<open>
  The path-keyed Merkle-Patricia trie (\<^verbatim>\<open>crates/store/src/trie.rs\<close>): every node is stored under its
  nibble path, updates are collected in a dirty overlay, and a commit recomputes hashes along modified
  paths only.

  The first half is the code: nodes, their RLP codec, insertion, removal, commit. \<open>None\<close> is a panic or
  a loop that does not end, \<open>Inl\<close> the error \<^verbatim>\<open>TrieError::Corrupt\<close>; failures of the backing store are
  not modelled. \<^verbatim>\<open>keccak256\<close> is the parameter \<open>H\<close>; the record \<open>rlp\<close> holds the header codec of
  \<^verbatim>\<open>alloy_rlp\<close>, and \<open>rlp_ok\<close> is what the code relies on. Loops take fuel: a key has 64 nibbles, and
  every turn of a loop moves at least one nibble down.

  The second half shows that decoding an encoded node gives the node back.
\<close>

type_synonym path = "byte list"

subsection \<open>Nodes\<close>

type_synonym child_ref = "byte list option"

datatype node =
    Leaf path "byte list"
  | Ext path child_ref
  | Branch "child_ref option list"

datatype trie_error = CorruptNode path

type_synonym node_source = "path \<Rightarrow> byte list option"
type_synonym node_writes = "(path, byte list option) btmap"
type_synonym dirty = "(path, node option) btmap"

record rlp =
  rlp_header :: "bool \<Rightarrow> nat \<Rightarrow> byte list"
  rlp_string :: "byte list \<Rightarrow> byte list"
  rlp_decode :: "byte list \<Rightarrow> (bool \<times> nat \<times> byte list) option"

definition EMPTY_STRING_CODE :: byte where "EMPTY_STRING_CODE = 0x80"

subsection \<open>Nibbles and hex prefixes\<close>

definition byte_nibbles :: "byte \<Rightarrow> path" where
  "byte_nibbles b = [drop_bit 4 b, b AND 0x0f]"

definition to_nibbles :: "b256 \<Rightarrow> path" where
  "to_nibbles key = concat (map byte_nibbles (be256 key))"

definition common_prefix :: "path \<Rightarrow> path \<Rightarrow> nat" where
  "common_prefix a b = length (takeWhile (\<lambda>(x, y). x = y) (zip a b))"

fun pack_pairs :: "path \<Rightarrow> byte list option" where
  "pack_pairs [] = Some []"
| "pack_pairs [x] = None"
| "pack_pairs (x # y # r) = map_option ((#) (push_bit 4 x OR y)) (pack_pairs r)"

definition hex_prefix :: "path \<Rightarrow> bool \<Rightarrow> byte list option" where
  "hex_prefix nibbles leaf =
     (let odd = length nibbles mod 2 = 1;
          flag = (if leaf then 2 else 0) + (if odd then 1 else 0) :: byte
      in if odd then map_option ((#) (push_bit 4 flag OR (case nibbles of n # _ \<Rightarrow> n | [] \<Rightarrow> 0))) (pack_pairs (tl nibbles))
         else map_option ((#) (push_bit 4 flag)) (pack_pairs nibbles))"

definition hex_prefix_decode :: "byte list \<Rightarrow> (path \<times> bool) option" where
  "hex_prefix_decode bytes =
     (case bytes of
        [] \<Rightarrow> None
      | first # r \<Rightarrow>
         (let flag = drop_bit 4 first in
          if flag > 3 then None
          else Some ((if flag AND 1 = 1 then [first AND 0x0f] else []) @ concat (map byte_nibbles r), flag AND 2 = 2)))"

subsection \<open>Node codec\<close>

definition mk_child_ref :: "keccak_fn \<Rightarrow> byte list \<Rightarrow> byte list" where
  "mk_child_ref H rlp = (if length rlp < 32 then rlp else be256 (H rlp))"

definition encode_ref :: "rlp \<Rightarrow> byte list \<Rightarrow> byte list" where
  "encode_ref R r = (if length r = 32 then rlp_string R r else r)"

text \<open>The outer option of the result is the panic of \<^verbatim>\<open>expect("resolved before encoding")\<close>.\<close>

fun encode_children :: "rlp \<Rightarrow> child_ref option list \<Rightarrow> byte list option" where
  "encode_children R [] = Some []"
| "encode_children R (None # cs) = map_option ((#) EMPTY_STRING_CODE) (encode_children R cs)"
| "encode_children R (Some None # cs) = None"
| "encode_children R (Some (Some r) # cs) = map_option ((@) (encode_ref R r)) (encode_children R cs)"

definition encode_payload :: "rlp \<Rightarrow> node \<Rightarrow> byte list option" where
  "encode_payload R node =
     (case node of
        Leaf key value \<Rightarrow> map_option (\<lambda>hp. rlp_string R hp @ rlp_string R value) (hex_prefix key True)
      | Ext key child \<Rightarrow> do {
          hp \<leftarrow> hex_prefix key False;
          r \<leftarrow> child;
          Some (rlp_string R hp @ encode_ref R r)
        }
      | Branch children \<Rightarrow> map_option (\<lambda>p. p @ [EMPTY_STRING_CODE]) (encode_children R children))"

definition encode_node :: "rlp \<Rightarrow> node \<Rightarrow> byte list option" where
  "encode_node R node = map_option (\<lambda>payload. rlp_header R True (length payload) @ payload) (encode_payload R node)"

definition get_to :: "nat \<Rightarrow> byte list \<Rightarrow> byte list option" where
  "get_to n b = (if n \<le> length b then Some (take n b) else None)"

fun raw_items :: "nat \<Rightarrow> rlp \<Rightarrow> byte list \<Rightarrow> byte list list option" where
  "raw_items f R buf =
     (if buf = [] then Some []
      else case f of
        0 \<Rightarrow> None
      | Suc f \<Rightarrow> do {
          (_, payload_length, rest) \<leftarrow> rlp_decode R buf;
          let total = length buf - length rest + payload_length;
          item \<leftarrow> get_to total buf;
          items \<leftarrow> raw_items f R (drop total buf);
          Some (item # items)
        })"

declare raw_items.simps [simp del]

definition string_payload :: "rlp \<Rightarrow> byte list \<Rightarrow> byte list option" where
  "string_payload R item = do {
     (is_list, payload_length, b) \<leftarrow> rlp_decode R item;
     if is_list then None else get_to payload_length b
   }"

definition decode_ref :: "rlp \<Rightarrow> byte list \<Rightarrow> byte list option" where
  "decode_ref R item = do {
     (is_list, payload_length, b) \<leftarrow> rlp_decode R item;
     if is_list then Some item else if payload_length = 32 then get_to 32 b else None
   }"

fun decode_children :: "rlp \<Rightarrow> byte list list \<Rightarrow> child_ref option list option" where
  "decode_children R [] = Some []"
| "decode_children R (item # items) = do {
     c \<leftarrow> (if item \<noteq> [EMPTY_STRING_CODE] then map_option (\<lambda>r. Some (Some r)) (decode_ref R item) else Some None);
     cs \<leftarrow> decode_children R items;
     Some (c # cs)
   }"

definition decode_node :: "rlp \<Rightarrow> byte list \<Rightarrow> node option" where
  "decode_node R rlp = do {
     (is_list, payload_length, b) \<leftarrow> rlp_decode R rlp;
     if \<not> is_list then None else do {
       payload \<leftarrow> get_to payload_length b;
       items \<leftarrow> raw_items (length payload) R payload;
       if length items = 2 then do {
         hp \<leftarrow> string_payload R (items ! 0);
         (key, leaf) \<leftarrow> hex_prefix_decode hp;
         if leaf then map_option (Leaf key) (string_payload R (items ! 1))
         else map_option (\<lambda>r. Ext key (Some r)) (decode_ref R (items ! 1))
       }
       else if length items = 17 then map_option Branch (decode_children R (take 16 items))
       else None
     }
   }"

subsection \<open>The overlay\<close>

definition trie_get :: "rlp \<Rightarrow> node_source \<Rightarrow> dirty \<Rightarrow> path \<Rightarrow> trie_error + node option" where
  "trie_get R src d path =
     (case bt_get path d of
        Some n \<Rightarrow> Inr n
      | None \<Rightarrow>
         (case src path of
            None \<Rightarrow> Inr None
          | Some rlp \<Rightarrow> (case decode_node R rlp of Some n \<Rightarrow> Inr (Some n) | None \<Rightarrow> Inl (CorruptNode path))))"

definition trie_put :: "path \<Rightarrow> node \<Rightarrow> dirty \<Rightarrow> dirty" where
  "trie_put path node d = bt_insert path (Some node) d"

definition trie_del :: "path \<Rightarrow> dirty \<Rightarrow> dirty" where
  "trie_del path d = bt_insert path None d"

definition two_children :: "byte \<Rightarrow> byte \<Rightarrow> child_ref option list" where
  "two_children i j = (replicate 16 None)[unat i := Some None, unat j := Some None]"

text \<open>Splitting a leaf, and an extension, at the first nibble where the keys differ.\<close>

definition split_leaf :: "path \<Rightarrow> path \<Rightarrow> path \<Rightarrow> byte list \<Rightarrow> byte list \<Rightarrow> dirty \<Rightarrow> dirty" where
  "split_leaf path rest lkey lval val d =
     (let c = common_prefix lkey rest;
          bpath = path @ take c rest;
          d = trie_put (bpath @ [lkey ! c]) (Leaf (drop (c + 1) lkey) lval) d;
          d = trie_put (bpath @ [rest ! c]) (Leaf (drop (c + 1) rest) val) d;
          d = trie_put bpath (Branch (two_children (lkey ! c) (rest ! c))) d
      in if c > 0 then trie_put path (Ext (take c rest) None) d else d)"

definition split_ext :: "path \<Rightarrow> path \<Rightarrow> path \<Rightarrow> byte list \<Rightarrow> dirty \<Rightarrow> dirty" where
  "split_ext path rest ekey val d =
     (let c = common_prefix ekey rest;
          bpath = path @ take c ekey;
          d = (if length ekey - c - 1 > 0 then trie_put (bpath @ [ekey ! c]) (Ext (drop (c + 1) ekey) None) d else d);
          d = trie_put (bpath @ [rest ! c]) (Leaf (drop (c + 1) rest) val) d;
          d = trie_put bpath (Branch (two_children (ekey ! c) (rest ! c))) d
      in if c > 0 then trie_put path (Ext (take c ekey) None) d else d)"

fun insert_loop ::
    "nat \<Rightarrow> rlp \<Rightarrow> node_source \<Rightarrow> path \<Rightarrow> path \<Rightarrow> byte list \<Rightarrow> dirty \<Rightarrow> (trie_error + dirty) option" where
  "insert_loop 0 R src path rest val d = None"
| "insert_loop (Suc f) R src path rest val d =
     (case trie_get R src d path of
        Inl e \<Rightarrow> Some (Inl e)
      | Inr None \<Rightarrow> Some (Inr (trie_put path (Leaf rest val) d))
      | Inr (Some (Leaf lkey lval)) \<Rightarrow>
          if lkey = rest then Some (Inr (trie_put path (Leaf lkey val) d))
          else if common_prefix lkey rest < min (length lkey) (length rest)
            then Some (Inr (split_leaf path rest lkey lval val d))
          else None
      | Inr (Some (Ext ekey _)) \<Rightarrow>
          if common_prefix ekey rest = length ekey
            then insert_loop f R src (path @ ekey) (drop (length ekey) rest) val (trie_put path (Ext ekey None) d)
          else if common_prefix ekey rest < length rest then Some (Inr (split_ext path rest ekey val d))
          else None
      | Inr (Some (Branch children)) \<Rightarrow>
          (case rest of
             i # rest \<Rightarrow>
               if unat i < length children
               then insert_loop f R src (path @ [i]) rest val (trie_put path (Branch (children[unat i := Some None])) d)
               else None
           | [] \<Rightarrow> None))"

definition KEY_FUEL :: nat where "KEY_FUEL = 66"

definition trie_insert :: "rlp \<Rightarrow> node_source \<Rightarrow> b256 \<Rightarrow> byte list \<Rightarrow> dirty \<Rightarrow> (trie_error + dirty) option" where
  "trie_insert R src key val d = insert_loop KEY_FUEL R src [] (to_nibbles key) val d"

subsection \<open>Removal\<close>

text \<open>The walk down: \<open>Inr None\<close> when the key is missing, else the visited nodes, deepest first.\<close>

fun remove_walk ::
    "nat \<Rightarrow> rlp \<Rightarrow> node_source \<Rightarrow> dirty \<Rightarrow> path \<Rightarrow> path \<Rightarrow> (path \<times> node) list \<Rightarrow> (trie_error + (path \<times> node) list option) option" where
  "remove_walk 0 R src d path rest stack = None"
| "remove_walk (Suc f) R src d path rest stack =
     (case trie_get R src d path of
        Inl e \<Rightarrow> Some (Inl e)
      | Inr None \<Rightarrow> Some (Inr None)
      | Inr (Some (Leaf key v)) \<Rightarrow>
          Some (Inr (if key \<noteq> rest then None else Some ((path, Leaf key v) # stack)))
      | Inr (Some (Ext key c)) \<Rightarrow>
          if \<not> prefix key rest then Some (Inr None)
          else remove_walk f R src d (path @ key) (drop (length key) rest) ((path, Ext key c) # stack)
      | Inr (Some (Branch children)) \<Rightarrow>
          (case rest of
             [] \<Rightarrow> None
           | i # rest \<Rightarrow>
               if unat i < length children then
                 if children ! unat i = None then Some (Inr None)
                 else remove_walk f R src d (path @ [i]) rest ((path, Branch children) # stack)
               else None))"

text \<open>A branch with one child left becomes that child, prefixed by its nibble.\<close>

definition collapse_branch :: "rlp \<Rightarrow> node_source \<Rightarrow> path \<Rightarrow> nat \<Rightarrow> dirty \<Rightarrow> trie_error + (node \<times> dirty)" where
  "collapse_branch R src p i d =
     (let n = of_nat i; cpath = p @ [n] in
      case trie_get R src d cpath of
        Inl e \<Rightarrow> Inl e
      | Inr None \<Rightarrow> Inl (CorruptNode cpath)
      | Inr (Some (Leaf key v)) \<Rightarrow> Inr (Leaf (n # key) v, trie_put p (Leaf (n # key) v) (trie_del cpath d))
      | Inr (Some (Ext key _)) \<Rightarrow> Inr (Ext (n # key) None, trie_put p (Ext (n # key) None) (trie_del cpath d))
      | Inr (Some (Branch _)) \<Rightarrow> Inr (Ext [n] None, trie_put p (Ext [n] None) d))"

text \<open>The repair of the ancestors, bottom up; \<open>replaced\<close> is what now sits at \<open>child_path\<close>.\<close>

fun repair ::
    "rlp \<Rightarrow> node_source \<Rightarrow> (path \<times> node) list \<Rightarrow> path \<Rightarrow> node option \<Rightarrow> dirty \<Rightarrow> (trie_error + dirty) option" where
  "repair R src [] child_path replaced d = Some (Inr d)"
| "repair R src ((p, Branch children) # stack) child_path replaced d =
     (if length p < length child_path \<and> unat (child_path ! length p) < length children then
        (let children = children[unat (child_path ! length p) := (if replaced \<noteq> None then Some None else None)];
             left = filter (\<lambda>i. children ! i \<noteq> None) [0..<16]
         in if length left \<ge> 2 then repair R src stack p (Some (Branch children)) (trie_put p (Branch children) d)
            else case left of
              [] \<Rightarrow> None
            | i # _ \<Rightarrow>
               (case collapse_branch R src p i d of
                  Inl e \<Rightarrow> Some (Inl e)
                | Inr (n, d) \<Rightarrow> repair R src stack p (Some n) d))
      else None)"
| "repair R src ((p, Ext key _) # stack) child_path replaced d =
     (case replaced of
        Some (Leaf k2 v) \<Rightarrow>
          (let n = Leaf (key @ k2) v in repair R src stack p (Some n) (trie_put p n (trie_del child_path d)))
      | Some (Ext k2 _) \<Rightarrow>
          (let n = Ext (key @ k2) None in repair R src stack p (Some n) (trie_put p n (trie_del child_path d)))
      | Some (Branch _) \<Rightarrow>
          (let n = Ext key None in repair R src stack p (Some n) (trie_put p n d))
      | None \<Rightarrow> Some (Inl (CorruptNode p)))"
| "repair R src ((p, Leaf _ _) # stack) child_path replaced d = Some (Inl (CorruptNode p))"

definition remove_key :: "rlp \<Rightarrow> node_source \<Rightarrow> b256 \<Rightarrow> dirty \<Rightarrow> (trie_error + dirty) option" where
  "remove_key R src key d =
     try_bind (remove_walk KEY_FUEL R src d [] (to_nibbles key) []) (\<lambda>r.
       case r of
         None \<Rightarrow> Some (Inr d)
       | Some [] \<Rightarrow> None
       | Some ((leaf_path, _) # stack) \<Rightarrow> repair R src stack leaf_path None (trie_del leaf_path d))"

subsection \<open>Commit\<close>

text \<open>
  \<open>encode_at\<close>, with its recursive calls as the argument \<open>enc\<close> of the body. The recursion goes down at
  least one nibble per level.
\<close>

type_synonym encoder = "path \<Rightarrow> dirty \<times> node_writes \<Rightarrow> (trie_error + byte list \<times> dirty \<times> node_writes) option"

fun encode_kids ::
    "encoder \<Rightarrow> keccak_fn \<Rightarrow> path \<Rightarrow> nat \<Rightarrow> child_ref option list \<Rightarrow> dirty \<times> node_writes
      \<Rightarrow> (trie_error + child_ref option list \<times> dirty \<times> node_writes) option" where
  "encode_kids enc H path i [] st = Some (Inr ([], st))"
| "encode_kids enc H path i (c # cs) st =
     try_bind (if c = Some None
               then try_bind (enc (path @ [of_nat i]) st) (\<lambda>(rlp, st). Some (Inr (Some (Some (mk_child_ref H rlp)), st)))
               else Some (Inr (c, st)))
       (\<lambda>(c, st). try_bind (encode_kids enc H path (Suc i) cs st) (\<lambda>(cs, st). Some (Inr (c # cs, st))))"

definition resolve ::
    "encoder \<Rightarrow> keccak_fn \<Rightarrow> path \<Rightarrow> node \<Rightarrow> dirty \<times> node_writes \<Rightarrow> (trie_error + node \<times> dirty \<times> node_writes) option" where
  "resolve enc H path node st =
     (case node of
        Leaf _ _ \<Rightarrow> Some (Inr (node, st))
      | Ext key (Some r) \<Rightarrow> Some (Inr (node, st))
      | Ext key None \<Rightarrow> try_bind (enc (path @ key) st) (\<lambda>(rlp, st). Some (Inr (Ext key (Some (mk_child_ref H rlp)), st)))
      | Branch children \<Rightarrow> try_bind (encode_kids enc H path 0 children st) (\<lambda>(cs, st). Some (Inr (Branch cs, st))))"

definition encode_body :: "encoder \<Rightarrow> keccak_fn \<Rightarrow> rlp \<Rightarrow> node_source \<Rightarrow> encoder" where
  "encode_body enc H R src path st =
     (case bt_get path (fst st) of
        Some None \<Rightarrow> Some (Inl (CorruptNode path))
      | None \<Rightarrow> Some (case src path of Some rlp \<Rightarrow> Inr (rlp, st) | None \<Rightarrow> Inl (CorruptNode path))
      | Some (Some node) \<Rightarrow>
          try_bind (resolve enc H path node st) (\<lambda>(resolved, d, w).
            map_option (\<lambda>rlp. Inr (rlp, trie_put path resolved d, bt_insert path (Some rlp) w)) (encode_node R resolved)))"

primrec encode_at :: "nat \<Rightarrow> keccak_fn \<Rightarrow> rlp \<Rightarrow> node_source \<Rightarrow> encoder" where
  "encode_at 0 H R src = (\<lambda>path st. None)"
| "encode_at (Suc f) H R src = encode_body (encode_at f H R src) H R src"

definition deletions :: "dirty \<Rightarrow> node_writes \<Rightarrow> node_writes" where
  "deletions d w = fold (\<lambda>(path, node) w. if node = None \<and> \<not> bt_has path w then bt_insert path None w else w) d w"

definition trie_commit ::
    "keccak_fn \<Rightarrow> rlp \<Rightarrow> b256 \<Rightarrow> node_source \<Rightarrow> dirty \<Rightarrow> (trie_error + b256 \<times> node_writes) option" where
  "trie_commit H R empty_root src d =
     (case trie_get R src d [] of
        Inl e \<Rightarrow> Some (Inl e)
      | Inr None \<Rightarrow> Some (Inr (empty_root, deletions d []))
      | Inr (Some _) \<Rightarrow>
          try_bind (encode_at KEY_FUEL H R src [] (d, [])) (\<lambda>(rlp, d, w). Some (Inr (H rlp, deletions d w))))"

definition apply_writes :: "node_writes \<Rightarrow> node_source \<Rightarrow> node_source" where
  "apply_writes w src = (\<lambda>p. case bt_get p w of Some v \<Rightarrow> v | None \<Rightarrow> src p)"

subsection \<open>The codec round trip\<close>

definition nibs :: "path \<Rightarrow> bool" where "nibs p \<longleftrightarrow> (\<forall>x \<in> set p. x < 16)"

lemma nibs_simps [simp]:
  "nibs []" "nibs (x # p) \<longleftrightarrow> x < 16 \<and> nibs p" "nibs (p @ q) \<longleftrightarrow> nibs p \<and> nibs q"
  by (auto simp: nibs_def)

lemma nibs_take [intro]: "nibs p \<Longrightarrow> nibs (take n p)" and nibs_drop [intro]: "nibs p \<Longrightarrow> nibs (drop n p)"
  by (auto simp: nibs_def dest: in_set_takeD in_set_dropD)

lemma nibs_nth: "nibs p \<Longrightarrow> i < length p \<Longrightarrow> p ! i < 16"
  by (auto simp: nibs_def)

lemma nib_unat: "x < 16 \<longleftrightarrow> unat (x :: byte) < 16"
  by (simp add: word_less_nat_alt)

lemma nib_bits: "x < 16 \<Longrightarrow> 4 \<le> i \<Longrightarrow> \<not> bit (x :: byte) i"
proof -
  assume "x < 16" "4 \<le> i"
  then have "take_bit 4 (unat x) = unat x" by (simp add: nib_unat take_bit_nat_eq_self)
  then have "bit (unat x) i = (i < 4 \<and> bit (unat x) i)" by (metis bit_take_bit_iff)
  then show ?thesis using \<open>4 \<le> i\<close> by (simp add: bit_unsigned_iff)
qed

lemma nib_bit_lt: "x < 16 \<Longrightarrow> bit (x :: byte) i \<Longrightarrow> i < 4"
  using nib_bits not_le by blast

lemma byte_nibbles_pack: "x < 16 \<Longrightarrow> y < 16 \<Longrightarrow> byte_nibbles (push_bit 4 x OR y) = [x, y]"
proof -
  assume a: "x < 16" "y < 16"
  have "drop_bit 4 (push_bit 4 x OR y) = x"
    by (rule bit_eqI) (use a in \<open>auto simp: bit_simps dest: nib_bit_lt\<close>)
  moreover have m: "(0x0f :: byte) = mask 4" by (simp add: mask_eq_exp_minus_1)
  have "(push_bit 4 x OR y) AND 0x0f = y" unfolding m
    by (rule bit_eqI) (use a in \<open>auto simp: bit_simps dest: nib_bit_lt\<close>)
  ultimately show ?thesis by (simp add: byte_nibbles_def)
qed

lemma pack_pairs_unpack:
  "nibs p \<Longrightarrow> even (length p) \<Longrightarrow> \<exists>b. pack_pairs p = Some b \<and> concat (map byte_nibbles b) = p \<and> length b = length p div 2"
  by (induction p rule: pack_pairs.induct) (auto simp: byte_nibbles_pack)

lemma hex_prefix_roundtrip:
  assumes "nibs k"
  obtains hp where "hex_prefix k leaf = Some hp" "hex_prefix_decode hp = Some (k, leaf)" "length hp = Suc (length k div 2)"
proof (cases "odd (length k)")
  case True
  then obtain n r where k: "k = n # r" "even (length r)" by (cases k) auto
  have om: "length (n # r) mod 2 = 1" using k by (simp add: mod_Suc)
  obtain b where b: "pack_pairs r = Some b" "concat (map byte_nibbles b) = r" "length b = length r div 2"
    using pack_pairs_unpack [of r] assms k by auto
  define flag :: byte where "flag = (if leaf then 2 else 0) + 1"
  have fl: "flag < 16" "\<not> flag > 3" "flag AND 1 = 1" "(flag AND 2 = 2) = leaf" by (simp_all add: flag_def)
  have "byte_nibbles (push_bit 4 flag OR n) = [flag, n]" using byte_nibbles_pack fl assms k by simp
  then have "drop_bit 4 (push_bit 4 flag OR n) = flag" "(push_bit 4 flag OR n) AND 0x0f = n" by (simp_all add: byte_nibbles_def)
  moreover have "hex_prefix k leaf = Some ((push_bit 4 flag OR n) # b)"
    using om b by (simp add: hex_prefix_def flag_def Let_def k(1))
  ultimately show ?thesis
    using that [of "(push_bit 4 flag OR n) # b"] fl b k by (simp add: hex_prefix_decode_def Let_def)
next
  case False
  obtain b where b: "pack_pairs k = Some b" "concat (map byte_nibbles b) = k" "length b = length k div 2"
    using pack_pairs_unpack [of k] assms False by auto
  define flag :: byte where "flag = (if leaf then 2 else 0)"
  have fl: "flag < 16" "\<not> flag > 3" "flag AND 1 \<noteq> 1" "(flag AND 2 = 2) = leaf" by (simp_all add: flag_def)
  have "byte_nibbles (push_bit 4 flag OR 0) = [flag, 0]" by (rule byte_nibbles_pack) (use fl in auto)
  then have "drop_bit 4 (push_bit 4 flag) = flag" by (simp add: byte_nibbles_def)
  moreover have "hex_prefix k leaf = Some (push_bit 4 flag # b)"
    using False b by (simp add: hex_prefix_def flag_def Let_def)
  ultimately show ?thesis
    using that [of "push_bit 4 flag # b"] fl b by (simp add: hex_prefix_decode_def Let_def)
qed

text \<open>
  What the trie relies on of the RLP crate: decoding a header in front of its payload gives the payload
  back, and the empty string is the single byte \<open>0x80\<close>.
\<close>

definition rlp_ok :: "rlp \<Rightarrow> bool" where
  "rlp_ok R \<longleftrightarrow>
     (\<forall>p rest. length p < 2 ^ 40 \<longrightarrow> rlp_decode R (rlp_header R True (length p) @ p @ rest) = Some (True, length p, p @ rest))
     \<and> (\<forall>s rest. length s < 2 ^ 40 \<longrightarrow> rlp_decode R (rlp_string R s @ rest) = Some (False, length s, s @ rest)
          \<and> length s \<le> length (rlp_string R s) \<and> length (rlp_string R s) \<le> length s + 9)
     \<and> rlp_string R [] = [EMPTY_STRING_CODE]"

lemma rlp_list: "rlp_ok R \<Longrightarrow> length p < 2 ^ 40 \<Longrightarrow>
    rlp_decode R (rlp_header R True (length p) @ p @ rest) = Some (True, length p, p @ rest)"
  by (simp add: rlp_ok_def)

lemma rlp_str: "rlp_ok R \<Longrightarrow> length s < 2 ^ 40 \<Longrightarrow> rlp_decode R (rlp_string R s @ rest) = Some (False, length s, s @ rest)"
  by (simp add: rlp_ok_def)

text \<open>A self-delimiting item: its header gives its own length whatever follows.\<close>

definition item_ok :: "rlp \<Rightarrow> byte list \<Rightarrow> bool" where
  "item_ok R it \<longleftrightarrow> it \<noteq> [] \<and> (\<exists>l n body. \<forall>rest. rlp_decode R (it @ rest) = Some (l, n, body @ rest)
     \<and> length body \<le> length it \<and> length it - length body + n = length it)"

lemma raw_items_concat:
  "\<forall>it \<in> set its. item_ok R it \<Longrightarrow> length (concat its) \<le> f \<Longrightarrow> raw_items f R (concat its) = Some its"
proof (induction its arbitrary: f)
  case Nil
  then show ?case by (simp add: raw_items.simps)
next
  case (Cons it its)
  from Cons.prems(1) obtain l n body where it: "it \<noteq> []" "rlp_decode R (it @ concat its) = Some (l, n, body @ concat its)"
      "length body \<le> length it" "length it - length body + n = length it"
    unfolding item_ok_def by fastforce
  obtain f' where f: "f = Suc f'" "length (concat its) \<le> f'"
    using Cons.prems(2) it(1) by (cases f; cases it) auto
  have "length (it @ concat its) - length (body @ concat its) + n = length it" using it(3,4) by simp
  then show ?case using it f Cons by (subst raw_items.simps) (simp add: get_to_def Let_def)
qed

text \<open>The child references \<open>mk_child_ref\<close> makes: a hash, or an RLP list of less than 32 bytes.\<close>

definition ref_ok :: "rlp \<Rightarrow> byte list \<Rightarrow> bool" where
  "ref_ok R r \<longleftrightarrow> length r = 32 \<or> length r < 32 \<and> (\<exists>p. r = rlp_header R True (length p) @ p)"

lemma item_str: "rlp_ok R \<Longrightarrow> length s < 2 ^ 40 \<Longrightarrow> rlp_string R s \<noteq> [] \<Longrightarrow> item_ok R (rlp_string R s)"
  unfolding item_ok_def rlp_ok_def by (intro conjI exI [of _ False] exI [of _ "length s"] exI [of _ s]) auto

lemma rlp_string_nonempty: "rlp_ok R \<Longrightarrow> length s < 2 ^ 40 \<Longrightarrow> rlp_string R s \<noteq> []"
proof (cases "s = []")
  case False
  then show "rlp_ok R \<Longrightarrow> length s < 2 ^ 40 \<Longrightarrow> ?thesis" unfolding rlp_ok_def by fastforce
qed (simp add: rlp_ok_def)

lemma decode_empty: "rlp_ok R \<Longrightarrow> rlp_decode R [EMPTY_STRING_CODE] = Some (False, 0, [])"
  using rlp_str [of R "[]" "[]"] by (simp add: rlp_ok_def)

lemma item_empty: "rlp_ok R \<Longrightarrow> item_ok R [EMPTY_STRING_CODE]"
  using item_str [of R "[]"] by (simp add: rlp_ok_def)

lemma ref_ok_hash: "ref_ok R (be256 h)"
  by (simp add: ref_ok_def)

text \<open>A reference in its encoded form: an item, not the empty string, that decodes to the reference.\<close>

definition ref_codes :: "rlp \<Rightarrow> byte list \<Rightarrow> bool" where
  "ref_codes R r \<longleftrightarrow> length r \<le> 32 \<and> item_ok R (encode_ref R r) \<and> decode_ref R (encode_ref R r) = Some r
     \<and> encode_ref R r \<noteq> [EMPTY_STRING_CODE]"

lemma ref_codes_hash:
  assumes "rlp_ok R" "length r = 32" shows "ref_codes R r"
proof -
  have d: "rlp_decode R (rlp_string R r) = Some (False, 32, r)"
    using rlp_str [OF assms(1), of r "[]"] assms(2) by simp
  then have "rlp_string R r \<noteq> [EMPTY_STRING_CODE]" using decode_empty [OF assms(1)] by auto
  then show ?thesis using d item_str [OF assms(1), of r] rlp_string_nonempty [OF assms(1), of r] assms(2)
    by (simp add: ref_codes_def encode_ref_def decode_ref_def get_to_def)
qed

lemma ref_codes_inline:
  assumes R: "rlp_ok R" and p: "b = rlp_header R True (length p) @ p" "length b < 32"
  shows "ref_codes R b"
proof -
  have dec: "rlp_decode R (b @ rest) = Some (True, length p, p @ rest)" for rest
    using rlp_list [OF R, of p rest] p by simp
  have "b \<noteq> [EMPTY_STRING_CODE]" using dec [of "[]"] decode_empty [OF R] by auto
  moreover have "b \<noteq> []"
  proof
    assume "b = []"
    then have "rlp_decode R [EMPTY_STRING_CODE] = Some (True, length p, p @ [EMPTY_STRING_CODE])" using dec [of "[EMPTY_STRING_CODE]"] by simp
    then show False using decode_empty [OF R] by simp
  qed
  moreover from this have "item_ok R b" unfolding item_ok_def using dec p(1)
    by (intro conjI exI [of _ True] exI [of _ "length p"] exI [of _ p]) auto
  ultimately show ?thesis using dec [of "[]"] p(2) by (simp add: ref_codes_def encode_ref_def decode_ref_def)
qed

lemma ref_roundtrip: "rlp_ok R \<Longrightarrow> ref_ok R r \<Longrightarrow> ref_codes R r"
  by (auto simp: ref_ok_def intro: ref_codes_hash ref_codes_inline)

definition child_item :: "rlp \<Rightarrow> child_ref option \<Rightarrow> byte list" where
  "child_item R c = (case c of Some (Some r) \<Rightarrow> encode_ref R r | _ \<Rightarrow> [EMPTY_STRING_CODE])"

definition resolved_ok :: "rlp \<Rightarrow> child_ref option \<Rightarrow> bool" where
  "resolved_ok R c \<longleftrightarrow> c = None \<or> (\<exists>r. c = Some (Some r) \<and> ref_ok R r)"

lemma encode_children_concat:
  "\<forall>c \<in> set cs. resolved_ok R c \<Longrightarrow> encode_children R cs = Some (concat (map (child_item R) cs))"
  by (induction R cs rule: encode_children.induct) (auto simp: resolved_ok_def child_item_def)

lemma decode_children_items:
  "rlp_ok R \<Longrightarrow> \<forall>c \<in> set cs. resolved_ok R c \<Longrightarrow> decode_children R (map (child_item R) cs) = Some cs"
proof (induction cs)
  case (Cons c cs)
  then have "resolved_ok R c" by simp
  then show ?case using Cons ref_roundtrip [OF Cons.prems(1)] by (auto simp: resolved_ok_def child_item_def ref_codes_def)
qed simp

definition node_ok :: "rlp \<Rightarrow> node \<Rightarrow> bool" where
  "node_ok R n \<longleftrightarrow>
     (case n of
        Leaf k v \<Rightarrow> nibs k \<and> length k \<le> 64 \<and> length v < 2 ^ 32
      | Ext k c \<Rightarrow> nibs k \<and> length k \<le> 64 \<and> (\<exists>r. c = Some r \<and> ref_ok R r)
      | Branch cs \<Rightarrow> length cs = 16 \<and> (\<forall>c \<in> set cs. resolved_ok R c))"

lemma decode_list:
  assumes R: "rlp_ok R" and p: "concat its = p" "\<forall>it \<in> set its. item_ok R it" and sz: "length p < 2 ^ 40"
  shows "decode_node R (rlp_header R True (length p) @ p) =
    (if length its = 2 then do {
         hp \<leftarrow> string_payload R (its ! 0);
         (key, leaf) \<leftarrow> hex_prefix_decode hp;
         if leaf then map_option (Leaf key) (string_payload R (its ! 1))
         else map_option (\<lambda>r. Ext key (Some r)) (decode_ref R (its ! 1))
       }
     else if length its = 17 then map_option Branch (decode_children R (take 16 its))
     else None)"
proof -
  have "rlp_decode R (rlp_header R True (length p) @ p) = Some (True, length p, p)"
    using rlp_list [OF R sz, of "[]"] by simp
  moreover have "raw_items (length p) R p = Some its" using raw_items_concat [OF p(2), of "length p"] p(1) by simp
  ultimately show ?thesis by (simp add: decode_node_def get_to_def)
qed

lemma string_payload_str: "rlp_ok R \<Longrightarrow> length s < 2 ^ 40 \<Longrightarrow> string_payload R (rlp_string R s) = Some s"
  using rlp_str [of R s "[]"] by (simp add: string_payload_def get_to_def)

lemma rlp_string_len: "rlp_ok R \<Longrightarrow> length s < 2 ^ 40 \<Longrightarrow> length (rlp_string R s) \<le> length s + 9"
  by (simp add: rlp_ok_def)

lemma encode_ref_len: "rlp_ok R \<Longrightarrow> length r \<le> 32 \<Longrightarrow> length (encode_ref R r) \<le> 41"
  using rlp_string_len [of R r] by (auto simp: encode_ref_def)

lemma concat_len_le: "\<forall>x \<in> set xs. length (f x) \<le> b \<Longrightarrow> length (concat (map f xs)) \<le> length xs * b"
  by (induction xs) auto

lemma node_roundtrip:
  assumes R: "rlp_ok R" and n: "node_ok R n"
  obtains p where "encode_node R n = Some (rlp_header R True (length p) @ p)" "length p < 2 ^ 40"
    "decode_node R (rlp_header R True (length p) @ p) = Some n"
proof (cases n)
  case (Leaf k v)
  obtain hp where hp: "hex_prefix k True = Some hp" "hex_prefix_decode hp = Some (k, True)" "length hp = Suc (length k div 2)"
    using hex_prefix_roundtrip [of k] n Leaf by (auto simp: node_ok_def)
  let ?its = "[rlp_string R hp, rlp_string R v]"
  have l33: "length hp \<le> 33" using hp(3) n Leaf by (simp add: node_ok_def) linarith
  then have l: "length hp < 2 ^ 40" "length v < 2 ^ 32" "length v < 2 ^ 40" "length hp \<le> 33"
    using n Leaf by (simp_all add: node_ok_def)
  have sz: "length (concat ?its) < 2 ^ 40" using rlp_string_len [OF R l(1)] rlp_string_len [OF R l(3)] l by simp
  have its: "\<forall>it \<in> set ?its. item_ok R it"
    using item_str [OF R l(1)] item_str [OF R l(3)] rlp_string_nonempty [OF R l(1)] rlp_string_nonempty [OF R l(3)] by simp
  have "decode_node R (rlp_header R True (length (concat ?its)) @ concat ?its) = Some n"
    using decode_list [OF R refl its sz] hp l Leaf by (simp add: string_payload_str [OF R])
  then show ?thesis using that [of "concat ?its"] sz hp(1) Leaf
    by (simp add: encode_node_def encode_payload_def)
next
  case (Ext k c)
  then obtain r where r: "c = Some r" "ref_codes R r" using n ref_roundtrip [OF R] by (auto simp: node_ok_def)
  obtain hp where hp: "hex_prefix k False = Some hp" "hex_prefix_decode hp = Some (k, False)" "length hp = Suc (length k div 2)"
    using hex_prefix_roundtrip [of k] n Ext by (auto simp: node_ok_def)
  let ?its = "[rlp_string R hp, encode_ref R r]"
  have "length hp \<le> 33" using hp(3) n Ext by (simp add: node_ok_def) linarith
  then have l: "length hp < 2 ^ 40" "length hp \<le> 33" by simp_all
  have sz: "length (concat ?its) < 2 ^ 40"
    using rlp_string_len [OF R l(1)] encode_ref_len [OF R, of r] l r by (simp add: ref_codes_def)
  have its: "\<forall>it \<in> set ?its. item_ok R it"
    using item_str [OF R l(1)] rlp_string_nonempty [OF R l(1)] r by (simp add: ref_codes_def)
  have "decode_node R (rlp_header R True (length (concat ?its)) @ concat ?its) = Some n"
    using decode_list [OF R refl its sz] hp l Ext r by (simp add: string_payload_str [OF R] ref_codes_def)
  then show ?thesis using that [of "concat ?its"] sz hp(1) Ext r(1)
    by (simp add: encode_node_def encode_payload_def)
next
  case (Branch cs)
  then have cs: "length cs = 16" "\<forall>c \<in> set cs. resolved_ok R c" using n by (simp_all add: node_ok_def)
  let ?its = "map (child_item R) cs @ [[EMPTY_STRING_CODE]]"
  have it: "item_ok R (child_item R c) \<and> length (child_item R c) \<le> 41" if "c \<in> set cs" for c
    using cs(2) that item_empty [OF R] encode_ref_len [OF R] ref_roundtrip [OF R]
    by (auto simp: resolved_ok_def child_item_def ref_codes_def)
  have "length (concat (map (child_item R) cs)) \<le> length cs * 41"
    by (rule concat_len_le) (use it in blast)
  then have sz: "length (concat ?its) < 2 ^ 40" using cs(1) by simp
  have its: "\<forall>it \<in> set ?its. item_ok R it" using it item_empty [OF R] by auto
  have "decode_node R (rlp_header R True (length (concat ?its)) @ concat ?its) = Some n"
    using decode_list [OF R refl its sz] decode_children_items [OF R cs(2)] cs(1) Branch by simp
  then show ?thesis using that [of "concat ?its"] sz encode_children_concat [OF cs(2)] Branch
    by (simp add: encode_node_def encode_payload_def)
qed

end
