(* ===== verification/Trie_Fun.thy ===== *)
theory Trie_Fun
  imports Trie
begin

text \<open>
  Tries as values: \<open>twf\<close> says when one is canonical, \<open>look\<close> is the map it stands for, and two canonical
  tries of the same map are equal (\<open>trie_ext\<close>). \<open>tins\<close> and \<open>trem\<close> are insertion and removal; \<open>tenc\<close> is
  the encoding a store holds for a trie.
\<close>

subsection \<open>Functional tries\<close>

datatype trie = TLeaf path "byte list" | TExt path trie | TBranch "trie option list"

lemma trie_child_size [termination_simp]: "Some t \<in> set cs \<Longrightarrow> size t < Suc (size_list (size_option size) cs)"
  by (induction cs) auto

text \<open>Canonical tries whose keys have \<open>n\<close> nibbles.\<close>

inductive twf :: "nat \<Rightarrow> trie \<Rightarrow> bool" where
  twf_leaf: "length k = n \<Longrightarrow> nibs k \<Longrightarrow> v \<noteq> [] \<Longrightarrow> length v < 2 ^ 32 \<Longrightarrow> n \<le> 64 \<Longrightarrow> twf n (TLeaf k v)"
| twf_ext: "k \<noteq> [] \<Longrightarrow> nibs k \<Longrightarrow> twf m (TBranch cs) \<Longrightarrow> n = length k + m \<Longrightarrow> n \<le> 64 \<Longrightarrow> twf n (TExt k (TBranch cs))"
| twf_branch: "length cs = 16 \<Longrightarrow> i < j \<Longrightarrow> j < 16 \<Longrightarrow> cs ! i \<noteq> None \<Longrightarrow> cs ! j \<noteq> None
    \<Longrightarrow> (\<And>t. Some t \<in> set cs \<Longrightarrow> twf m t) \<Longrightarrow> n = Suc m \<Longrightarrow> n \<le> 64 \<Longrightarrow> twf n (TBranch cs)"

inductive_cases twf_leafE: "twf n (TLeaf k v)"
inductive_cases twf_extE: "twf n (TExt k t)"
inductive_cases twf_branchE: "twf n (TBranch cs)"

lemma twf_le: "twf n t \<Longrightarrow> n \<le> 64"
  by (auto elim: twf.cases)

fun look :: "trie \<Rightarrow> path \<Rightarrow> byte list option" where
  "look (TLeaf k v) r = (if r = k then Some v else None)"
| "look (TExt k t) r = (if prefix k r then look t (drop (length k) r) else None)"
| "look (TBranch cs) r =
     (case r of
        [] \<Rightarrow> None
      | i # r \<Rightarrow> if unat i < length cs then (case cs ! unat i of None \<Rightarrow> None | Some t \<Rightarrow> look t r) else None)"

text \<open>The stored bytes of a trie: child references are always up to date.\<close>

fun tenc :: "keccak_fn \<Rightarrow> rlp \<Rightarrow> trie \<Rightarrow> byte list" where
  "tenc H R (TLeaf k v) = the (encode_node R (Leaf k v))"
| "tenc H R (TExt k t) = the (encode_node R (Ext k (Some (mk_child_ref H (tenc H R t)))))"
| "tenc H R (TBranch cs) = the (encode_node R (Branch (map (map_option (\<lambda>t. Some (mk_child_ref H (tenc H R t)))) cs)))"

fun tnode :: "keccak_fn \<Rightarrow> rlp \<Rightarrow> trie \<Rightarrow> node" where
  "tnode H R (TLeaf k v) = Leaf k v"
| "tnode H R (TExt k t) = Ext k (Some (mk_child_ref H (tenc H R t)))"
| "tnode H R (TBranch cs) = Branch (map (map_option (\<lambda>t. Some (mk_child_ref H (tenc H R t)))) cs)"

lemma encode_tnode:
  assumes R: "rlp_ok R" and n: "node_ok R (tnode H R t)"
  shows "encode_node R (tnode H R t) = Some (tenc H R t)" "decode_node R (tenc H R t) = Some (tnode H R t)"
    "ref_ok R (mk_child_ref H (tenc H R t))"
proof -
  obtain p where p: "encode_node R (tnode H R t) = Some (rlp_header R True (length p) @ p)" "length p < 2 ^ 40"
      "decode_node R (rlp_header R True (length p) @ p) = Some (tnode H R t)"
    using node_roundtrip [OF R n] by blast
  have e: "tenc H R t = rlp_header R True (length p) @ p" using p(1) by (cases t) auto
  show "encode_node R (tnode H R t) = Some (tenc H R t)" "decode_node R (tenc H R t) = Some (tnode H R t)"
    using p e by simp_all
  show "ref_ok R (mk_child_ref H (tenc H R t))"
    using e ref_ok_hash [of R] by (auto simp: mk_child_ref_def ref_ok_def)
qed

lemma tnode_ok: "rlp_ok R \<Longrightarrow> twf n t \<Longrightarrow> node_ok R (tnode H R t)"
proof (rotate_tac, induction rule: twf.induct)
  case (twf_ext k m cs n)
  then show ?case using encode_tnode(3) [of R H "TBranch cs"] by (auto simp: node_ok_def)
next
  case (twf_branch cs i j m n)
  then have "resolved_ok R (map_option (\<lambda>t. Some (mk_child_ref H (tenc H R t))) c)" if "c \<in> set cs" for c
    using that encode_tnode(3) [of R H] by (cases c) (auto simp: resolved_ok_def)
  then show ?case using twf_branch.hyps(1) by (auto simp: node_ok_def)
qed (simp add: node_ok_def)

lemmas twf_encode = encode_tnode(1) [OF _ tnode_ok] and twf_decode = encode_tnode(2) [OF _ tnode_ok]

subsection \<open>Insertion\<close>

definition two_kids :: "byte \<Rightarrow> trie \<Rightarrow> byte \<Rightarrow> trie \<Rightarrow> trie" where
  "two_kids i t j u = TBranch ((replicate 16 None)[unat i := Some t, unat j := Some u])"

text \<open>A trie below a key prefix, kept canonical.\<close>

definition ext_by :: "path \<Rightarrow> trie \<Rightarrow> trie" where
  "ext_by k t =
     (if k = [] then t
      else case t of TLeaf k2 v \<Rightarrow> TLeaf (k @ k2) v | TExt k2 u \<Rightarrow> TExt (k @ k2) u | TBranch cs \<Rightarrow> TExt k (TBranch cs))"

fun tins :: "trie \<Rightarrow> path \<Rightarrow> byte list \<Rightarrow> trie" where
  "tins (TLeaf k v) r x =
     (if k = r then TLeaf k x
      else (let c = common_prefix k r in
        ext_by (take c r) (two_kids (k ! c) (TLeaf (drop (c + 1) k) v) (r ! c) (TLeaf (drop (c + 1) r) x))))"
| "tins (TExt k t) r x =
     (let c = common_prefix k r in
      if c = length k then TExt k (tins t (drop c r) x)
      else ext_by (take c k) (two_kids (k ! c) (ext_by (drop (c + 1) k) t) (r ! c) (TLeaf (drop (c + 1) r) x)))"
| "tins (TBranch cs) r x =
     (case r of
        [] \<Rightarrow> TBranch cs
      | i # r \<Rightarrow>
          if unat i < length cs then
            TBranch (cs[unat i := Some (case cs ! unat i of None \<Rightarrow> TLeaf r x | Some t \<Rightarrow> tins t r x)])
          else TBranch cs)"

subsection \<open>Removal\<close>

definition kids_left :: "trie option list \<Rightarrow> nat list" where
  "kids_left cs = filter (\<lambda>i. cs ! i \<noteq> None) [0..<length cs]"

definition shrink :: "trie option list \<Rightarrow> trie option" where
  "shrink cs =
     (case kids_left cs of
        [] \<Rightarrow> None
      | [i] \<Rightarrow> map_option (ext_by [of_nat i]) (cs ! i)
      | _ \<Rightarrow> Some (TBranch cs))"

fun trem :: "trie \<Rightarrow> path \<Rightarrow> trie option" where
  "trem (TLeaf k v) r = (if k = r then None else Some (TLeaf k v))"
| "trem (TExt k t) r = (if prefix k r then map_option (ext_by k) (trem t (drop (length k) r)) else Some (TExt k t))"
| "trem (TBranch cs) r =
     (case r of
        [] \<Rightarrow> Some (TBranch cs)
      | i # r \<Rightarrow>
          if unat i < length cs then
            (case cs ! unat i of None \<Rightarrow> Some (TBranch cs) | Some t \<Rightarrow> shrink (cs[unat i := trem t r]))
          else Some (TBranch cs))"

subsection \<open>Common prefixes\<close>

lemma common_prefix_simps [simp]:
  "common_prefix [] b = 0" "common_prefix a [] = 0"
  "common_prefix (x # a) (y # b) = (if x = y then Suc (common_prefix a b) else 0)"
  by (auto simp: common_prefix_def)

lemma common_prefix_append [simp]: "common_prefix (p @ a) (p @ b) = length p + common_prefix a b"
  by (induction p) auto

lemma common_prefix_full: "common_prefix k r = length k \<longleftrightarrow> prefix k r"
proof (induction k arbitrary: r)
  case (Cons x k)
  then show ?case by (cases r) auto
qed simp

lemma common_prefix_self [simp]: "common_prefix k (k @ r) = length k"
  by (simp add: common_prefix_full)

lemma common_prefix_decomp:
  "length k \<le> length r \<Longrightarrow> \<not> prefix k r \<Longrightarrow>
     \<exists>a z w y s. k = a @ z # w \<and> r = a @ y # s \<and> z \<noteq> y \<and> common_prefix k r = length a"
proof (induction k arbitrary: r)
  case (Cons x k)
  then obtain y r' where r: "r = y # r'" by (cases r) auto
  show ?case
  proof (cases "x = y")
    case True
    then have "length k \<le> length r'" "\<not> prefix k r'" using Cons.prems r by auto
    from Cons.IH [OF this] obtain a z w q t
      where d: "k = a @ z # w" "r' = a @ q # t" "z \<noteq> q" "common_prefix k r' = length a" by blast
    show ?thesis
      by (rule exI [of _ "x # a"], rule exI [of _ z], rule exI [of _ w], rule exI [of _ q], rule exI [of _ t])
        (use d True r in simp)
  next
    case False
    show ?thesis
      by (rule exI [of _ "[]"], rule exI [of _ x], rule exI [of _ k], rule exI [of _ y], rule exI [of _ r'])
        (use False r in simp)
  qed
qed simp

lemma prefix_drop: "prefix k r \<Longrightarrow> r = k @ drop (length k) r"
  by (auto simp: prefix_def)

lemma prefix_append_iff: "prefix (a @ b) r \<longleftrightarrow> prefix a r \<and> prefix b (drop (length a) r)"
  by (auto simp: prefix_def)

subsection \<open>Building blocks\<close>

lemma look_ext_by: "look (ext_by k t) r = (if prefix k r then look t (drop (length k) r) else None)"
proof (cases t)
  case (TLeaf k2 v)
  then show ?thesis by (auto simp: ext_by_def prefix_def)
next
  case (TExt k2 u)
  then show ?thesis by (auto simp: ext_by_def prefix_append_iff add.commute)
qed (simp add: ext_by_def)

lemma twf_ext_by: "twf m t \<Longrightarrow> nibs k \<Longrightarrow> length k + m \<le> 64 \<Longrightarrow> twf (length k + m) (ext_by k t)"
proof (cases "k = []")
  case False
  assume "twf m t" "nibs k" "length k + m \<le> 64"
  then show ?thesis
  proof (cases rule: twf.cases)
    case (twf_leaf k2 v)
    then show ?thesis using \<open>nibs k\<close> \<open>length k + m \<le> 64\<close> False by (auto simp: ext_by_def intro: twf.twf_leaf)
  next
    case (twf_ext k2 m2 cs)
    then show ?thesis using \<open>nibs k\<close> \<open>length k + m \<le> 64\<close> False
      by (auto simp: ext_by_def intro!: twf.twf_ext [of _ m2])
  next
    case (twf_branch cs i j m2)
    then show ?thesis using \<open>twf m t\<close> \<open>nibs k\<close> \<open>length k + m \<le> 64\<close> False
      by (auto simp: ext_by_def intro!: twf.twf_ext [of _ m])
  qed
qed (simp add: ext_by_def)

lemma unat_neq: "i \<noteq> j \<Longrightarrow> unat (i :: byte) \<noteq> unat j"
  by (simp add: word_unat_eq_iff)

lemma look_two_kids:
  assumes "i \<noteq> j" "i < 16" "j < 16"
  shows "look (two_kids i t j u) r =
    (case r of [] \<Rightarrow> None | x # r \<Rightarrow> if x = j then look u r else if x = i then look t r else None)"
  using assms unat_neq [OF assms(1)]
  by (cases r) (auto simp: two_kids_def nib_unat nth_list_update word_unat_eq_iff split: option.splits)

lemma twf_two_kids:
  assumes "i \<noteq> j" "i < 16" "j < 16" "twf m t" "twf m u" "Suc m \<le> 64"
  shows "twf (Suc m) (two_kids i t j u)"
proof -
  let ?cs = "(replicate 16 None)[unat i := Some t, unat j := Some u]"
  have n: "unat i < 16" "unat j < 16" "unat i \<noteq> unat j" using assms nib_unat unat_neq by auto
  have ci: "?cs ! unat i = Some t" "?cs ! unat j = Some u" using n by simp_all
  have sub: "set ?cs \<subseteq> {None, Some t, Some u}"
    using set_update_subset_insert [of "(replicate 16 None)[unat i := Some t]" "unat j" "Some u"]
      set_update_subset_insert [of "replicate 16 None" "unat i" "Some t"] by auto
  show ?thesis
  proof (cases "unat i < unat j")
    case True
    show ?thesis unfolding two_kids_def
      by (rule twf_branch [of _ "unat i" "unat j"]) (use ci n sub True assms in auto)
  next
    case False
    show ?thesis unfolding two_kids_def
      by (rule twf_branch [of _ "unat j" "unat i"]) (use ci n sub False assms in auto)
  qed
qed

lemma twf_kid: "twf n (TBranch cs) \<Longrightarrow> i < 16 \<Longrightarrow> cs ! i = Some t \<Longrightarrow> \<exists>m. n = Suc m \<and> twf m t"
  by (erule twf_branchE) (metis nth_mem)

lemma twf_length_cs: "twf n (TBranch cs) \<Longrightarrow> length cs = 16"
  by (erule twf_branchE)

lemma twf_pos: "twf n (TBranch cs) \<Longrightarrow> 0 < n"
  by (erule twf_branchE) simp

subsection \<open>What insertion does\<close>

lemma tins_branch: "\<exists>cs'. tins (TBranch cs) r x = TBranch cs'"
  by (auto split: list.splits)

lemma branch_update:
  assumes "twf n (TBranch cs)" "unat i < 16" "n = Suc m" "twf m t"
  shows "twf n (TBranch (cs[unat i := Some t]))"
  using assms(1)
proof (cases rule: twf.cases)
  case (twf_branch a b m')
  have sub: "set (cs[unat i := Some t]) \<subseteq> insert (Some t) (set cs)" by (rule set_update_subset_insert)
  show ?thesis
  proof (rule twf.twf_branch [of _ a b])
    show "cs[unat i := Some t] ! a \<noteq> None" "cs[unat i := Some t] ! b \<noteq> None"
      using twf_branch assms(2) by (auto simp: nth_list_update)
    show "twf m u" if "Some u \<in> set (cs[unat i := Some t])" for u
      using that sub twf_branch assms(3,4) by auto
  qed (use twf_branch assms(3) in auto)
qed

lemma twf_tins:
  "twf n t \<Longrightarrow> length r = n \<Longrightarrow> nibs r \<Longrightarrow> x \<noteq> [] \<Longrightarrow> length x < 2 ^ 32 \<Longrightarrow> twf n (tins t r x)"
proof (induction arbitrary: r rule: twf.induct)
  case (twf_leaf k n v)
  show ?case
  proof (cases "k = r")
    case True
    then show ?thesis using twf_leaf by (auto intro: twf.twf_leaf)
  next
    case False
    then have np: "\<not> prefix k r" using twf_leaf by (metis not_equal_is_parallel parallelD1)
    have le: "length k \<le> length r" using twf_leaf by simp
    obtain a z w y s where d: "k = a @ z # w" "r = a @ y # s" "z \<noteq> y" "common_prefix k r = length a"
      using common_prefix_decomp [OF le np] by blast
    have "twf (length a + Suc (length w)) (ext_by a (two_kids z (TLeaf w v) y (TLeaf s x)))"
      by (intro twf_ext_by twf_two_kids twf.twf_leaf) (use d twf_leaf in auto)
    then show ?thesis using False d twf_leaf.hyps(1) by (auto simp: Let_def nth_append)
  qed
next
  case (twf_ext k m cs n)
  show ?case
  proof (cases "prefix k r")
    case True
    then obtain r2 where r: "r = k @ r2" by (auto simp: prefix_def)
    then have "twf m (tins (TBranch cs) r2 x)" using twf_ext by simp
    moreover obtain cs' where cs': "tins (TBranch cs) r2 x = TBranch cs'" using tins_branch by blast
    ultimately have "twf n (TExt k (TBranch cs'))" using twf_ext by (auto intro: twf.twf_ext)
    then show ?thesis using r cs' by (simp add: Let_def del: tins.simps(3))
  next
    case False
    have le: "length k \<le> length r" using twf_ext by simp
    obtain a z w y s where d: "k = a @ z # w" "r = a @ y # s" "z \<noteq> y" "common_prefix k r = length a"
      using common_prefix_decomp [OF le False] by blast
    have "twf (length a + Suc (length w + m)) (ext_by a (two_kids z (ext_by w (TBranch cs)) y (TLeaf s x)))"
      by (intro twf_ext_by twf_two_kids twf.twf_leaf) (use d twf_ext in auto)
    then show ?thesis using False d twf_ext.hyps(4) by (auto simp: Let_def nth_append add.assoc)
  qed
next
  case (twf_branch cs i j m n)
  then obtain q r2 where r: "r = q # r2" "unat q < 16" "length r2 = m" "nibs r2" by (cases r) (auto simp: nib_unat)
  have b: "twf n (TBranch cs)" by (rule twf.twf_branch [OF twf_branch.hyps(1-6)]) (use twf_branch.hyps in auto)
  have "twf m (case cs ! unat q of None \<Rightarrow> TLeaf r2 x | Some t \<Rightarrow> tins t r2 x)"
  proof (cases "cs ! unat q")
    case None
    then show ?thesis using r twf_branch by (auto intro: twf.twf_leaf)
  next
    case (Some t)
    then have "Some t \<in> set cs" using r twf_branch.hyps(1) by (metis nth_mem)
    then show ?thesis using twf_branch.IH twf_branch.prems r Some by simp
  qed
  from branch_update [OF b r(2) _ this] show ?case using r twf_branch by simp
qed

lemma look_tins:
  "twf n t \<Longrightarrow> length r = n \<Longrightarrow> nibs r \<Longrightarrow> look (tins t r x) r' = (if r' = r then Some x else look t r')"
proof (induction arbitrary: r r' rule: twf.induct)
  case (twf_leaf k n v)
  show ?case
  proof (cases "k = r")
    case False
    then have np: "\<not> prefix k r" using twf_leaf by (metis not_equal_is_parallel parallelD1)
    have le: "length k \<le> length r" using twf_leaf by simp
    obtain a z w y s where d: "k = a @ z # w" "r = a @ y # s" "z \<noteq> y" "common_prefix k r = length a"
      using common_prefix_decomp [OF le np] by blast
    have "look (ext_by a (two_kids z (TLeaf w v) y (TLeaf s x))) r' = (if r' = r then Some x else look (TLeaf k v) r')"
      using d twf_leaf by (auto simp: look_ext_by look_two_kids prefix_def split: list.splits)
    then show ?thesis using False d by (simp add: Let_def nth_append)
  qed simp
next
  case (twf_ext k m cs n)
  show ?case
  proof (cases "prefix k r")
    case True
    then obtain r2 where r: "r = k @ r2" by (auto simp: prefix_def)
    have "look (tins (TBranch cs) r2 x) q = (if q = r2 then Some x else look (TBranch cs) q)" for q
      using twf_ext r by simp
    then show ?thesis using r by (auto simp: Let_def prefix_def simp del: tins.simps(3) look.simps(3))
  next
    case False
    have le: "length k \<le> length r" using twf_ext by simp
    obtain a z w y s where d: "k = a @ z # w" "r = a @ y # s" "z \<noteq> y" "common_prefix k r = length a"
      using common_prefix_decomp [OF le False] by blast
    have "look (ext_by a (two_kids z (ext_by w (TBranch cs)) y (TLeaf s x))) r' = (if r' = r then Some x else look (TExt k (TBranch cs)) r')"
      using d twf_ext.hyps twf_ext.prems
      by (auto simp: look_ext_by look_two_kids prefix_def simp del: look.simps(3) split: list.splits)
    then show ?thesis using False d by (simp add: Let_def nth_append)
  qed
next
  case (twf_branch cs i j m n)
  then obtain q r2 where r: "r = q # r2" "unat q < 16" "length r2 = m" "nibs r2" by (cases r) (auto simp: nib_unat)
  have "look (case cs ! unat q of None \<Rightarrow> TLeaf r2 x | Some t \<Rightarrow> tins t r2 x) p
      = (if p = r2 then Some x else case cs ! unat q of None \<Rightarrow> None | Some t \<Rightarrow> look t p)" for p
  proof (cases "cs ! unat q")
    case (Some t)
    then have "Some t \<in> set cs" using r twf_branch.hyps(1) by (metis nth_mem)
    then show ?thesis using twf_branch.IH r Some by simp
  qed simp
  then show ?case using r twf_branch.hyps(1) unat_neq
    by (auto simp: nth_list_update split: list.splits)
qed

subsection \<open>What removal does\<close>

definition looko :: "trie option \<Rightarrow> path \<Rightarrow> byte list option" where
  "looko t r = (case t of None \<Rightarrow> None | Some t \<Rightarrow> look t r)"

lemma looko_simps [simp]: "looko None r = None" "looko (Some t) r = look t r"
  by (simp_all add: looko_def)

lemma kids_leftI: "i < length cs \<Longrightarrow> cs ! i \<noteq> None \<Longrightarrow> i \<in> set (kids_left cs)"
  by (simp add: kids_left_def)

lemma distinct_kids_left: "distinct (kids_left cs)" and sorted_kids_left: "sorted (kids_left cs)"
  by (simp_all add: kids_left_def sorted_wrt_filter)

lemma kids_left_one:
  assumes "kids_left cs = [i]"
  shows "i < length cs" "cs ! i \<noteq> None" "j < length cs \<Longrightarrow> j \<noteq> i \<Longrightarrow> cs ! j = None"
proof -
  have s: "{i. i < length cs \<and> cs ! i \<noteq> None} = {i}"
    using arg_cong [OF assms, of set] by (simp add: kids_left_def)
  then show "i < length cs" "cs ! i \<noteq> None" by blast+
  show "j < length cs \<Longrightarrow> j \<noteq> i \<Longrightarrow> cs ! j = None" using s by blast
qed

lemma shrink_ok:
  assumes len: "length cs = 16" and kids: "\<And>t. Some t \<in> set cs \<Longrightarrow> twf m t" and ne: "kids_left cs \<noteq> []" and m: "Suc m \<le> 64"
  obtains t where "shrink cs = Some t" "twf (Suc m) t" "\<And>r. look t r = look (TBranch cs) r"
proof (cases "\<exists>i. kids_left cs = [i]")
  case True
  then obtain i where i: "kids_left cs = [i]" by blast
  note one = kids_left_one [OF i]
  obtain t where t: "cs ! i = Some t" using one(2) by auto
  have u: "unat (of_nat i :: byte) = i" using one(1) len by (simp add: unat_of_nat_less)
  have tw: "twf m t" using kids t one(1) by (metis nth_mem)
  have "twf (length [of_nat i :: byte] + m) (ext_by [of_nat i] t)"
    by (rule twf_ext_by [OF tw]) (use one(1) len m u in \<open>auto simp: nib_unat\<close>)
  moreover have "look (ext_by [of_nat i] t) r = look (TBranch cs) r" for r
  proof (cases r)
    case (Cons x r')
    then show ?thesis using t one u len
      by (cases "x = of_nat i") (auto simp: look_ext_by word_unat_eq_iff split: option.splits)
  qed (simp add: look_ext_by)
  ultimately show ?thesis using that [of "ext_by [of_nat i] t"] i t by (simp add: shrink_def)
next
  case False
  then obtain i j r where l: "kids_left cs = i # j # r" using ne by (cases "kids_left cs" rule: remdups_adj.cases) auto
  then have "i \<in> set (kids_left cs)" "j \<in> set (kids_left cs)" by simp_all
  then have "i < 16" "j < 16" "cs ! i \<noteq> None" "cs ! j \<noteq> None" using len by (simp_all add: kids_left_def)
  moreover have "i < j" using l distinct_kids_left [of cs] sorted_kids_left [of cs] by auto
  ultimately have ij: "i < 16" "j < 16" "cs ! i \<noteq> None" "cs ! j \<noteq> None" "i < j" by blast+
  have "twf (Suc m) (TBranch cs)" by (rule twf_branch [of _ i j]) (use ij len kids m in auto)
  then show ?thesis using that [of "TBranch cs"] l by (simp add: shrink_def)
qed

lemma kids_left_update:
  assumes "length cs = 16" "a < b" "b < 16" "cs ! a \<noteq> None" "cs ! b \<noteq> None"
  shows "kids_left (cs[i := c]) \<noteq> []"
proof -
  have "a \<in> set (kids_left (cs[i := c])) \<or> b \<in> set (kids_left (cs[i := c]))"
    using assms by (cases "i = a") (auto intro!: kids_leftI)
  then show ?thesis by auto
qed

lemma trem_props:
  "twf n t \<Longrightarrow> length r = n \<Longrightarrow> nibs r \<Longrightarrow>
     (\<forall>r'. looko (trem t r) r' = (if r' = r then None else look t r')) \<and> (\<forall>t'. trem t r = Some t' \<longrightarrow> twf n t')
     \<and> ((\<exists>cs. t = TBranch cs) \<longrightarrow> trem t r \<noteq> None)"
proof (induction arbitrary: r rule: twf.induct)
  case (twf_leaf k n v)
  then show ?case by (auto intro: twf.twf_leaf)
next
  case (twf_ext k m cs n)
  show ?case
  proof (cases "prefix k r")
    case True
    then obtain r2 where r: "r = k @ r2" by (auto simp: prefix_def)
    have IH: "looko (trem (TBranch cs) r2) r' = (if r' = r2 then None else look (TBranch cs) r')"
        "trem (TBranch cs) r2 = Some t' \<Longrightarrow> twf m t'" "trem (TBranch cs) r2 \<noteq> None" for r' t'
      using twf_ext r by auto
    obtain t' where t': "trem (TBranch cs) r2 = Some t'" using IH(3) by blast
    have "looko (trem (TExt k (TBranch cs)) r) q = (if q = r then None else look (TExt k (TBranch cs)) q)" for q
      using t' IH(1) r by (auto simp: look_ext_by prefix_def simp del: trem.simps(3) look.simps(3))
    moreover have "twf n (ext_by k t')" using twf_ext_by [OF IH(2) [OF t'], of k] twf_ext by simp
    ultimately show ?thesis using t' r by (simp del: trem.simps(3) look.simps(3))
  next
    case False
    then show ?thesis using twf_ext by (auto intro: twf.twf_ext)
  qed
next
  case (twf_branch cs a b m n)
  then obtain q r2 where r: "r = q # r2" "unat q < 16" "length r2 = m" "nibs r2" by (cases r) (auto simp: nib_unat)
  have b: "twf n (TBranch cs)" by (rule twf.twf_branch [OF twf_branch.hyps(1-6)]) (use twf_branch.hyps in auto)
  show ?case
  proof (cases "cs ! unat q")
    case None
    then show ?thesis using r b twf_branch.hyps(1) by (auto split: list.splits)
  next
    case (Some t)
    have mem: "Some t \<in> set cs" using Some r twf_branch.hyps(1) by (metis nth_mem)
    have IH: "looko (trem t r2) r' = (if r' = r2 then None else look t r')" "trem t r2 = Some t' \<Longrightarrow> twf m t'" for r' t'
      using twf_branch.IH [OF mem, of r2] r by auto
    let ?cs = "cs[unat q := trem t r2]"
    have sub: "set ?cs \<subseteq> insert (trem t r2) (set cs)" by (rule set_update_subset_insert)
    have kids: "twf m u" if "Some u \<in> set ?cs" for u using that sub IH(2) twf_branch.hyps by auto
    obtain t' where t': "shrink ?cs = Some t'" "twf (Suc m) t'" "\<And>r. look t' r = look (TBranch ?cs) r"
      using shrink_ok [of ?cs m] kids kids_left_update [OF twf_branch.hyps(1,2,3,4,5)] twf_branch.hyps by auto
    have "look (TBranch ?cs) p = (if p = r then None else look (TBranch cs) p)" for p
    proof (cases p)
      case (Cons x p')
      then show ?thesis using r Some IH(1) [of p'] twf_branch.hyps(1)
        by (cases "x = q") (auto simp: word_unat_eq_iff looko_def split: option.splits)
    qed (use r in simp)
    then show ?thesis using t' r Some twf_branch.hyps by (simp del: look.simps(3))
  qed
qed

subsection \<open>A canonical trie is determined by its map\<close>

lemma twf_has_key: "twf n t \<Longrightarrow> \<exists>r v. length r = n \<and> nibs r \<and> look t r = Some v"
proof (induction rule: twf.induct)
  case (twf_ext k m cs n)
  then obtain r v where "length r = m" "nibs r" "look (TBranch cs) r = Some v" by blast
  then show ?case using twf_ext by (intro exI [of _ "k @ r"] exI [of _ v]) (simp del: look.simps(3))
next
  case (twf_branch cs i j m n)
  then obtain t where t: "cs ! i = Some t" by auto
  then have "Some t \<in> set cs" using twf_branch by (metis less_trans nth_mem)
  then obtain r v where r: "length r = m" "nibs r" "look t r = Some v" using twf_branch by blast
  have "unat (of_nat i :: byte) = i" using twf_branch by (simp add: unat_of_nat_less)
  then show ?case using r t twf_branch by (intro exI [of _ "of_nat i # r"] exI [of _ v]) (auto simp: nib_unat)
qed auto

text \<open>A branch has keys that start with two different nibbles.\<close>

lemma branch_keys:
  assumes "twf n (TBranch cs)"
  obtains x y r s where "x \<noteq> y" "look (TBranch cs) (x # r) \<noteq> None" "look (TBranch cs) (y # s) \<noteq> None"
    "length (x # r) = n" "length (y # s) = n" "nibs (x # r)" "nibs (y # s)"
  using assms
proof (cases rule: twf.cases)
  case (twf_branch i j m)
  then obtain t u where tu: "cs ! i = Some t" "cs ! j = Some u" by auto
  have "Some t \<in> set cs" "Some u \<in> set cs" using tu twf_branch by (metis less_trans nth_mem)+
  then obtain r v s w where "length r = m" "nibs r" "look t r = Some v" "length s = m" "nibs s" "look u s = Some w"
    using twf_branch twf_has_key by metis
  moreover have "unat (of_nat i :: byte) = i" "unat (of_nat j :: byte) = j" using twf_branch by (simp_all add: unat_of_nat_less)
  moreover from this have "(of_nat i :: byte) \<noteq> of_nat j" using twf_branch by (metis less_irrefl)
  ultimately show ?thesis using that [of "of_nat i" "of_nat j" r s] tu twf_branch by (simp add: nib_unat)
qed

lemma look_length: "twf n t \<Longrightarrow> look t r \<noteq> None \<Longrightarrow> length r = n \<and> nibs r"
proof (induction arbitrary: r rule: twf.induct)
  case (twf_leaf k n v)
  then show ?case by (auto split: if_splits)
next
  case (twf_ext k m cs n)
  then obtain r2 where r: "r = k @ r2" by (auto simp: prefix_def simp del: look.simps(3) split: if_splits)
  then have "length r2 = m \<and> nibs r2" using twf_ext by (simp del: look.simps(3))
  then show ?case using r twf_ext by simp
next
  case (twf_branch cs i j m n)
  then obtain x r2 t where r: "r = x # r2" "unat x < 16" "cs ! unat x = Some t" "look t r2 \<noteq> None"
    by (auto split: list.splits if_splits option.splits)
  then have "Some t \<in> set cs" using twf_branch.hyps(1) by (metis nth_mem)
  then have "length r2 = m \<and> nibs r2" using twf_branch.IH r by blast
  then show ?case using r twf_branch by (simp add: nib_unat)
qed

text \<open>Two keys of an extension's branch leave its prefix in different directions.\<close>

lemma ext_split:
  assumes "twf m (TBranch cs)"
  obtains x y r s where "x \<noteq> y" "look (TExt k (TBranch cs)) (k @ x # r) \<noteq> None" "look (TExt k (TBranch cs)) (k @ y # s) \<noteq> None"
  using branch_keys [OF assms] by (metis (no_types, lifting) append_eq_conv_conj look.simps(2) prefixI)

lemma prefix_of_keys:
  assumes "twf m (TBranch cs)" and all: "\<And>r. look (TExt k (TBranch cs)) r \<noteq> None \<Longrightarrow> prefix k' r"
  shows "prefix k' k"
proof -
  obtain x y r s where xy: "x \<noteq> y" "look (TExt k (TBranch cs)) (k @ x # r) \<noteq> None" "look (TExt k (TBranch cs)) (k @ y # s) \<noteq> None"
    using ext_split [OF assms(1)] by metis
  have p: "prefix k' (k @ x # r)" "prefix k' (k @ y # s)" using all xy(2,3) by blast+
  show ?thesis
  proof (rule ccontr)
    assume "\<not> prefix k' k"
    moreover from this obtain us where us: "k' = k @ us" using p(1) prefix_append [of k' k "x # r"] by blast
    ultimately show False using p xy(1) by (cases us) auto
  qed
qed

lemma trie_ext:
  "twf n t \<Longrightarrow> twf n t' \<Longrightarrow> (\<And>r. look t r = look t' r) \<Longrightarrow> t = t'"
proof (induction arbitrary: t' rule: twf.induct)
  case (twf_leaf k n v)
  have only: "look t' r \<noteq> None \<Longrightarrow> r = k" for r using twf_leaf.prems(2) [of r] by (simp split: if_splits)
  from twf_leaf.prems(1) show ?case
  proof (cases rule: twf.cases)
    case (twf_leaf k2 v2)
    then show ?thesis using twf_leaf.prems(2) [of k] by (simp split: if_splits)
  next
    case (twf_ext k2 m cs)
    then show ?thesis using ext_split [OF twf_ext(4), of k2] only by (metis list.inject same_append_eq)
  next
    case (twf_branch cs i j m)
    then show ?thesis using branch_keys [of n cs] twf_leaf.prems(1) only by (metis list.inject)
  qed
next
  case (twf_ext k m cs n)
  have keys: "look t' r \<noteq> None \<Longrightarrow> prefix k r" for r using twf_ext.prems(2) [of r] by (auto split: if_splits)
  from twf_ext.prems(1) show ?case
  proof (cases rule: twf.cases)
    case (twf_leaf k2 v2)
    then have "look (TExt k (TBranch cs)) r \<noteq> None \<Longrightarrow> r = k2" for r
      using twf_ext.prems(2) [of r] by (simp split: if_splits)
    then show ?thesis using ext_split [OF twf_ext.hyps(3), of k] by (metis list.inject same_append_eq)
  next
    case e: (twf_ext k2 m2 cs2)
    have "prefix k k2" by (rule prefix_of_keys [OF e(4)]) (use keys e in blast)
    moreover have "prefix k2 k"
      by (rule prefix_of_keys [OF twf_ext.hyps(3)]) (use twf_ext.prems(2) e in \<open>auto split: if_splits simp del: look.simps(3)\<close>)
    ultimately have k: "k2 = k" by (simp add: prefix_order.antisym)
    then have m: "m2 = m" using e twf_ext.hyps by simp
    have "look (TBranch cs) r = look (TBranch cs2) r" for r
      using twf_ext.prems(2) [of "k @ r"] e k by (simp del: look.simps(3))
    then have "TBranch cs = TBranch cs2" using twf_ext.IH e m by blast
    then show ?thesis using e k by simp
  next
    case (twf_branch cs2 i j m2)
    obtain x y r s where "x \<noteq> y" "look t' (x # r) \<noteq> None" "look t' (y # s) \<noteq> None"
      using branch_keys [of n cs2] twf_ext.prems(1) twf_branch(1) by metis
    then show ?thesis using keys [of "x # r"] keys [of "y # s"] twf_ext.hyps(1) by (cases k) auto
  qed
next
  case (twf_branch cs i j m n)
  have b: "twf n (TBranch cs)" by (rule twf.twf_branch [OF twf_branch.hyps(1-6)]) (use twf_branch.hyps in auto)
  obtain x y r s where xy: "x \<noteq> y" "look t' (x # r) \<noteq> None" "look t' (y # s) \<noteq> None"
    using branch_keys [OF b] twf_branch.prems(2) by metis
  from twf_branch.prems(1) show ?case
  proof (cases rule: twf.cases)
    case (twf_leaf k2 v2)
    then show ?thesis using xy by (auto split: if_splits)
  next
    case (twf_ext k2 m2 cs2)
    then show ?thesis using xy by (cases k2) (auto split: if_splits)
  next
    case c: (twf_branch cs2 i2 j2 m2)
    have mm: "m2 = m" using c twf_branch.hyps by simp
    have "cs ! a = cs2 ! a" if a: "a < 16" for a
    proof -
      have u: "unat (of_nat a :: byte) = a" using a by (simp add: unat_of_nat_less)
      have l: "looko (cs ! a) r = looko (cs2 ! a) r" for r
        using twf_branch.prems(2) [of "of_nat a # r"] c twf_branch.hyps(1) u a
        by (auto simp: looko_def split: option.splits)
      have w: "cs ! a = Some t \<Longrightarrow> twf m t" "cs2 ! a = Some t \<Longrightarrow> twf m t" for t
        using twf_branch.hyps c a mm by (metis nth_mem)+
      show ?thesis
      proof (cases "cs ! a")
        case None
        then show ?thesis using l w(2) twf_has_key by (cases "cs2 ! a") fastforce+
      next
        case (Some t)
        then obtain t2 where t2: "cs2 ! a = Some t2" using l w(1) twf_has_key by (cases "cs2 ! a") fastforce+
        have "Some t \<in> set cs" using Some a twf_branch.hyps(1) by (metis nth_mem)
        then have "t = t2" using twf_branch.IH w(2) [OF t2] l Some t2 by (metis looko_simps(2))
        then show ?thesis using Some t2 by simp
      qed
    qed
    then have "cs = cs2" using c twf_branch.hyps(1) by (intro nth_equalityI) auto
    then show ?thesis using c by simp
  qed
qed

end
