(* ===== verification/Trie_Refine.thy ===== *)
theory Trie_Refine
  imports Trie_Fun
begin

text \<open>
  The overlay over the stored nodes represents a functional trie: \<open>coh\<close> relates the nodes the code
  sees to the trie, with every child reference either dropped or up to date, and \<open>tight\<close> says that
  nothing else is stored. \<open>placed\<close> joins both for a trie that may be empty.
\<close>

subsection \<open>Nodes of a trie by path\<close>

inductive sub :: "path \<Rightarrow> trie \<Rightarrow> path \<Rightarrow> trie \<Rightarrow> bool" where
  sub_here: "sub p t p t"
| sub_ext: "sub (p @ k) t q u \<Longrightarrow> sub p (TExt k t) q u"
| sub_kid: "i < length cs \<Longrightarrow> cs ! i = Some t \<Longrightarrow> sub (p @ [of_nat i]) t q u \<Longrightarrow> sub p (TBranch cs) q u"

inductive_simps sub_leaf_iff: "sub p (TLeaf k v) q u"
inductive_simps sub_ext_iff: "sub p (TExt k t) q u"
inductive_simps sub_branch_iff: "sub p (TBranch cs) q u"

lemma sub_prefix: "sub p t q u \<Longrightarrow> prefix p q"
  by (induction rule: sub.induct) (auto dest: append_prefixD)

definition has :: "path \<Rightarrow> trie \<Rightarrow> path \<Rightarrow> bool" where "has p t q \<longleftrightarrow> (\<exists>u. sub p t q u)"

lemma has_prefix: "has p t q \<Longrightarrow> prefix p q"
  by (auto simp: has_def dest: sub_prefix)

lemma has_leaf: "has p (TLeaf k v) q \<longleftrightarrow> q = p"
  by (auto simp: has_def sub_leaf_iff)

lemma has_ext: "has p (TExt k t) q \<longleftrightarrow> q = p \<or> has (p @ k) t q"
  by (auto simp: has_def sub_ext_iff)

lemma has_branch: "has p (TBranch cs) q \<longleftrightarrow> q = p \<or> (\<exists>i t. i < length cs \<and> cs ! i = Some t \<and> has (p @ [of_nat i]) t q)"
  by (auto simp: has_def sub_branch_iff)

lemma has_here [simp]: "has p t p"
  by (auto simp: has_def intro: sub_here)

lemma unat_nib: "i < 16 \<Longrightarrow> unat (of_nat i :: byte) = i"
  by (simp add: unat_of_nat_less)

lemma nib_of_unat: "(of_nat (unat x) :: byte) = x"
  by simp

lemma kid_path_eq: "i < 16 \<Longrightarrow> j < 16 \<Longrightarrow> prefix (p @ [of_nat i :: byte]) q \<Longrightarrow> prefix (p @ [of_nat j]) q \<Longrightarrow> i = j"
proof -
  assume a: "i < 16" "j < 16" and "prefix (p @ [of_nat i :: byte]) q" "prefix (p @ [of_nat j]) q"
  then have "(of_nat i :: byte) = of_nat j" by (auto simp: prefix_def)
  then show ?thesis using a unat_nib by metis
qed

lemma sub_unique: "twf n t \<Longrightarrow> sub p t q u \<Longrightarrow> sub p t q u' \<Longrightarrow> u = u'"
proof (induction arbitrary: p rule: twf.induct)
  case (twf_leaf k n v)
  then show ?case by (simp add: sub_leaf_iff)
next
  case (twf_ext k m cs n)
  have "\<not> sub (p @ k) (TBranch cs) p w" for w using sub_prefix [of "p @ k" "TBranch cs" p w] twf_ext.hyps(1) by auto
  then show ?case using twf_ext.prems twf_ext.IH [of "p @ k"] by (auto simp: sub_ext_iff)
next
  case (twf_branch cs i j m n)
  have np: "\<not> sub (p @ [x]) t p w" for x t w using sub_prefix [of "p @ [x]" t p w] by auto
  show ?case
  proof (cases "q = p")
    case True
    then show ?thesis using twf_branch.prems np by (auto simp: sub_branch_iff)
  next
    case False
    then obtain a t b t' where ab: "a < 16" "cs ! a = Some t" "sub (p @ [of_nat a]) t q u" "b < 16" "cs ! b = Some t'"
        "sub (p @ [of_nat b]) t' q u'"
      using twf_branch.prems twf_branch.hyps(1) by (auto simp: sub_branch_iff)
    then have "a = b" using kid_path_eq [of a b p q] sub_prefix by blast
    moreover have "Some t \<in> set cs" using ab twf_branch.hyps(1) by (metis nth_mem)
    ultimately show ?thesis using ab twf_branch.IH by auto
  qed
qed

subsection \<open>The overlay represents a trie\<close>

definition absent :: "node_source \<Rightarrow> dirty \<Rightarrow> path \<Rightarrow> bool" where
  "absent src d q \<longleftrightarrow> bt_get q d = Some None \<or> bt_get q d = None \<and> src q = None"

definition clean :: "keccak_fn \<Rightarrow> rlp \<Rightarrow> node_source \<Rightarrow> dirty \<Rightarrow> path \<Rightarrow> trie \<Rightarrow> bool" where
  "clean H R src d p t \<longleftrightarrow> (\<forall>q u. sub p t q u \<longrightarrow> bt_get q d = None \<and> src q = Some (tenc H R u))"

definition tref :: "keccak_fn \<Rightarrow> rlp \<Rightarrow> trie \<Rightarrow> byte list" where
  "tref H R t = mk_child_ref H (tenc H R t)"

lemma nth_child_size [termination_simp]:
  "i < length cs \<Longrightarrow> cs ! i = Some t \<Longrightarrow> size t < Suc (size_list (size_option size) cs)"
  by (metis nth_mem trie_child_size)

fun coh :: "keccak_fn \<Rightarrow> rlp \<Rightarrow> node_source \<Rightarrow> dirty \<Rightarrow> path \<Rightarrow> trie \<Rightarrow> bool" where
  "coh H R src d p (TLeaf k v) \<longleftrightarrow> clean H R src d p (TLeaf k v) \<or> bt_get p d = Some (Some (Leaf k v))"
| "coh H R src d p (TExt k t) \<longleftrightarrow> clean H R src d p (TExt k t)
     \<or> bt_get p d = Some (Some (Ext k None)) \<and> coh H R src d (p @ k) t
     \<or> bt_get p d = Some (Some (Ext k (Some (tref H R t)))) \<and> clean H R src d (p @ k) t"
| "coh H R src d p (TBranch cs) \<longleftrightarrow> clean H R src d p (TBranch cs)
     \<or> (\<exists>ch. bt_get p d = Some (Some (Branch ch)) \<and> length ch = 16
          \<and> (\<forall>i < length cs. case cs ! i of
               None \<Rightarrow> ch ! i = None
             | Some t \<Rightarrow> ch ! i = Some None \<and> coh H R src d (p @ [of_nat i]) t
                 \<or> ch ! i = Some (Some (tref H R t)) \<and> clean H R src d (p @ [of_nat i]) t))"

lemma coh_clean: "clean H R src d p t \<Longrightarrow> coh H R src d p t"
  by (cases t) auto

text \<open>What the code sees at the root of a represented trie.\<close>

definition kid_ok :: "keccak_fn \<Rightarrow> rlp \<Rightarrow> node_source \<Rightarrow> dirty \<Rightarrow> path \<Rightarrow> child_ref option \<Rightarrow> trie option \<Rightarrow> bool" where
  "kid_ok H R src d p c t \<longleftrightarrow>
     (case t of
        None \<Rightarrow> c = None
      | Some t \<Rightarrow> c = Some None \<and> coh H R src d p t \<or> c = Some (Some (tref H R t)) \<and> clean H R src d p t)"

fun matches :: "keccak_fn \<Rightarrow> rlp \<Rightarrow> node_source \<Rightarrow> dirty \<Rightarrow> path \<Rightarrow> node \<Rightarrow> trie \<Rightarrow> bool" where
  "matches H R src d p n (TLeaf k v) \<longleftrightarrow> n = Leaf k v"
| "matches H R src d p n (TExt k t) \<longleftrightarrow> (\<exists>c. n = Ext k c \<and> kid_ok H R src d (p @ k) (Some c) (Some t))"
| "matches H R src d p n (TBranch cs) \<longleftrightarrow>
     (\<exists>ch. n = Branch ch \<and> length ch = 16 \<and> (\<forall>i < length cs. kid_ok H R src d (p @ [of_nat i]) (ch ! i) (cs ! i)))"

lemma coh_iff: "coh H R src d p t \<longleftrightarrow> clean H R src d p t \<or> (\<exists>n. bt_get p d = Some (Some n) \<and> matches H R src d p n t)"
  by (cases t) (auto simp: kid_ok_def)

lemma clean_sub: "clean H R src d p t \<Longrightarrow> sub p t q u \<Longrightarrow> clean H R src d q u"
proof -
  have "sub p t q u \<Longrightarrow> sub q u a b \<Longrightarrow> sub p t a b" for a b
    by (induction rule: sub.induct) (auto intro: sub.intros)
  then show "clean H R src d p t \<Longrightarrow> sub p t q u \<Longrightarrow> ?thesis" by (auto simp: clean_def)
qed

lemma get_coh:
  assumes R: "rlp_ok R" and w: "twf n t" and c: "coh H R src d p t"
  obtains nd where "trie_get R src d p = Inr (Some nd)" "matches H R src d p nd t"
proof (cases "clean H R src d p t")
  case True
  then have "bt_get p d = None" "src p = Some (tenc H R t)" by (auto simp: clean_def intro: sub_here)
  then have g: "trie_get R src d p = Inr (Some (tnode H R t))"
    using twf_decode [OF R R w] by (simp add: trie_get_def)
  have "matches H R src d p (tnode H R t) t"
  proof (cases t)
    case (TExt k u)
    then show ?thesis using clean_sub [OF True] by (auto simp: kid_ok_def tref_def intro: sub.intros)
  next
    case (TBranch cs)
    then have l: "length cs = 16" using w twf_length_cs by blast
    have "kid_ok H R src d (p @ [of_nat i]) (map_option (\<lambda>t. Some (mk_child_ref H (tenc H R t))) (cs ! i)) (cs ! i)"
      if i: "i < 16" for i
    proof (cases "cs ! i")
      case (Some u)
      have "sub p t (p @ [of_nat i]) u" unfolding TBranch
        by (rule sub_kid [of i]) (use i l Some in \<open>auto intro: sub_here\<close>)
      then show ?thesis using clean_sub [OF True] Some by (simp add: kid_ok_def tref_def)
    qed (simp add: kid_ok_def)
    then show ?thesis using TBranch l by simp
  qed simp
  then show ?thesis using that g by blast
next
  case False
  then show ?thesis using that c by (auto simp: coh_iff trie_get_def)
qed

lemma get_absent: "absent src d p \<Longrightarrow> trie_get R src d p = Inr None"
  by (auto simp: absent_def trie_get_def)

lemma clean_frame:
  assumes "clean H R src d p t" "\<And>q. prefix p q \<Longrightarrow> bt_get q d' = bt_get q d"
  shows "clean H R src d' p t"
  using assms sub_prefix by (auto simp: clean_def)

lemma coh_frame:
  "coh H R src d p t \<Longrightarrow> (\<And>q. prefix p q \<Longrightarrow> bt_get q d' = bt_get q d) \<Longrightarrow> coh H R src d' p t"
proof (induction H R src d p t rule: coh.induct)
  case (1 H R src d p k v)
  then show ?case using clean_frame [of H R src d p "TLeaf k v" d'] by auto
next
  case (2 H R src d p k t)
  have "clean H R src d (p @ k) t \<Longrightarrow> clean H R src d' (p @ k) t"
    using clean_frame [of H R src d "p @ k" t d'] 2 by (meson append_prefixD)
  moreover have "coh H R src d (p @ k) t \<Longrightarrow> coh H R src d' (p @ k) t" using 2 by (meson append_prefixD)
  ultimately show ?case using 2 clean_frame [of H R src d p "TExt k t" d'] by auto
next
  case (3 H R src d p cs)
  show ?case
  proof (cases "clean H R src d p (TBranch cs)")
    case True
    then show ?thesis using clean_frame [of H R src d p "TBranch cs" d'] 3 by auto
  next
    case False
    then obtain ch where ch: "bt_get p d = Some (Some (Branch ch))" "length ch = 16"
        "\<forall>i < length cs. kid_ok H R src d (p @ [of_nat i]) (ch ! i) (cs ! i)"
      using "3.prems"(1) by (auto simp: kid_ok_def)
    have "kid_ok H R src d' (p @ [of_nat i]) (ch ! i) (cs ! i)" if i: "i < length cs" for i
    proof (cases "cs ! i")
      case None
      then show ?thesis using ch i by (auto simp: kid_ok_def)
    next
      case (Some t)
      have fr: "bt_get q d' = bt_get q d" if "prefix (p @ [of_nat i]) q" for q
        using "3.prems"(2) that by (meson append_prefixD)
      have "coh H R src d (p @ [of_nat i]) t \<Longrightarrow> coh H R src d' (p @ [of_nat i]) t"
        using "3.IH" [OF i Some] fr by blast
      moreover have "clean H R src d' (p @ [of_nat i]) t" if "clean H R src d (p @ [of_nat i]) t"
        by (rule clean_frame [OF that fr])
      ultimately show ?thesis using ch(3) [rule_format, OF i] Some by (auto simp: kid_ok_def)
    qed
    then have "matches H R src d' p (Branch ch) (TBranch cs)" using ch(2) by simp
    then show ?thesis using ch(1) "3.prems"(2) [of p] by (auto simp: coh_iff simp del: coh.simps)
  qed
qed

definition tight :: "node_source \<Rightarrow> dirty \<Rightarrow> path \<Rightarrow> trie \<Rightarrow> bool" where
  "tight src d p t \<longleftrightarrow> (\<forall>q. prefix p q \<longrightarrow> has p t q \<or> absent src d q)"

lemma kid_coh: "kid_ok H R src d p c (Some t) \<Longrightarrow> coh H R src d p t"
  by (auto simp: kid_ok_def intro: coh_clean)

lemma kid_frame:
  "kid_ok H R src d p c t \<Longrightarrow> (\<And>q. prefix p q \<Longrightarrow> bt_get q d' = bt_get q d) \<Longrightarrow> kid_ok H R src d' p c t"
  using coh_frame [of H R src d p _ d'] clean_frame [of H R src d p _ d']
  by (cases t) (auto simp: kid_ok_def)

subsection \<open>Placed tries\<close>

definition placed :: "keccak_fn \<Rightarrow> rlp \<Rightarrow> node_source \<Rightarrow> dirty \<Rightarrow> path \<Rightarrow> trie option \<Rightarrow> bool" where
  "placed H R src d p t \<longleftrightarrow>
     (case t of
        None \<Rightarrow> \<forall>q. prefix p q \<longrightarrow> absent src d q
      | Some t \<Rightarrow> coh H R src d p t \<and> tight src d p t)"

text \<open>The outcome of a step below \<open>p\<close>: the nodes there, and nothing changed elsewhere.\<close>

definition turned :: "keccak_fn \<Rightarrow> rlp \<Rightarrow> node_source \<Rightarrow> dirty \<Rightarrow> path \<Rightarrow> dirty \<Rightarrow> trie option \<Rightarrow> bool" where
  "turned H R src d p d' t \<longleftrightarrow> placed H R src d' p t \<and> (\<forall>q. \<not> prefix p q \<longrightarrow> bt_get q d' = bt_get q d)"

lemma placed_simps [simp]:
  "placed H R src d p None \<longleftrightarrow> (\<forall>q. prefix p q \<longrightarrow> absent src d q)"
  "placed H R src d p (Some t) \<longleftrightarrow> coh H R src d p t \<and> tight src d p t"
  by (simp_all add: placed_def)

lemma absent_frame: "bt_get q d' = bt_get q d \<Longrightarrow> absent src d' q = absent src d q"
  by (simp add: absent_def)

lemma placed_frame:
  assumes "placed H R src d p t" and fr: "\<And>q. prefix p q \<Longrightarrow> bt_get q d' = bt_get q d"
  shows "placed H R src d' p t"
proof (cases t)
  case None
  then show ?thesis using assms(1) absent_frame [OF fr] by simp
next
  case (Some u)
  then have "coh H R src d' p u" using assms(1) coh_frame [OF _ fr] by simp
  moreover have "tight src d' p u" using assms(1) Some absent_frame [OF fr] by (simp add: tight_def)
  ultimately show ?thesis using Some by simp
qed

lemma not_below [simp]: "k \<noteq> [] \<Longrightarrow> \<not> prefix (p @ k) p"
  by (auto simp: prefix_def)

lemma ext_placed:
  "matches H R src d p nd (TExt k t) \<Longrightarrow> tight src d p (TExt k t) \<Longrightarrow> k \<noteq> [] \<Longrightarrow> placed H R src d (p @ k) (Some t)"
  using kid_coh by (auto simp: tight_def has_ext dest: append_prefixD)

lemma kid_placed:
  assumes m: "matches H R src d p nd (TBranch cs)" and t: "tight src d p (TBranch cs)" and i: "i < length cs" "length cs = 16"
  shows "placed H R src d (p @ [of_nat i]) (cs ! i)"
proof -
  have only: "cs ! i \<noteq> None \<and> has (p @ [of_nat i]) (the (cs ! i)) q \<or> absent src d q" if q: "prefix (p @ [of_nat i]) q" for q
  proof -
    have "q \<noteq> p" using q by auto
    then consider j u where "j < 16" "cs ! j = Some u" "has (p @ [of_nat j]) u q" | "absent src d q"
      using t q append_prefixD i(2) by (auto simp: tight_def has_branch) blast
    then show ?thesis
    proof cases
      case 1
      then have "j = i" using kid_path_eq [of j i p q] has_prefix q i by metis
      then show ?thesis using 1 by simp
    qed simp
  qed
  obtain ch where "kid_ok H R src d (p @ [of_nat i]) (ch ! i) (cs ! i)" using m i by auto
  then show ?thesis using only kid_coh by (cases "cs ! i") (auto simp: tight_def)
qed

end
