(* ===== verification/Trie_Ops.thy ===== *)
theory Trie_Ops
  imports Trie_Refine
begin

text \<open>
  Insertion and removal on the overlay refine the functional ones: they return without an error, within
  their fuel, and what they leave below the root is the updated trie and nothing else.
\<close>

subsection \<open>Splitting a node\<close>

lemma get_put [simp]: "bt_get q (trie_put p n d) = (if q = p then Some (Some n) else bt_get q d)"
  and get_del [simp]: "bt_get q (trie_del p d) = (if q = p then Some None else bt_get q d)"
  by (simp_all add: trie_put_def trie_del_def bt_simps)

lemma coh_dirty: "bt_get p d = Some (Some n) \<Longrightarrow> matches H R src d p n t \<Longrightarrow> coh H R src d p t"
  by (auto simp: coh_iff)

lemma two_kids_nth:
  assumes "z \<noteq> y" "z < 16" "y < 16" "i < 16"
  shows "(replicate 16 None)[unat z := Some t, unat y := Some u] ! i =
      (if i = unat y then Some u else if i = unat z then Some t else None)"
    and "two_children z y ! i = (if i = unat y \<or> i = unat z then Some None else None)"
  using assms by (auto simp: two_children_def nth_list_update nib_unat)

lemma coh_two_kids:
  assumes "bt_get b d = Some (Some (Branch (two_children z y)))" "z \<noteq> y" "z < 16" "y < 16"
    "coh H R src d (b @ [z]) t" "coh H R src d (b @ [y]) u"
  shows "coh H R src d b (two_kids z t y u)"
proof (rule coh_dirty [OF assms(1)])
  have "kid_ok H R src d (b @ [of_nat i]) (two_children z y ! i)
      ((replicate 16 None)[unat z := Some t, unat y := Some u] ! i)" if "i < 16" for i
    unfolding two_kids_nth [OF assms(2-4) that] using assms(5,6) by (auto simp: kid_ok_def)
  then show "matches H R src d b (Branch (two_children z y)) (two_kids z t y u)"
    by (simp add: two_kids_def two_children_def)
qed

lemma coh_ext_by:
  "coh H R src d (p @ a) (TBranch cs) \<Longrightarrow> (a \<noteq> [] \<Longrightarrow> bt_get p d = Some (Some (Ext a None)))
     \<Longrightarrow> coh H R src d p (ext_by a (TBranch cs))"
  by (auto simp: ext_by_def simp del: coh.simps(3))

lemma has_ext_by: "has p (ext_by a (TBranch cs)) q \<longleftrightarrow> a \<noteq> [] \<and> q = p \<or> has (p @ a) (TBranch cs) q"
  by (auto simp: ext_by_def has_ext)

lemma has_two_kids:
  assumes "z \<noteq> y" "z < 16" "y < 16"
  shows "has b (two_kids z t y u) q \<longleftrightarrow> q = b \<or> has (b @ [z]) t q \<or> has (b @ [y]) u q"
proof -
  have zy: "unat z < 16" "unat y < 16" "unat z \<noteq> unat y" using assms by (simp_all add: nib_unat word_unat_eq_iff)
  have "(\<exists>i x. i < 16 \<and> (replicate 16 None)[unat z := Some t, unat y := Some u] ! i = Some x \<and> has (b @ [of_nat i]) x q)
      \<longleftrightarrow> has (b @ [z]) t q \<or> has (b @ [y]) u q"
  proof
    assume "\<exists>i x. i < 16 \<and> (replicate 16 None)[unat z := Some t, unat y := Some u] ! i = Some x \<and> has (b @ [of_nat i]) x q"
    then show "has (b @ [z]) t q \<or> has (b @ [y]) u q"
      using two_kids_nth(1) [OF assms, of _ t u] by (auto split: if_splits)
  next
    assume "has (b @ [z]) t q \<or> has (b @ [y]) u q"
    then show "\<exists>i x. i < 16 \<and> (replicate 16 None)[unat z := Some t, unat y := Some u] ! i = Some x \<and> has (b @ [of_nat i]) x q"
    proof
      assume "has (b @ [z]) t q"
      then show ?thesis using zy by (intro exI [of _ "unat z"] exI [of _ t]) simp
    next
      assume "has (b @ [y]) u q"
      then show ?thesis using zy by (intro exI [of _ "unat y"] exI [of _ u]) simp
    qed
  qed
  then show ?thesis by (simp add: two_kids_def has_branch)
qed

lemma split_leaf_turned:
  assumes t: "tight src d p (TLeaf k v)" and k: "k = a @ z # w" "r = a @ y # s" "z \<noteq> y" "nibs k" "nibs r"
  shows "turned H R src d p (split_leaf p r k v x d) (Some (ext_by a (two_kids z (TLeaf w v) y (TLeaf s x))))"
proof -
  define d' where "d' = split_leaf p r k v x d"
  let ?t = "ext_by a (two_kids z (TLeaf w v) y (TLeaf s x))"
  have c: "common_prefix k r = length a" using k by simp
  have zy: "z < 16" "y < 16" using k by simp_all
  have g: "bt_get q d' =
      (if a \<noteq> [] \<and> q = p then Some (Some (Ext a None))
       else if q = p @ a then Some (Some (Branch (two_children z y)))
       else if q = p @ a @ [y] then Some (Some (Leaf s x))
       else if q = p @ a @ [z] then Some (Some (Leaf w v)) else bt_get q d)" for q
    using k(3) unfolding d'_def split_leaf_def c Let_def by (simp add: k(1,2) nth_append)
  have "coh H R src d' (p @ a) (two_kids z (TLeaf w v) y (TLeaf s x))"
    by (rule coh_two_kids) (use k(3) zy in \<open>auto simp: g\<close>)
  then have coh: "coh H R src d' p ?t"
    unfolding two_kids_def by (rule coh_ext_by) (simp add: g)
  have h: "has p ?t q \<longleftrightarrow> a \<noteq> [] \<and> q = p \<or> q = p @ a \<or> q = p @ a @ [z] \<or> q = p @ a @ [y]" for q
    using has_two_kids [OF k(3) zy, of "p @ a"] has_ext_by [of p a _ q] by (simp add: two_kids_def has_leaf)
  have "has p ?t q \<or> absent src d' q" if "prefix p q" for q
  proof (cases "has p ?t q")
    case False
    then have nf: "\<not> (a \<noteq> [] \<and> q = p)" "q \<noteq> p @ a" "q \<noteq> p @ a @ [z]" "q \<noteq> p @ a @ [y]" using h by blast+
    have "q \<noteq> p" using nf(1,2) by auto
    moreover have "bt_get q d' = bt_get q d" unfolding g by (simp add: nf)
    ultimately show ?thesis using t that absent_frame [of q d' d src] by (auto simp: tight_def has_leaf)
  qed simp
  moreover have "bt_get q d' = bt_get q d" if "\<not> prefix p q" for q using that by (auto simp: g)
  ultimately show ?thesis using coh unfolding turned_def tight_def d'_def placed_simps by blast
qed

lemma split_ext_turned:
  assumes t: "tight src d p (TExt k (TBranch cs))" and kid: "coh H R src d (p @ k) (TBranch cs)"
    and k: "k = a @ z # w" "r = a @ y # s" "z \<noteq> y" "nibs k" "nibs r"
  shows "turned H R src d p (split_ext p r k x d) (Some (ext_by a (two_kids z (ext_by w (TBranch cs)) y (TLeaf s x))))"
proof -
  define d' where "d' = split_ext p r k x d"
  let ?t = "ext_by a (two_kids z (ext_by w (TBranch cs)) y (TLeaf s x))"
  have c: "common_prefix k r = length a" using k by simp
  have zy: "z < 16" "y < 16" using k by simp_all
  have g: "bt_get q d' =
      (if a \<noteq> [] \<and> q = p then Some (Some (Ext a None))
       else if q = p @ a then Some (Some (Branch (two_children z y)))
       else if q = p @ a @ [y] then Some (Some (Leaf s x))
       else if w \<noteq> [] \<and> q = p @ a @ [z] then Some (Some (Ext w None)) else bt_get q d)" for q
    using k(3) unfolding d'_def split_ext_def c Let_def by (simp add: k(1,2) nth_append)
  have "bt_get q d' = bt_get q d" if "prefix (p @ k) q" for q
    using that k(1,3) by (auto simp: g prefix_def)
  then have kid': "coh H R src d' ((p @ a @ [z]) @ w) (TBranch cs)" using coh_frame [OF kid] k(1) by simp
  have "coh H R src d' (p @ a @ [z]) (ext_by w (TBranch cs))"
    by (rule coh_ext_by [OF kid']) (use k(3) in \<open>simp add: g\<close>)
  then have "coh H R src d' (p @ a) (two_kids z (ext_by w (TBranch cs)) y (TLeaf s x))"
    by (intro coh_two_kids) (use k(3) zy in \<open>auto simp: g\<close>)
  then have coh: "coh H R src d' p ?t" unfolding two_kids_def by (rule coh_ext_by) (simp add: g)
  have h: "has p ?t q \<longleftrightarrow>
      a \<noteq> [] \<and> q = p \<or> q = p @ a \<or> w \<noteq> [] \<and> q = p @ a @ [z] \<or> has (p @ k) (TBranch cs) q \<or> q = p @ a @ [y]" for q
    using has_two_kids [OF k(3) zy, of "p @ a"] has_ext_by [of p a _ q] has_ext_by [of "p @ a @ [z]" w cs q] k(1)
    by (auto simp: two_kids_def has_leaf)
  have "has p ?t q \<or> absent src d' q" if "prefix p q" for q
  proof (cases "has p ?t q")
    case False
    then have nf: "\<not> (a \<noteq> [] \<and> q = p)" "q \<noteq> p @ a" "\<not> (w \<noteq> [] \<and> q = p @ a @ [z])" "q \<noteq> p @ a @ [y]"
        "\<not> has (p @ k) (TBranch cs) q" using h by blast+
    have "q \<noteq> p" using nf(1,2) by auto
    moreover have "bt_get q d' = bt_get q d" unfolding g if_not_P [OF nf(1)] if_not_P [OF nf(2)] if_not_P [OF nf(3)] if_not_P [OF nf(4)] ..
    ultimately show ?thesis using t that nf(5) absent_frame [of q d' d src] by (auto simp: tight_def has_ext)
  qed simp
  moreover have "bt_get q d' = bt_get q d" if "\<not> prefix p q" for q using that by (auto simp: g)
  ultimately show ?thesis using coh unfolding turned_def tight_def d'_def placed_simps by blast
qed

subsection \<open>Insertion\<close>

text \<open>A change below one edge of an extension or of a branch is a change of the whole node.\<close>

lemma ext_turned:
  assumes t: "tight src d p (TExt k t)" and k: "k \<noteq> []"
    and p: "bt_get p d' = Some (Some (Ext k None))" and u: "placed H R src d' (p @ k) (Some u)"
    and fr: "\<And>q. q \<noteq> p \<Longrightarrow> \<not> prefix (p @ k) q \<Longrightarrow> bt_get q d' = bt_get q d"
  shows "turned H R src d p d' (Some (TExt k u))"
proof -
  have "coh H R src d' p (TExt k u)" using p u by simp
  moreover have "has p (TExt k u) q \<or> absent src d' q" if q: "prefix p q" for q
  proof (cases "q = p \<or> prefix (p @ k) q")
    case True
    then show ?thesis using u by (auto simp: has_ext tight_def)
  next
    case False
    then have "absent src d q" using t q has_prefix [of "p @ k" t q] by (auto simp: tight_def has_ext)
    then show ?thesis using absent_frame [OF fr [of q], of src] False by auto
  qed
  moreover have "bt_get q d' = bt_get q d" if "\<not> prefix p q" for q using fr [of q] that by (auto dest: append_prefixD)
  ultimately show ?thesis by (auto simp: turned_def tight_def)
qed

lemma branch_turned:
  assumes t: "tight src d p (TBranch cs)" and len: "length cs = 16" "length ch = 16" and i: "i < 16"
    and kids: "\<And>j. j < 16 \<Longrightarrow> kid_ok H R src d (p @ [of_nat j]) (ch ! j) (cs ! j)"
    and p: "bt_get p d' = Some (Some (Branch (ch[i := map_option (\<lambda>_. None) u])))" and u: "placed H R src d' (p @ [of_nat i]) u"
    and fr: "\<And>q. q \<noteq> p \<Longrightarrow> \<not> prefix (p @ [of_nat i]) q \<Longrightarrow> bt_get q d' = bt_get q d"
  shows "turned H R src d p d' (Some (TBranch (cs[i := u])))"
proof -
  have kid: "kid_ok H R src d' (p @ [of_nat j]) (ch[i := map_option (\<lambda>_. None) u] ! j) (cs[i := u] ! j)" if j: "j < 16" for j
  proof (cases "j = i")
    case True
    then show ?thesis using u len i by (cases u) (auto simp: kid_ok_def)
  next
    case False
    have "bt_get q d' = bt_get q d" if "prefix (p @ [of_nat j]) q" for q
      by (rule fr) (use that False kid_path_eq [OF i j, of p q] in auto)
    then show ?thesis using kid_frame [OF kids [OF j]] False by simp
  qed
  have "coh H R src d' p (TBranch (cs[i := u]))"
    by (rule coh_dirty [OF p]) (use kid len in simp)
  moreover have "has p (TBranch (cs[i := u])) q \<or> absent src d' q" if q: "prefix p q" for q
  proof (cases "q = p \<or> prefix (p @ [of_nat i]) q")
    case True
    then show ?thesis using u i len by (cases u) (auto simp: has_branch tight_def intro!: exI [of _ i])
  next
    case False
    then consider j v where "j < 16" "cs ! j = Some v" "has (p @ [of_nat j]) v q" | "absent src d q"
      using t q len by (auto simp: tight_def has_branch)
    then show ?thesis
    proof cases
      case 1
      then have "j \<noteq> i" using False has_prefix by blast
      then show ?thesis using 1 len by (auto simp: has_branch)
    next
      case 2
      then show ?thesis using absent_frame [OF fr [of q], of src] False by auto
    qed
  qed
  moreover have "bt_get q d' = bt_get q d" if "\<not> prefix p q" for q using fr [of q] that by (auto dest: append_prefixD)
  ultimately show ?thesis by (auto simp: turned_def tight_def)
qed

definition tinso :: "trie option \<Rightarrow> path \<Rightarrow> byte list \<Rightarrow> trie" where
  "tinso t r x = (case t of None \<Rightarrow> TLeaf r x | Some t \<Rightarrow> tins t r x)"

lemma insert_absent:
  "placed H R src d p None \<Longrightarrow>
     insert_loop (Suc f) R src p r x d = Some (Inr (trie_put p (Leaf r x) d))
     \<and> turned H R src d p (trie_put p (Leaf r x) d) (Some (TLeaf r x))"
  by (auto simp: get_absent turned_def tight_def has_leaf absent_def)

lemma insert_leaf:
  assumes R: "rlp_ok R" and w: "twf n (TLeaf k v)" and p: "placed H R src d p (Some (TLeaf k v))" and r: "length r = n" "nibs r"
  shows "\<exists>d'. insert_loop (Suc f) R src p r x d = Some (Inr d') \<and> turned H R src d p d' (Some (tins (TLeaf k v) r x))"
proof -
  have c: "coh H R src d p (TLeaf k v)" and t: "tight src d p (TLeaf k v)" using p by simp_all
  from get_coh [OF R w c] have g: "trie_get R src d p = Inr (Some (Leaf k v))" by auto
  have k: "length k = n" "nibs k" using w by (auto elim: twf_leafE)
  show ?thesis
  proof (cases "k = r")
    case True
    have "turned H R src d p (trie_put p (Leaf r x) d) (Some (TLeaf r x))"
      using t by (auto simp: turned_def tight_def has_leaf absent_def)
    then show ?thesis using g True by simp
  next
    case False
    then have np: "\<not> prefix k r" using k r by (metis not_equal_is_parallel parallelD1)
    have le: "length k \<le> length r" using k r by simp
    obtain a z s y u where e: "k = a @ z # s" "r = a @ y # u" "z \<noteq> y" "common_prefix k r = length a"
      using common_prefix_decomp [OF le np] by blast
    from split_leaf_turned [OF t e(1-3) k(2) r(2)] show ?thesis
      using g False e by (auto simp: Let_def nth_append)
  qed
qed

lemma insert_loop_turned:
  assumes R: "rlp_ok R"
  shows "twf n t \<Longrightarrow> placed H R src d p (Some t) \<Longrightarrow> length r = n \<Longrightarrow> nibs r \<Longrightarrow> n < f \<Longrightarrow>
    \<exists>d'. insert_loop f R src p r x d = Some (Inr d') \<and> turned H R src d p d' (Some (tins t r x))"
proof (induction arbitrary: d p r f rule: twf.induct)
  case (twf_leaf k n v)
  obtain g where f: "f = Suc g" using twf_leaf.prems by (cases f) auto
  show ?case unfolding f by (rule insert_leaf [OF R twf.twf_leaf [OF twf_leaf.hyps] twf_leaf.prems(1-3)])
next
  case (twf_ext k m cs n)
  obtain g where f: "f = Suc g" using twf_ext.prems by (cases f) auto
  have c: "coh H R src d p (TExt k (TBranch cs))" and t: "tight src d p (TExt k (TBranch cs))" using twf_ext.prems(1) by simp_all
  obtain nd where nd: "trie_get R src d p = Inr (Some nd)" "matches H R src d p nd (TExt k (TBranch cs))"
    using get_coh [OF R twf.twf_ext [OF twf_ext.hyps] c] by blast
  then obtain cr where cr: "nd = Ext k cr" by auto
  note pl = ext_placed [OF nd(2) t twf_ext.hyps(1)]
  show ?case
  proof (cases "prefix k r")
    case True
    then obtain r2 where r: "r = k @ r2" by (auto simp: prefix_def)
    let ?d = "trie_put p (Ext k None) d"
    have "placed H R src ?d (p @ k) (Some (TBranch cs))"
      by (rule placed_frame [OF pl]) (use twf_ext.hyps(1) in auto)
    moreover have "length r2 = m" "nibs r2" "m < g" using twf_ext.prems(2-4) twf_ext.hyps(1,4) r f by (cases k; simp)+
    ultimately obtain d'
      where d': "insert_loop g R src (p @ k) r2 x ?d = Some (Inr d')" "turned H R src ?d (p @ k) d' (Some (tins (TBranch cs) r2 x))"
      using twf_ext.IH by blast
    have fr: "\<not> prefix (p @ k) q \<Longrightarrow> bt_get q d' = bt_get q ?d" for q using d'(2) by (simp add: turned_def)
    have "turned H R src d p d' (Some (TExt k (tins (TBranch cs) r2 x)))"
      by (rule ext_turned [OF t twf_ext.hyps(1)]) (use d'(2) fr twf_ext.hyps(1) in \<open>auto simp: turned_def simp del: tins.simps\<close>)
    then show ?thesis using f nd cr r d'(1) by (simp add: Let_def del: tins.simps(3))
  next
    case False
    have le: "length k \<le> length r" using twf_ext by simp
    obtain a z s y u where e: "k = a @ z # s" "r = a @ y # u" "z \<noteq> y" "common_prefix k r = length a"
      using common_prefix_decomp [OF le False] by blast
    have kid: "coh H R src d (p @ k) (TBranch cs)" using pl by simp
    from split_ext_turned [OF t kid e(1-3) twf_ext.hyps(2) twf_ext.prems(3)] show ?thesis
      using nd cr f False e by (auto simp: Let_def nth_append)
  qed
next
  case (twf_branch cs i j m n)
  obtain g where f: "f = Suc g" using twf_branch.prems by (cases f) auto
  obtain y r2 where r: "r = y # r2" "unat y < 16" "length r2 = m" "nibs r2"
    using twf_branch.prems twf_branch.hyps by (cases r) (auto simp: nib_unat)
  have b: "twf n (TBranch cs)" by (rule twf.twf_branch [OF twf_branch.hyps(1-6)]) (use twf_branch.hyps in auto)
  have c: "coh H R src d p (TBranch cs)" and t: "tight src d p (TBranch cs)" using twf_branch.prems(1) by simp_all
  obtain nd where nd: "trie_get R src d p = Inr (Some nd)" "matches H R src d p nd (TBranch cs)"
    using get_coh [OF R b c] by blast
  then obtain ch where ch: "nd = Branch ch" "length ch = 16"
      "\<And>j. j < 16 \<Longrightarrow> kid_ok H R src d (p @ [of_nat j]) (ch ! j) (cs ! j)" using twf_branch.hyps(1) by auto
  have pl: "placed H R src d (p @ [y]) (cs ! unat y)"
    using kid_placed [OF nd(2) t, of "unat y"] r twf_branch.hyps(1) by simp
  let ?d = "trie_put p (Branch (ch[unat y := Some None])) d"
  have pl': "placed H R src ?d (p @ [y]) (cs ! unat y)" by (rule placed_frame [OF pl]) auto
  have "\<exists>d'. insert_loop g R src (p @ [y]) r2 x ?d = Some (Inr d') \<and> turned H R src ?d (p @ [y]) d' (Some (tinso (cs ! unat y) r2 x))"
  proof (cases "cs ! unat y")
    case None
    then show ?thesis using insert_absent [of H R src ?d "p @ [y]"] pl' twf_branch.prems(4) twf_branch.hyps f
      by (cases g) (auto simp: tinso_def)
  next
    case (Some u)
    have "Some u \<in> set cs" using Some r twf_branch.hyps(1) by (metis nth_mem)
    then show ?thesis using twf_branch.IH [of u ?d "p @ [y]" r2 g] pl' Some r f twf_branch.prems twf_branch.hyps
      by (auto simp: tinso_def)
  qed
  then obtain d' where d': "insert_loop g R src (p @ [y]) r2 x ?d = Some (Inr d')"
      "turned H R src ?d (p @ [y]) d' (Some (tinso (cs ! unat y) r2 x))" by blast
  have fr: "\<not> prefix (p @ [y]) q \<Longrightarrow> bt_get q d' = bt_get q ?d" for q using d'(2) by (simp add: turned_def)
  have "turned H R src d p d' (Some (TBranch (cs[unat y := Some (tinso (cs ! unat y) r2 x)])))"
    by (rule branch_turned [OF t twf_branch.hyps(1) ch(2) r(2) ch(3)]) (use d'(2) fr in \<open>auto simp: turned_def\<close>)
  then show ?case using f nd ch d'(1) r twf_branch.hyps(1) by (simp add: tinso_def)
qed

subsection \<open>Removal\<close>

text \<open>
  Both repairs of an ancestor, collapsing a branch and joining an extension with what its child has
  become, put a prefix in front of the node below.
\<close>

definition merged :: "path \<Rightarrow> path \<Rightarrow> node \<Rightarrow> dirty \<Rightarrow> node \<times> dirty" where
  "merged p k nd d =
     (case nd of
        Leaf k2 v \<Rightarrow> (Leaf (k @ k2) v, trie_put p (Leaf (k @ k2) v) (trie_del (p @ k) d))
      | Ext k2 _ \<Rightarrow> (Ext (k @ k2) None, trie_put p (Ext (k @ k2) None) (trie_del (p @ k) d))
      | Branch _ \<Rightarrow> (Ext k None, trie_put p (Ext k None) d))"

lemma repair_ext_merged:
  "repair R src ((p, Ext k c) # stack) (p @ k) (Some nd) d = repair R src stack p (Some (fst (merged p k nd d))) (snd (merged p k nd d))"
  by (cases nd) (simp_all add: merged_def Let_def)

lemma collapse_merged:
  "trie_get R src d (p @ [of_nat i]) = Inr (Some nd) \<Longrightarrow> collapse_branch R src p i d = Inr (merged p [of_nat i] nd d)"
  by (cases nd) (simp_all add: merged_def collapse_branch_def Let_def)

text \<open>The node the repair has written at \<open>p\<close>, where anything is left.\<close>

definition settled :: "keccak_fn \<Rightarrow> rlp \<Rightarrow> node_source \<Rightarrow> dirty \<Rightarrow> path \<Rightarrow> trie option \<Rightarrow> node option \<Rightarrow> dirty \<Rightarrow> bool" where
  "settled H R src d p u repl d' \<longleftrightarrow>
     turned H R src d p d' u \<and> (case u of None \<Rightarrow> repl = None | Some _ \<Rightarrow> repl \<noteq> None \<and> bt_get p d' = Some repl)"

lemma settled_matches:
  "settled H R src d p (Some u) repl d' \<Longrightarrow> \<exists>nd. repl = Some nd \<and> matches H R src d' p nd u"
  using sub_here [of p u] by (auto simp: settled_def turned_def coh_iff clean_def)

lemma merged_turned:
  assumes k: "k \<noteq> []" and w: "twf m u" and nd: "matches H R src d (p @ k) nd u" and u: "placed H R src d (p @ k) (Some u)"
    and rest: "\<And>q. prefix p q \<Longrightarrow> q \<noteq> p \<Longrightarrow> \<not> prefix (p @ k) q \<Longrightarrow> absent src d q"
  shows "settled H R src d p (Some (ext_by k u)) (Some (fst (merged p k nd d))) (snd (merged p k nd d))"
  using w
proof (cases rule: twf.cases)
  case (twf_leaf k2 v)
  let ?d = "trie_put p (Leaf (k @ k2) v) (trie_del (p @ k) d)"
  have "absent src ?d q" if "prefix p q" "q \<noteq> p" for q
    using that rest [of q] u twf_leaf by (cases "prefix (p @ k) q") (auto simp: tight_def has_leaf absent_def)
  then show ?thesis using twf_leaf k nd
    by (auto simp: settled_def turned_def ext_by_def merged_def tight_def has_leaf dest: append_prefixD)
next
  case (twf_ext k2 m2 cs)
  let ?d = "trie_put p (Ext (k @ k2) None) (trie_del (p @ k) d)"
  obtain c where c: "nd = Ext k2 c" using nd twf_ext by auto
  have "placed H R src d (p @ k @ k2) (Some (TBranch cs))"
    using ext_placed [of H R src d "p @ k" nd k2 "TBranch cs"] nd u twf_ext by simp
  then have pl: "placed H R src ?d (p @ k @ k2) (Some (TBranch cs))"
    by (rule placed_frame) (use k twf_ext in \<open>auto simp: prefix_def\<close>)
  have "has p (TExt (k @ k2) (TBranch cs)) q \<or> absent src ?d q" if "prefix p q" for q
    using that rest [of q] u twf_ext by (cases "prefix (p @ k) q") (auto simp: tight_def has_ext absent_def)
  then have "tight src ?d p (TExt (k @ k2) (TBranch cs))" by (simp add: tight_def)
  then show ?thesis using twf_ext k c pl
    by (auto simp: settled_def turned_def ext_by_def merged_def simp del: coh.simps(3) dest: append_prefixD)
next
  case (twf_branch cs i j m2)
  let ?d = "trie_put p (Ext k None) d"
  obtain ch where c: "nd = Branch ch" using nd twf_branch by auto
  have pl: "placed H R src ?d (p @ k) (Some (TBranch cs))"
    by (rule placed_frame) (use k twf_branch u in \<open>auto simp: prefix_def\<close>)
  have "has p (TExt k (TBranch cs)) q \<or> absent src ?d q" if "prefix p q" for q
    using that rest [of q] u twf_branch by (cases "prefix (p @ k) q") (auto simp: tight_def has_ext absent_def)
  then have "tight src ?d p (TExt k (TBranch cs))" by (simp add: tight_def)
  then show ?thesis using twf_branch k c pl
    by (auto simp: settled_def turned_def ext_by_def merged_def simp del: coh.simps(3))
qed

lemma settled_trans:
  assumes "settled H R src d1 p u repl d2" "\<And>q. \<not> prefix p q \<Longrightarrow> bt_get q d1 = bt_get q d"
  shows "settled H R src d p u repl d2"
  using assms by (auto simp: settled_def turned_def)

lemma repair_ext:
  assumes k: "k \<noteq> []" and w: "twf m u" and t: "tight src d p (TExt k t)" and s: "settled H R src d (p @ k) (Some u) repl d1"
  shows "\<exists>repl' d'. (\<forall>stack. repair R src ((p, Ext k c) # stack) (p @ k) repl d1 = repair R src stack p repl' d')
    \<and> settled H R src d p (Some (ext_by k u)) repl' d'"
proof -
  obtain nd where nd: "repl = Some nd" "matches H R src d1 (p @ k) nd u" using settled_matches [OF s] by blast
  have fr: "bt_get q d1 = bt_get q d" if "\<not> prefix (p @ k) q" for q using s that by (simp add: settled_def turned_def)
  have "absent src d1 q" if q: "prefix p q" "q \<noteq> p" "\<not> prefix (p @ k) q" for q
    using t q has_prefix [of "p @ k" t q] absent_frame [OF fr [OF q(3)], of src] by (auto simp: tight_def has_ext)
  then have "settled H R src d1 p (Some (ext_by k u)) (Some (fst (merged p k nd d1))) (snd (merged p k nd d1))"
    using s by (intro merged_turned [OF k w nd(2)]) (auto simp: settled_def turned_def)
  from settled_trans [OF this] show ?thesis
    using fr nd(1) repair_ext_merged by (metis append_prefixD)
qed

lemma shrink_many: "2 \<le> length (kids_left cs) \<Longrightarrow> shrink cs = Some (TBranch cs)"
  by (cases "kids_left cs" rule: remdups_adj.cases) (simp_all add: shrink_def)

lemma only_kid_rest:
  assumes t: "tight src d p (TBranch cs)" "length cs = 16" and y: "unat y < 16" and s: "placed H R src d1 (p @ [y]) u"
    and fr: "\<And>q. \<not> prefix (p @ [y]) q \<Longrightarrow> bt_get q d1 = bt_get q d"
    and one: "kids_left (cs[unat y := u]) = [i]" and q: "prefix p q" "q \<noteq> p" "\<not> prefix (p @ [of_nat i]) q"
  shows "absent src d1 q"
proof (cases "prefix (p @ [y]) q")
  case True
  have "unat y \<noteq> i" using True q(3) by auto
  then have "u = None" using kids_left_one(3) [OF one, of "unat y"] t(2) y by simp
  then show ?thesis using s True by simp
next
  case False
  have "\<not> has p (TBranch cs) q"
  proof
    assume "has p (TBranch cs) q"
    then obtain j v where j: "j < 16" "cs ! j = Some v" "has (p @ [of_nat j]) v q" using q(2) t(2) by (auto simp: has_branch)
    then have "prefix (p @ [of_nat j]) q" using has_prefix by blast
    then have "j \<noteq> i" "j \<noteq> unat y" using q(3) False by auto
    then show False using kids_left_one(3) [OF one, of j] j t(2) by simp
  qed
  then show ?thesis using t(1) q(1) absent_frame [OF fr [OF False], of src] by (auto simp: tight_def)
qed

lemma repair_branch:
  assumes R: "rlp_ok R" and len: "length cs = 16" and t: "tight src d p (TBranch cs)"
    and nd: "matches H R src d p (Branch ch) (TBranch cs)" and y: "unat y < 16"
    and s: "settled H R src d (p @ [y]) u repl d1"
    and kids: "\<And>v. Some v \<in> set (cs[unat y := u]) \<Longrightarrow> twf m v" and left: "kids_left (cs[unat y := u]) \<noteq> []"
  shows "\<exists>repl' d'. (\<forall>stack. repair R src ((p, Branch ch) # stack) (p @ [y]) repl d1 = repair R src stack p repl' d')
    \<and> settled H R src d p (shrink (cs[unat y := u])) repl' d'"
proof -
  let ?cs = "cs[unat y := u]" and ?ch = "ch[unat y := map_option (\<lambda>_. None) u]"
  have pl: "placed H R src d1 (p @ [y]) u" and fr: "\<And>q. \<not> prefix (p @ [y]) q \<Longrightarrow> bt_get q d1 = bt_get q d"
    using s by (auto simp: settled_def turned_def)
  have ch: "length ch = 16" "\<And>j. j < 16 \<Longrightarrow> kid_ok H R src d (p @ [of_nat j]) (ch ! j) (cs ! j)" using nd len by auto
  have r: "(if repl \<noteq> None then Some None else None) = map_option (\<lambda>_. None) u" using s by (auto simp: settled_def split: option.splits)
  have some: "(?ch ! j \<noteq> None) = (?cs ! j \<noteq> None)" if "j < 16" for j
    using ch(1) len ch(2) [OF that] that by (cases "j = unat y"; cases u) (auto simp: kid_ok_def split: option.splits)
  have l: "filter (\<lambda>i. ?ch ! i \<noteq> None) [0..<16] = kids_left ?cs"
    unfolding kids_left_def length_list_update len by (rule filter_cong) (use some in auto)
  have step: "repair R src ((p, Branch ch) # stack) (p @ [y]) repl d1 =
      (if length (kids_left ?cs) \<ge> 2 then repair R src stack p (Some (Branch ?ch)) (trie_put p (Branch ?ch) d1)
       else case kids_left ?cs of
         [] \<Rightarrow> None
       | i # _ \<Rightarrow> (case collapse_branch R src p i d1 of Inl e \<Rightarrow> Some (Inl e) | Inr (n, d) \<Rightarrow> repair R src stack p (Some n) d))" for stack
    unfolding repair.simps Let_def nth_append_length r l using y ch(1) by simp
  show ?thesis
  proof (cases "2 \<le> length (kids_left ?cs)")
    case True
    let ?d = "trie_put p (Branch ?ch) d1"
    have "turned H R src d p ?d (Some (TBranch ?cs))"
    proof (rule branch_turned [OF t len ch(1) y ch(2)])
      show "placed H R src ?d (p @ [of_nat (unat y)]) u" unfolding nib_of_unat by (rule placed_frame [OF pl]) auto
    qed (use fr in auto)
    then have "settled H R src d p (shrink ?cs) (Some (Branch ?ch)) ?d" using shrink_many [OF True] by (simp add: settled_def)
    then show ?thesis using step True by auto
  next
    case False
    then obtain i where i: "kids_left ?cs = [i]" using left by (cases "kids_left ?cs" rule: remdups_adj.cases) auto
    obtain v where v: "?cs ! i = Some v" using kids_left_one(2) [OF i] by auto
    have i16: "i < 16" using kids_left_one(1) [OF i] len by simp
    have w: "twf m v" using kids v i16 len by (metis length_list_update nth_mem)
    have pv: "placed H R src d1 (p @ [of_nat i]) (Some v)"
    proof (cases "i = unat y")
      case True
      then show ?thesis using pl v i16 len by simp
    next
      case False
      have "placed H R src d (p @ [of_nat i]) (Some v)" using kid_placed [OF nd t, of i] False v i16 len by simp
      moreover have "bt_get q d1 = bt_get q d" if "prefix (p @ [of_nat i]) q" for q
        by (rule fr) (use kid_path_eq [OF i16 y, of p q] False that in auto)
      ultimately show ?thesis using placed_frame by blast
    qed
    then obtain n2 where n2: "trie_get R src d1 (p @ [of_nat i]) = Inr (Some n2)" "matches H R src d1 (p @ [of_nat i]) n2 v"
      using get_coh [OF R w, of H src d1 "p @ [of_nat i]"] by auto
    have "settled H R src d1 p (Some (ext_by [of_nat i] v)) (Some (fst (merged p [of_nat i] n2 d1))) (snd (merged p [of_nat i] n2 d1))"
      by (rule merged_turned [OF _ w n2(2) pv]) (use only_kid_rest [OF t len y pl fr i] in auto)
    moreover have "bt_get q d1 = bt_get q d" if "\<not> prefix p q" for q using fr [of q] that by (auto dest: append_prefixD)
    ultimately have "settled H R src d p (shrink ?cs) (Some (fst (merged p [of_nat i] n2 d1))) (snd (merged p [of_nat i] n2 d1))"
      using settled_trans i v by (simp add: shrink_def)
    moreover have "repair R src ((p, Branch ch) # stack) (p @ [y]) repl d1
        = repair R src stack p (Some (fst (merged p [of_nat i] n2 d1))) (snd (merged p [of_nat i] n2 d1))" for stack
      using step i collapse_merged [OF n2(1)] by (simp split: prod.splits)
    ultimately show ?thesis by blast
  qed
qed

text \<open>The walk and the repair of the nodes it has passed, for a key that is there.\<close>

definition walked ::
    "keccak_fn \<Rightarrow> rlp \<Rightarrow> node_source \<Rightarrow> dirty \<Rightarrow> path \<Rightarrow> trie option \<Rightarrow> (path \<times> node) list \<Rightarrow> (path \<times> node) list \<Rightarrow> bool" where
  "walked H R src d p u visited stack \<longleftrightarrow>
     (\<exists>lp ln st repl d'. visited = (lp, ln) # st @ stack \<and> settled H R src d p u repl d'
        \<and> (\<forall>stack. repair R src (st @ stack) lp None (trie_del lp d) = repair R src stack p repl d'))"

lemma walked_up:
  assumes "walked H R src d q u visited ((p, nd) # stack)"
    and "\<And>repl d1. settled H R src d q u repl d1 \<Longrightarrow>
      \<exists>repl' d'. (\<forall>stack. repair R src ((p, nd) # stack) q repl d1 = repair R src stack p repl' d') \<and> settled H R src d p u' repl' d'"
  shows "walked H R src d p u' visited stack"
proof -
  obtain lp ln st repl d1 where a: "visited = (lp, ln) # st @ (p, nd) # stack" "settled H R src d q u repl d1"
      "\<And>stack. repair R src (st @ stack) lp None (trie_del lp d) = repair R src stack q repl d1"
    using assms(1) unfolding walked_def by blast
  obtain repl' d' where b: "\<And>stack. repair R src ((p, nd) # stack) q repl d1 = repair R src stack p repl' d'"
      "settled H R src d p u' repl' d'" using assms(2) [OF a(2)] by blast
  have "repair R src ((st @ [(p, nd)]) @ stack) lp None (trie_del lp d) = repair R src stack p repl' d'" for stack
    using a(3) [of "(p, nd) # stack"] b(1) by simp
  moreover have "visited = (lp, ln) # (st @ [(p, nd)]) @ stack" using a(1) by simp
  ultimately show ?thesis using b(2) unfolding walked_def by blast
qed

lemma remove_walked:
  assumes R: "rlp_ok R"
  shows "twf n t \<Longrightarrow> placed H R src d p (Some t) \<Longrightarrow> length r = n \<Longrightarrow> nibs r \<Longrightarrow> n < f \<Longrightarrow>
    (case look t r of
       None \<Rightarrow> remove_walk f R src d p r stack = Some (Inr None)
     | Some _ \<Rightarrow> \<exists>visited. remove_walk f R src d p r stack = Some (Inr (Some visited)) \<and> walked H R src d p (trem t r) visited stack)"
proof (induction arbitrary: p r f stack rule: twf.induct)
  case (twf_leaf k n v)
  obtain g where f: "f = Suc g" using twf_leaf.prems by (cases f) auto
  have c: "coh H R src d p (TLeaf k v)" and t: "tight src d p (TLeaf k v)" using twf_leaf.prems(1) by simp_all
  from get_coh [OF R twf.twf_leaf [OF twf_leaf.hyps] c] have g: "trie_get R src d p = Inr (Some (Leaf k v))" by auto
  have "settled H R src d p None None (trie_del p d)"
    using t by (auto simp: settled_def turned_def tight_def has_leaf absent_def)
  then have "walked H R src d p None ((p, Leaf k v) # stack) stack"
    unfolding walked_def
    by (intro exI [of _ p] exI [of _ "Leaf k v"] exI [of _ "[]"] exI [of _ None] exI [of _ "trie_del p d"]) simp
  then show ?case using f g by auto
next
  case (twf_ext k m cs n)
  obtain g where f: "f = Suc g" using twf_ext.prems by (cases f) auto
  have c: "coh H R src d p (TExt k (TBranch cs))" and t: "tight src d p (TExt k (TBranch cs))" using twf_ext.prems(1) by simp_all
  obtain nd where nd: "trie_get R src d p = Inr (Some nd)" "matches H R src d p nd (TExt k (TBranch cs))"
    using get_coh [OF R twf.twf_ext [OF twf_ext.hyps] c] by blast
  then obtain cr where cr: "nd = Ext k cr" by auto
  note pl = ext_placed [OF nd(2) t twf_ext.hyps(1)]
  show ?case
  proof (cases "prefix k r")
    case True
    then obtain r2 where r: "r = k @ r2" by (auto simp: prefix_def)
    have r2: "length r2 = m" "nibs r2" "m < g" using twf_ext.prems(2-4) twf_ext.hyps(1,4) r f by (cases k; simp)+
    obtain u where u: "trem (TBranch cs) r2 = Some u" "twf m u" using trem_props [OF twf_ext.hyps(3) r2(1,2)] by blast
    have step: "remove_walk f R src d p r stack = remove_walk g R src d (p @ k) r2 ((p, Ext k cr) # stack)"
      using f nd cr r by simp
    have look: "look (TExt k (TBranch cs)) r = look (TBranch cs) r2" using r by (simp del: look.simps(3))
    have up: "walked H R src d p (trem (TExt k (TBranch cs)) r) visited stack"
      if "walked H R src d (p @ k) (trem (TBranch cs) r2) visited ((p, Ext k cr) # stack)" for visited
      by (rule walked_up [OF that]) (use repair_ext [OF twf_ext.hyps(1) u(2) t] u(1) r in \<open>simp del: trem.simps(3)\<close>)
    show ?thesis using twf_ext.IH [OF pl r2(1,2,3), of "(p, Ext k cr) # stack"] up unfolding step look
      by (auto split: option.splits simp del: trem.simps look.simps)
  next
    case False
    then show ?thesis using f nd cr by simp
  qed
next
  case (twf_branch cs i j m n)
  obtain g where f: "f = Suc g" using twf_branch.prems by (cases f) auto
  obtain y r2 where r: "r = y # r2" "unat y < 16" "length r2 = m" "nibs r2"
    using twf_branch.prems twf_branch.hyps by (cases r) (auto simp: nib_unat)
  have b: "twf n (TBranch cs)" by (rule twf.twf_branch [OF twf_branch.hyps(1-6)]) (use twf_branch.hyps in auto)
  have c: "coh H R src d p (TBranch cs)" and t: "tight src d p (TBranch cs)" using twf_branch.prems(1) by simp_all
  obtain nd where nd: "trie_get R src d p = Inr (Some nd)" "matches H R src d p nd (TBranch cs)"
    using get_coh [OF R b c] by blast
  then obtain ch where ch: "nd = Branch ch" "length ch = 16"
      "\<And>j. j < 16 \<Longrightarrow> kid_ok H R src d (p @ [of_nat j]) (ch ! j) (cs ! j)" using twf_branch.hyps(1) by auto
  show ?case
  proof (cases "cs ! unat y")
    case None
    then have "ch ! unat y = None" using ch(3) [OF r(2)] by (simp add: kid_ok_def)
    then show ?thesis using f nd ch r None twf_branch.hyps(1) by simp
  next
    case (Some u)
    have mem: "Some u \<in> set cs" using Some r twf_branch.hyps(1) by (metis nth_mem)
    have w: "twf m u" using twf_branch.hyps mem by blast
    have pl: "placed H R src d (p @ [y]) (Some u)"
      using kid_placed [OF nd(2) t, of "unat y"] r twf_branch.hyps(1) Some by simp
    obtain cr where "ch ! unat y = Some cr" using ch(3) [OF r(2)] Some by (auto simp: kid_ok_def)
    then have step: "remove_walk f R src d p r stack = remove_walk g R src d (p @ [y]) r2 ((p, Branch ch) # stack)"
      using f nd ch r by simp
    have look: "look (TBranch cs) r = look u r2" and rem: "trem (TBranch cs) r = shrink (cs[unat y := trem u r2])"
      using r Some twf_branch.hyps(1) by simp_all
    have kids: "twf m v" if "Some v \<in> set (cs[unat y := trem u r2])" for v
      using that set_update_subset_insert [of cs "unat y" "trem u r2"] trem_props [OF w r(3,4)] twf_branch.hyps(6) by auto
    have m: "matches H R src d p (Branch ch) (TBranch cs)" using nd(2) ch(1) by simp
    have up: "walked H R src d p (trem (TBranch cs) r) visited stack"
      if "walked H R src d (p @ [y]) (trem u r2) visited ((p, Branch ch) # stack)" for visited
      unfolding rem
      by (rule walked_up [OF that], rule repair_branch [OF R twf_branch.hyps(1) t m r(2) _ kids])
        (use kids_left_update [OF twf_branch.hyps(1-5)] in auto)
    have "m < g" using twf_branch.prems(4) twf_branch.hyps f by simp
    then show ?thesis using twf_branch.IH [OF mem pl r(3,4), of g "(p, Branch ch) # stack"] up unfolding step look
      by (auto split: option.splits simp del: trem.simps look.simps)
  qed
qed

end
