(* ===== verification/Trie_Commit.thy ===== *)
theory Trie_Commit
  imports Trie_Ops
begin

text \<open>
  Committing a session returns the root of the represented trie and writes that leave exactly its
  nodes in the store. Sessions therefore act on a store as updates act on a map, and a store depends
  only on the map it holds, not on how it was reached.
\<close>

subsection \<open>What encoding leaves behind\<close>

type_synonym commit_state = "dirty \<times> node_writes"

definition at :: "path \<Rightarrow> commit_state \<Rightarrow> node option option \<times> byte list option option" where
  "at q st = (bt_get q (fst st), bt_get q (snd st))"

definition good :: "keccak_fn \<Rightarrow> rlp \<Rightarrow> node_source \<Rightarrow> path \<Rightarrow> trie \<Rightarrow> commit_state \<Rightarrow> commit_state \<Rightarrow> bool" where
  "good H R src q u st st' \<longleftrightarrow>
     snd (at q st') = Some (Some (tenc H R u)) \<and> fst (at q st') \<noteq> Some None
     \<or> snd (at q st') = snd (at q st) \<and> fst (at q st') = None \<and> src q = Some (tenc H R u)"

text \<open>The nodes of \<open>t\<close> below \<open>p\<close> are written, or were there already; no other path is touched.\<close>

definition wrote :: "keccak_fn \<Rightarrow> rlp \<Rightarrow> node_source \<Rightarrow> path \<Rightarrow> trie option \<Rightarrow> commit_state \<Rightarrow> commit_state \<Rightarrow> bool" where
  "wrote H R src p t st st' \<longleftrightarrow>
     (\<forall>q. prefix p q \<longrightarrow>
        (case t of
           None \<Rightarrow> at q st' = at q st
         | Some t \<Rightarrow> (\<forall>u. sub p t q u \<longrightarrow> good H R src q u st st') \<and> (\<not> has p t q \<longrightarrow> at q st' = at q st)))"

definition encoded :: "keccak_fn \<Rightarrow> rlp \<Rightarrow> node_source \<Rightarrow> path \<Rightarrow> trie option \<Rightarrow> commit_state \<Rightarrow> commit_state \<Rightarrow> bool" where
  "encoded H R src p t st st' \<longleftrightarrow> wrote H R src p t st st' \<and> (\<forall>q. \<not> prefix p q \<longrightarrow> at q st' = at q st)"

lemma wrote_cong:
  assumes "wrote H R src p t st st'" "\<And>q. prefix p q \<Longrightarrow> at q st0 = at q st" "\<And>q. prefix p q \<Longrightarrow> at q st1 = at q st'"
  shows "wrote H R src p t st0 st1"
  using assms by (auto simp: wrote_def good_def split: option.splits)

lemma clean_encoded: "clean H R src (fst st) p t \<Longrightarrow> encoded H R src p (Some t) st st"
  by (auto simp: encoded_def wrote_def good_def clean_def at_def)

definition kid_refs :: "keccak_fn \<Rightarrow> rlp \<Rightarrow> trie option \<Rightarrow> child_ref option" where
  "kid_refs H R = map_option (\<lambda>t. Some (tref H R t))"

lemma encode_kids_ok:
  assumes len: "length cs = 16"
    and enc: "\<And>j u st. j < 16 \<Longrightarrow> cs ! j = Some u \<Longrightarrow> coh H R src (fst st) (p @ [of_nat j]) u \<Longrightarrow>
      \<exists>st'. enc (p @ [of_nat j]) st = Some (Inr (tenc H R u, st')) \<and> encoded H R src (p @ [of_nat j]) (Some u) st st'"
  shows "i + length chs = 16 \<Longrightarrow>
    (\<And>j. j < length chs \<Longrightarrow> kid_ok H R src (fst st) (p @ [of_nat (i + j)]) (chs ! j) (cs ! (i + j))) \<Longrightarrow>
    \<exists>st'. encode_kids enc H p i chs st = Some (Inr (map (kid_refs H R) (drop i cs), st'))
      \<and> (\<forall>j. i \<le> j \<longrightarrow> j < 16 \<longrightarrow> wrote H R src (p @ [of_nat j]) (cs ! j) st st')
      \<and> (\<forall>q. (\<forall>j. i \<le> j \<longrightarrow> j < 16 \<longrightarrow> \<not> prefix (p @ [of_nat j]) q) \<longrightarrow> at q st' = at q st)"
proof (induction chs arbitrary: i st)
  case Nil
  then show ?case using len by simp
next
  case (Cons c chs)
  have i: "i < 16" using Cons.prems(1) by simp
  have kid: "kid_ok H R src (fst st) (p @ [of_nat i]) c (cs ! i)" using Cons.prems(2) [of 0] by simp
  let ?one = "if c = Some None
      then try_bind (enc (p @ [of_nat i]) st) (\<lambda>(rlp, st). Some (Inr (Some (Some (mk_child_ref H rlp)), st)))
      else Some (Inr (c, st))"
  have "\<exists>st1. ?one = Some (Inr (kid_refs H R (cs ! i), st1)) \<and> encoded H R src (p @ [of_nat i]) (cs ! i) st st1"
  proof (cases "cs ! i")
    case None
    then show ?thesis using kid by (simp add: kid_ok_def kid_refs_def encoded_def wrote_def)
  next
    case (Some u)
    then consider "c = Some None" "coh H R src (fst st) (p @ [of_nat i]) u"
      | "c = Some (Some (tref H R u))" "clean H R src (fst st) (p @ [of_nat i]) u" using kid by (auto simp: kid_ok_def)
    then show ?thesis
    proof cases
      case 1
      then show ?thesis using enc [OF i Some, of st] Some by (auto simp: kid_refs_def tref_def)
    next
      case 2
      then show ?thesis using clean_encoded [OF 2(2)] Some by (simp add: kid_refs_def)
    qed
  qed
  then obtain st1 where st1: "?one = Some (Inr (kid_refs H R (cs ! i), st1))" "encoded H R src (p @ [of_nat i]) (cs ! i) st st1" by blast
  have out: "at q st1 = at q st" if "\<not> prefix (p @ [of_nat i]) q" for q using st1(2) that by (simp add: encoded_def)
  have apart: "at q st1 = at q st" if "prefix (p @ [of_nat j]) q" "j < 16" "i < j" for q j
    by (rule out) (use kid_path_eq [OF i that(2), of p q] that in auto)
  have "kid_ok H R src (fst st1) (p @ [of_nat (Suc i + j)]) (chs ! j) (cs ! (Suc i + j))" if j: "j < length chs" for j
  proof (rule kid_frame)
    show "kid_ok H R src (fst st) (p @ [of_nat (Suc i + j)]) (chs ! j) (cs ! (Suc i + j))" using Cons.prems(2) [of "Suc j"] j by simp
    show "bt_get q (fst st1) = bt_get q (fst st)" if "prefix (p @ [of_nat (Suc i + j)]) q" for q
      using apart [OF that] j Cons.prems(1) by (simp add: at_def)
  qed
  then obtain st' where st': "encode_kids enc H p (Suc i) chs st1 = Some (Inr (map (kid_refs H R) (drop (Suc i) cs), st'))"
      "\<And>j. Suc i \<le> j \<Longrightarrow> j < 16 \<Longrightarrow> wrote H R src (p @ [of_nat j]) (cs ! j) st1 st'"
      "\<And>q. \<forall>j. Suc i \<le> j \<longrightarrow> j < 16 \<longrightarrow> \<not> prefix (p @ [of_nat j]) q \<Longrightarrow> at q st' = at q st1"
    using Cons.IH [of "Suc i" st1] Cons.prems(1) by auto
  have "encode_kids enc H p i (c # chs) st = Some (Inr (map (kid_refs H R) (drop i cs), st'))"
    unfolding encode_kids.simps st1(1) using st'(1) i len by (simp flip: Cons_nth_drop_Suc)
  moreover have "wrote H R src (p @ [of_nat j]) (cs ! j) st st'" if j: "i \<le> j" "j < 16" for j
  proof (cases "j = i")
    case True
    have "at q st' = at q st1" if "prefix (p @ [of_nat i]) q" for q
      by (rule st'(3)) (use kid_path_eq [OF i, of _ p q] that in fastforce)
    moreover have "wrote H R src (p @ [of_nat i]) (cs ! i) st st1" using st1(2) by (simp add: encoded_def)
    ultimately show ?thesis using True wrote_cong by blast
  next
    case False
    then show ?thesis using wrote_cong [OF st'(2) [of j], of st st'] apart [of j] j by auto
  qed
  moreover have "at q st' = at q st" if "\<forall>j. i \<le> j \<longrightarrow> j < 16 \<longrightarrow> \<not> prefix (p @ [of_nat j]) q" for q
    using st'(3) [of q] out [of q] that i by auto
  ultimately show ?case by blast
qed

text \<open>The nodes strictly below \<open>p\<close> are done; the node at \<open>p\<close> comes last.\<close>

definition below :: "keccak_fn \<Rightarrow> rlp \<Rightarrow> node_source \<Rightarrow> path \<Rightarrow> trie \<Rightarrow> commit_state \<Rightarrow> commit_state \<Rightarrow> bool" where
  "below H R src p t st st' \<longleftrightarrow>
     (\<forall>q. prefix p q \<longrightarrow> q \<noteq> p \<longrightarrow> (\<forall>u. sub p t q u \<longrightarrow> good H R src q u st st') \<and> (\<not> has p t q \<longrightarrow> at q st' = at q st))
     \<and> (\<forall>q. \<not> prefix p q \<longrightarrow> at q st' = at q st)"

lemma encode_body_ok:
  assumes R: "rlp_ok R" and w: "twf n t" and nd: "bt_get p (fst st) = Some (Some nd)"
    and r: "resolve enc H p nd st = Some (Inr (tnode H R t, st1))" and b: "below H R src p t st st1"
  shows "\<exists>st'. encode_body enc H R src p st = Some (Inr (tenc H R t, st')) \<and> encoded H R src p (Some t) st st'"
proof -
  let ?st = "(trie_put p (tnode H R t) (fst st1), bt_insert p (Some (tenc H R t)) (snd st1))"
  have e: "encode_body enc H R src p st = Some (Inr (tenc H R t, ?st))"
    using nd r twf_encode [OF R R w] by (simp add: encode_body_def split: prod.splits)
  have off: "at q ?st = at q st1" if "q \<noteq> p" for q using that by (simp add: at_def bt_simps)
  have "good H R src p u st ?st" if "sub p t p u" for u
    using sub_unique [OF w that sub_here] by (simp add: good_def at_def bt_simps)
  moreover have "good H R src q u st ?st" if "prefix p q" "q \<noteq> p" "sub p t q u" for q u
    using b that off [of q] by (simp add: below_def good_def)
  moreover have "at q ?st = at q st" if "\<not> has p t q" for q
    using that b off [of q] by (cases "q = p"; cases "prefix p q") (auto simp: below_def)
  moreover have "at q ?st = at q st" if "\<not> prefix p q" for q
    using that b off [of q] by (auto simp: below_def)
  ultimately have "encoded H R src p (Some t) st ?st" unfolding encoded_def wrote_def option.case by metis
  then show ?thesis using e by blast
qed

lemma clean_body:
  "clean H R src (fst st) p t \<Longrightarrow>
     \<exists>st'. encode_body enc H R src p st = Some (Inr (tenc H R t, st')) \<and> encoded H R src p (Some t) st st'"
  using clean_encoded [of H R src st p t] sub_here [of p t] by (auto simp: encode_body_def clean_def)

lemma below_ext: "encoded H R src (p @ k) (Some t) st st' \<Longrightarrow> below H R src p (TExt k t) st st'"
  using has_prefix [of "p @ k" t] sub_prefix [of "p @ k" t]
  by (auto simp: below_def encoded_def wrote_def sub_ext_iff has_ext dest: append_prefixD)

lemma below_branch:
  assumes len: "length cs = 16" and w: "\<And>j. j < 16 \<Longrightarrow> wrote H R src (p @ [of_nat j]) (cs ! j) st st'"
    and out: "\<And>q. \<forall>j. j < 16 \<longrightarrow> \<not> prefix (p @ [of_nat j]) q \<Longrightarrow> at q st' = at q st"
  shows "below H R src p (TBranch cs) st st'"
proof -
  have "good H R src q u st st'" if q: "q \<noteq> p" "sub p (TBranch cs) q u" for q u
  proof -
    obtain j v where j: "j < 16" "cs ! j = Some v" "sub (p @ [of_nat j]) v q u" using q len by (auto simp: sub_branch_iff)
    then show ?thesis using w [OF j(1)] sub_prefix [OF j(3)] by (simp add: wrote_def)
  qed
  moreover have "at q st' = at q st" if q: "\<not> has p (TBranch cs) q" for q
  proof (cases "\<exists>j < 16. prefix (p @ [of_nat j]) q")
    case True
    then obtain j where j: "j < 16" "prefix (p @ [of_nat j]) q" by blast
    show ?thesis using w [OF j(1)] j q len by (cases "cs ! j") (auto simp: wrote_def has_branch)
  qed (use out in blast)
  moreover have "at q st' = at q st" if "\<not> prefix p q" for q
    by (rule out) (use that in \<open>auto dest: append_prefixD\<close>)
  ultimately show ?thesis unfolding below_def by blast
qed

lemma encode_at_ok:
  assumes R: "rlp_ok R"
  shows "twf n t \<Longrightarrow> coh H R src (fst st) p t \<Longrightarrow> n < f \<Longrightarrow>
    \<exists>st'. encode_at f H R src p st = Some (Inr (tenc H R t, st')) \<and> encoded H R src p (Some t) st st'"
proof (induction n t arbitrary: p f st rule: twf.induct)
  case (twf_leaf k n v)
  obtain g where f: "f = Suc g" "n \<le> g" using twf_leaf.prems by (cases f) auto
  show ?case
  proof (cases "clean H R src (fst st) p (TLeaf k v)")
    case True
    then show ?thesis unfolding f(1) encode_at.simps by (rule clean_body)
  next
    case False
    then have nd: "bt_get p (fst st) = Some (Some (Leaf k v))" using twf_leaf.prems by simp
    show ?thesis unfolding f(1) encode_at.simps
      by (rule encode_body_ok [OF R twf.twf_leaf [OF twf_leaf.hyps] nd])
        (auto simp: resolve_def below_def sub_leaf_iff has_leaf)
  qed
next
  case (twf_ext k m cs n)
  obtain g where f: "f = Suc g" "m < g" using twf_ext.prems twf_ext.hyps by (cases f; cases k) auto
  show ?case
  proof (cases "clean H R src (fst st) p (TExt k (TBranch cs))")
    case True
    then show ?thesis unfolding f(1) encode_at.simps by (rule clean_body)
  next
    case False
    then obtain c where nd: "bt_get p (fst st) = Some (Some (Ext k c))"
        "c = None \<and> coh H R src (fst st) (p @ k) (TBranch cs) \<or> c = Some (tref H R (TBranch cs)) \<and> clean H R src (fst st) (p @ k) (TBranch cs)"
      using twf_ext.prems(1) by (auto simp del: coh.simps(3))
    have "\<exists>st1. resolve (encode_at g H R src) H p (Ext k c) st = Some (Inr (tnode H R (TExt k (TBranch cs)), st1))
        \<and> encoded H R src (p @ k) (Some (TBranch cs)) st st1"
      using nd(2)
    proof
      assume "c = None \<and> coh H R src (fst st) (p @ k) (TBranch cs)"
      then show ?thesis using twf_ext.IH [of st "p @ k" g] f(2) by (auto simp: resolve_def simp del: coh.simps tenc.simps)
    next
      assume "c = Some (tref H R (TBranch cs)) \<and> clean H R src (fst st) (p @ k) (TBranch cs)"
      then show ?thesis using clean_encoded [of H R src st "p @ k" "TBranch cs"] by (auto simp: resolve_def tref_def simp del: tenc.simps)
    qed
    then obtain st1 where st1: "resolve (encode_at g H R src) H p (Ext k c) st = Some (Inr (tnode H R (TExt k (TBranch cs)), st1))"
        "encoded H R src (p @ k) (Some (TBranch cs)) st st1" by blast
    show ?thesis unfolding f(1) encode_at.simps
      by (rule encode_body_ok [OF R twf.twf_ext [OF twf_ext.hyps] nd(1) st1(1) below_ext [OF st1(2)]])
  qed
next
  case (twf_branch cs i j m n)
  obtain g where f: "f = Suc g" "m < g" using twf_branch.prems twf_branch.hyps by (cases f) auto
  have b: "twf n (TBranch cs)" by (rule twf.twf_branch [OF twf_branch.hyps(1-6)]) (use twf_branch.hyps in auto)
  show ?case
  proof (cases "clean H R src (fst st) p (TBranch cs)")
    case True
    then show ?thesis unfolding f(1) encode_at.simps by (rule clean_body)
  next
    case False
    then obtain ch where nd: "bt_get p (fst st) = Some (Some (Branch ch))" "length ch = 16"
        "\<And>j. j < 16 \<Longrightarrow> kid_ok H R src (fst st) (p @ [of_nat j]) (ch ! j) (cs ! j)"
      using twf_branch.prems(1) twf_branch.hyps(1) unfolding coh_iff by auto
    have enc: "\<exists>st'. encode_at g H R src (p @ [of_nat j]) st = Some (Inr (tenc H R u, st')) \<and> encoded H R src (p @ [of_nat j]) (Some u) st st'"
      if "j < 16" "cs ! j = Some u" "coh H R src (fst st) (p @ [of_nat j]) u" for j u st
    proof -
      have "Some u \<in> set cs" using that twf_branch.hyps(1) by (metis nth_mem)
      then show ?thesis using twf_branch.IH that(3) f(2) by blast
    qed
    have "\<exists>st1. encode_kids (encode_at g H R src) H p 0 ch st = Some (Inr (map (kid_refs H R) (drop 0 cs), st1))
        \<and> (\<forall>j. 0 \<le> j \<longrightarrow> j < 16 \<longrightarrow> wrote H R src (p @ [of_nat j]) (cs ! j) st st1)
        \<and> (\<forall>q. (\<forall>j. 0 \<le> j \<longrightarrow> j < 16 \<longrightarrow> \<not> prefix (p @ [of_nat j]) q) \<longrightarrow> at q st1 = at q st)"
      by (rule encode_kids_ok [OF twf_branch.hyps(1) enc]) (use nd in auto)
    then obtain st1 where st1: "encode_kids (encode_at g H R src) H p 0 ch st = Some (Inr (map (kid_refs H R) cs, st1))"
        "\<And>j. j < 16 \<Longrightarrow> wrote H R src (p @ [of_nat j]) (cs ! j) st st1"
        "\<And>q. \<forall>j. j < 16 \<longrightarrow> \<not> prefix (p @ [of_nat j]) q \<Longrightarrow> at q st1 = at q st" by auto
    have "resolve (encode_at g H R src) H p (Branch ch) st = Some (Inr (tnode H R (TBranch cs), st1))"
      using st1(1) by (simp add: resolve_def kid_refs_def tref_def)
    then show ?thesis unfolding f(1) encode_at.simps
      by (rule encode_body_ok [OF R b nd(1) _ below_branch [OF twf_branch.hyps(1) st1(2,3)]])
  qed
qed

subsection \<open>The overlay stays ordered\<close>

lemma put_del_wf [simp]: "bt_wf d \<Longrightarrow> bt_wf (trie_put p n d)" "bt_wf d \<Longrightarrow> bt_wf (trie_del p d)"
  by (simp_all add: trie_put_def trie_del_def bt_wf_insert)

lemma split_wf: "bt_wf d \<Longrightarrow> bt_wf (split_leaf p r k v x d)" "bt_wf d \<Longrightarrow> bt_wf (split_ext p r k x d)"
  by (auto simp: split_leaf_def split_ext_def Let_def)

lemma insert_loop_wf: "insert_loop f R src p r x d = Some (Inr d') \<Longrightarrow> bt_wf d \<Longrightarrow> bt_wf d'"
  by (induction f arbitrary: p r d)
    (auto simp: split_wf split: sum.splits option.splits node.splits if_splits list.splits)

lemma collapse_wf: "collapse_branch R src p i d = Inr (n, d') \<Longrightarrow> bt_wf d \<Longrightarrow> bt_wf d'"
  by (auto simp: collapse_branch_def Let_def split: sum.splits option.splits node.splits)

lemma repair_wf: "repair R src st p repl d = Some (Inr d') \<Longrightarrow> bt_wf d \<Longrightarrow> bt_wf d'"
proof (induction R src st p repl d rule: repair.induct)
  case (2 R src p children stack child_path replaced d)
  then show ?case using collapse_wf
    by (auto simp: Let_def split: if_splits list.splits sum.splits prod.splits)
qed (auto simp: Let_def split: option.splits node.splits)

definition keeps :: "encoder \<Rightarrow> bool" where
  "keeps enc \<longleftrightarrow> (\<forall>p d w r d' w'. enc p (d, w) = Some (Inr (r, d', w')) \<longrightarrow> bt_wf d \<longrightarrow> bt_wf d')"

lemma keepsD: "keeps enc \<Longrightarrow> enc p (d, w) = Some (Inr (r, d', w')) \<Longrightarrow> bt_wf d \<Longrightarrow> bt_wf d'"
  unfolding keeps_def by blast

lemma keeps_kids:
  "keeps enc \<Longrightarrow> encode_kids enc H p i chs (d, w) = Some (Inr (cs, d', w')) \<Longrightarrow> bt_wf d \<Longrightarrow> bt_wf d'"
proof (induction chs arbitrary: i d w cs)
  case (Cons c chs)
  then show ?case by (auto simp: try_bind_Inr split: if_splits dest: keepsD)
qed simp

lemma keeps_resolve:
  "keeps enc \<Longrightarrow> resolve enc H p n (d, w) = Some (Inr (n', d', w')) \<Longrightarrow> bt_wf d \<Longrightarrow> bt_wf d'"
  by (auto simp: resolve_def try_bind_Inr split: node.splits option.splits dest: keepsD keeps_kids)

lemma keeps_body: "keeps enc \<Longrightarrow> keeps (encode_body enc H R src)"
  unfolding keeps_def [of "encode_body enc H R src"]
  by (auto simp: encode_body_def try_bind_Inr split: option.splits dest: keeps_resolve)

lemma keeps_encode_at: "keeps (encode_at f H R src)"
  by (induction f) (simp_all add: keeps_body, simp add: keeps_def)

subsection \<open>Commit\<close>

lemma deletions_get:
  assumes "bt_wf d"
  shows "bt_get q (deletions d w) = (if bt_get q w = None \<and> bt_get q d = Some None then Some None else bt_get q w)"
proof -
  have "distinct (map fst d)" using assms by (rule bt_wf_distinct)
  then show ?thesis unfolding deletions_def
  proof (induction d arbitrary: w)
    case (Cons e d)
    obtain p n where e: "e = (p, n)" by fastforce
    have "bt_get p d = None" using Cons.prems e by (simp add: bt_get_def map_of_eq_None_iff)
    moreover have "bt_get q (e # d) = (if q = p then Some n else bt_get q d)" using e by (simp add: bt_get_def)
    ultimately show ?case using Cons e by (auto simp: bt_simps bt_has_def)
  qed simp
qed

text \<open>A store that holds exactly the nodes of a trie.\<close>

definition holds :: "keccak_fn \<Rightarrow> rlp \<Rightarrow> node_source \<Rightarrow> trie option \<Rightarrow> bool" where
  "holds H R src t \<longleftrightarrow> (\<forall>q v. src q = Some v \<longleftrightarrow> (\<exists>t' u. t = Some t' \<and> sub [] t' q u \<and> v = tenc H R u))"

definition root_of :: "keccak_fn \<Rightarrow> rlp \<Rightarrow> b256 \<Rightarrow> trie option \<Rightarrow> b256" where
  "root_of H R empty_root t = (case t of None \<Rightarrow> empty_root | Some t \<Rightarrow> H (tenc H R t))"

definition twfo :: "trie option \<Rightarrow> bool" where "twfo t \<longleftrightarrow> (\<forall>u. t = Some u \<longrightarrow> twf 64 u)"

definition session :: "keccak_fn \<Rightarrow> rlp \<Rightarrow> node_source \<Rightarrow> dirty \<Rightarrow> trie option \<Rightarrow> bool" where
  "session H R src d t \<longleftrightarrow> placed H R src d [] t \<and> twfo t \<and> bt_wf d"

lemma holds_unique: "holds H R src t \<Longrightarrow> holds H R src' t \<Longrightarrow> src = src'"
  unfolding holds_def by (intro ext) (metis not_Some_eq)

lemma holds_session:
  assumes "holds H R src t" "twfo t" shows "session H R src [] t"
proof (cases t)
  case None
  then show ?thesis using assms by (auto simp: session_def holds_def absent_def)
next
  case (Some u)
  have c: "clean H R src [] [] u" using assms Some by (auto simp: clean_def holds_def)
  have "has [] u q \<or> absent src [] q" for q
    using assms Some by (auto simp: has_def absent_def holds_def)
  then show ?thesis using coh_clean [OF c] assms Some by (simp add: session_def tight_def)
qed

lemma commit_ok:
  assumes R: "rlp_ok R" and s: "session H R src d t"
  shows "\<exists>w. trie_commit H R empty_root src d = Some (Inr (root_of H R empty_root t, w)) \<and> holds H R (apply_writes w src) t"
proof (cases t)
  case None
  then have a: "absent src d q" for q using s by (simp add: session_def)
  have "apply_writes (deletions d []) src q = None" for q
    using a [of q] s by (auto simp: apply_writes_def deletions_get session_def absent_def)
  then show ?thesis using None get_absent [OF a] by (simp add: trie_commit_def root_of_def holds_def)
next
  case (Some u)
  have w: "twf 64 u" and c: "coh H R src d [] u" and t: "tight src d [] u" using s Some by (auto simp: session_def twfo_def)
  obtain nd where nd: "trie_get R src d [] = Inr (Some nd)" using get_coh [OF R w c] by blast
  obtain st' where st': "encode_at KEY_FUEL H R src [] (d, []) = Some (Inr (tenc H R u, st'))" "encoded H R src [] (Some u) (d, []) st'"
    using encode_at_ok [OF R w, of H src "(d, [])" "[]" KEY_FUEL] c by (auto simp: KEY_FUEL_def)
  have wf: "bt_wf (fst st')" using keepsD [OF keeps_encode_at] st'(1) s unfolding session_def by (metis prod.collapse)
  let ?src = "apply_writes (deletions (fst st') (snd st')) src"
  have "?src q = Some (tenc H R v)" if "sub [] u q v" for q v
  proof -
    have "good H R src q v (d, []) st'" using st'(2) that by (simp add: encoded_def wrote_def)
    then show ?thesis by (auto simp: good_def at_def apply_writes_def deletions_get [OF wf])
  qed
  moreover have "?src q = None" if q: "\<not> has [] u q" for q
  proof -
    have "at q st' = at q (d, [])" using st'(2) q by (auto simp: encoded_def wrote_def)
    moreover have "absent src d q" using t q by (auto simp: tight_def)
    ultimately show ?thesis by (auto simp: at_def apply_writes_def deletions_get [OF wf] absent_def)
  qed
  ultimately have "holds H R ?src (Some u)" unfolding holds_def has_def by (metis option.inject option.simps(3))
  then show ?thesis using Some nd st'(1) by (auto simp: trie_commit_def root_of_def split: prod.splits)
qed

end
