(* ===== verification/Trie_Store.thy ===== *)
theory Trie_Store
  imports Trie_Commit
begin

text \<open>
  A session is a list of insertions and removals followed by a commit. On a store that holds a map it
  returns the root of the updated map and leaves a store of the updated map; root and store depend on
  the map alone. The proof of a key leads to its value.
\<close>

subsection \<open>Keys as nibbles\<close>

lemma byte_nibbles_nibs: "nibs (byte_nibbles b)"
proof -
  have "unat (drop_bit 4 b) < 16" using unsigned_less [of b, where ?'a = nat]
    unfolding unat_drop_bit_eq by (simp add: drop_bit_eq_div)
  moreover have "unat (b AND 0x0f) < 16"
  proof -
    have m: "(0x0f :: byte) = mask 4" by (simp add: mask_eq_exp_minus_1)
    have "unat (take_bit 4 b) = take_bit 4 (unat b)" by (simp add: unsigned_take_bit_eq)
    then show ?thesis unfolding m take_bit_eq_mask [symmetric] using take_bit_nat_less_exp [of 4 "unat b"] by simp
  qed
  ultimately show ?thesis by (simp add: byte_nibbles_def nib_unat)
qed

lemma byte_nibbles_inj: "byte_nibbles a = byte_nibbles b \<longleftrightarrow> a = b"
proof
  assume e: "byte_nibbles a = byte_nibbles b"
  have m: "(0x0f :: byte) = mask 4" by (simp add: mask_eq_exp_minus_1)
  have r: "push_bit 4 (drop_bit 4 c) + (c AND 0x0f) = c" for c :: byte
    unfolding m take_bit_eq_mask [symmetric] by (rule bits_ident)
  have "drop_bit 4 a = drop_bit 4 b" "a AND 0x0f = b AND 0x0f" using e by (simp_all add: byte_nibbles_def)
  then show "a = b" using r by metis
qed simp

lemma concat_nibbles_inj: "concat (map byte_nibbles xs) = concat (map byte_nibbles ys) \<Longrightarrow> xs = ys"
proof (induction xs arbitrary: ys)
  case Nil
  then show ?case by (cases ys) (auto simp: byte_nibbles_def)
next
  case (Cons x xs)
  then obtain y ys' where ys: "ys = y # ys'" by (cases ys) (auto simp: byte_nibbles_def)
  have "length (byte_nibbles x) = length (byte_nibbles y)" by (simp add: byte_nibbles_def)
  then have "byte_nibbles x = byte_nibbles y \<and> concat (map byte_nibbles xs) = concat (map byte_nibbles ys')"
    using Cons.prems ys by simp
  then show ?case using Cons.IH ys byte_nibbles_inj by auto
qed

lemma to_nibbles_ok [simp]: "length (to_nibbles k) = 64" "nibs (to_nibbles k)" "to_nibbles j = to_nibbles k \<longleftrightarrow> j = k"
proof -
  have "length (concat (map byte_nibbles xs)) = 2 * length xs" for xs by (induction xs) (simp_all add: byte_nibbles_def)
  then show "length (to_nibbles k) = 64" by (simp add: to_nibbles_def)
  show "nibs (to_nibbles k)" using byte_nibbles_nibs by (auto simp: to_nibbles_def nibs_def)
  show "to_nibbles j = to_nibbles k \<longleftrightarrow> j = k" unfolding to_nibbles_def using concat_nibbles_inj be256_inj by blast
qed

subsection \<open>Sessions\<close>

type_synonym trie_update = "b256 \<times> byte list option"

fun trie_updates :: "rlp \<Rightarrow> node_source \<Rightarrow> trie_update list \<Rightarrow> dirty \<Rightarrow> (trie_error + dirty) option" where
  "trie_updates R src [] d = Some (Inr d)"
| "trie_updates R src ((k, v) # us) d =
     try_bind (case v of Some v \<Rightarrow> trie_insert R src k v d | None \<Rightarrow> remove_key R src k d) (trie_updates R src us)"

definition trie_session ::
    "keccak_fn \<Rightarrow> rlp \<Rightarrow> b256 \<Rightarrow> node_source \<Rightarrow> trie_update list \<Rightarrow> (trie_error + b256 \<times> node_source) option" where
  "trie_session H R empty_root src us =
     try_bind (trie_updates R src us []) (\<lambda>d.
     try_bind (trie_commit H R empty_root src d) (\<lambda>(root, writes). Some (Inr (root, apply_writes writes src))))"

fun trie_sessions ::
    "keccak_fn \<Rightarrow> rlp \<Rightarrow> b256 \<Rightarrow> b256 \<Rightarrow> node_source \<Rightarrow> trie_update list list \<Rightarrow> (trie_error + b256 \<times> node_source) option" where
  "trie_sessions H R empty_root root src [] = Some (Inr (root, src))"
| "trie_sessions H R empty_root root src (us # bs) =
     try_bind (trie_session H R empty_root src us) (\<lambda>(root, src). trie_sessions H R empty_root root src bs)"

definition update_map :: "trie_update list \<Rightarrow> (b256 \<rightharpoonup> byte list) \<Rightarrow> b256 \<rightharpoonup> byte list" where
  "update_map us m = fold (\<lambda>(k, v) m. m(k := v)) us m"

definition updates_ok :: "trie_update list \<Rightarrow> bool" where
  "updates_ok us \<longleftrightarrow> (\<forall>(k, v) \<in> set us. \<forall>x. v = Some x \<longrightarrow> x \<noteq> [] \<and> length x < 2 ^ 32)"

subsection \<open>Sessions and maps\<close>

definition reps :: "trie option \<Rightarrow> (b256 \<rightharpoonup> byte list) \<Rightarrow> bool" where
  "reps t m \<longleftrightarrow> (\<forall>r v. looko t r = Some v \<longleftrightarrow> (\<exists>k. r = to_nibbles k \<and> m k = Some v))"

text \<open>A store of a map: the nodes of the canonical trie of its keys.\<close>

definition trie_store :: "keccak_fn \<Rightarrow> rlp \<Rightarrow> node_source \<Rightarrow> (b256 \<rightharpoonup> byte list) \<Rightarrow> bool" where
  "trie_store H R src m \<longleftrightarrow> (\<exists>t. holds H R src t \<and> twfo t \<and> reps t m)"

lemma reps_update:
  assumes "reps t m" "\<And>r. looko t' r = (if r = to_nibbles k then v else looko t r)"
  shows "reps t' (m(k := v))"
  using assms by (auto simp: reps_def)

lemma insert_session:
  assumes R: "rlp_ok R" and s: "session H R src d t" and x: "x \<noteq> []" "length x < 2 ^ 32"
  shows "\<exists>d' t'. trie_insert R src k x d = Some (Inr d') \<and> session H R src d' t'
    \<and> (\<forall>r. looko t' r = (if r = to_nibbles k then Some x else looko t r))"
proof (cases t)
  case None
  then have "placed H R src d [] None" using s by (simp add: session_def)
  from insert_absent [OF this, of 65 "to_nibbles k" x]
  have i: "trie_insert R src k x d = Some (Inr (trie_put [] (Leaf (to_nibbles k) x) d))"
      "placed H R src (trie_put [] (Leaf (to_nibbles k) x) d) [] (Some (TLeaf (to_nibbles k) x))"
    by (simp_all add: trie_insert_def KEY_FUEL_def turned_def numeral_eq_Suc)
  have "twf 64 (TLeaf (to_nibbles k) x)" using x by (intro twf_leaf) auto
  then have "session H R src (trie_put [] (Leaf (to_nibbles k) x) d) (Some (TLeaf (to_nibbles k) x))"
    using i(2) s by (simp add: session_def twfo_def)
  then show ?thesis using i(1) None by (intro exI conjI) auto
next
  case (Some u)
  have w: "twf 64 u" and p: "placed H R src d [] (Some u)" and wf: "bt_wf d" using s Some by (simp_all add: session_def twfo_def)
  obtain d' where d': "trie_insert R src k x d = Some (Inr d')" "turned H R src d [] d' (Some (tins u (to_nibbles k) x))"
    using insert_loop_turned [OF R w p, of "to_nibbles k" KEY_FUEL x] by (auto simp: trie_insert_def KEY_FUEL_def)
  have "session H R src d' (Some (tins u (to_nibbles k) x))"
    using d' insert_loop_wf [of KEY_FUEL R src "[]" "to_nibbles k" x d d'] wf twf_tins [OF w, of "to_nibbles k" x] x
    by (simp add: session_def turned_def twfo_def trie_insert_def)
  then show ?thesis using d'(1) look_tins [OF w, of "to_nibbles k" x] Some by (intro exI conjI) auto
qed

lemma remove_session:
  assumes R: "rlp_ok R" and s: "session H R src d t"
  shows "\<exists>d' t'. remove_key R src k d = Some (Inr d') \<and> session H R src d' t'
    \<and> (\<forall>r. looko t' r = (if r = to_nibbles k then None else looko t r))"
proof (cases t)
  case None
  then have "trie_get R src d [] = Inr None" using s get_absent by (simp add: session_def)
  then have "remove_key R src k d = Some (Inr d)" by (simp add: remove_key_def KEY_FUEL_def numeral_eq_Suc)
  then show ?thesis using s None by auto
next
  case (Some u)
  have w: "twf 64 u" and p: "placed H R src d [] (Some u)" and wf: "bt_wf d" using s Some by (simp_all add: session_def twfo_def)
  note walk = remove_walked [OF R w p, of "to_nibbles k" KEY_FUEL "[]"]
  show ?thesis
  proof (cases "look u (to_nibbles k)")
    case None
    then have "remove_key R src k d = Some (Inr d)" using walk by (simp add: remove_key_def KEY_FUEL_def)
    then show ?thesis using s None Some by auto
  next
    case (Some x)
    then obtain visited where v: "remove_walk KEY_FUEL R src d [] (to_nibbles k) [] = Some (Inr (Some visited))"
        "walked H R src d [] (trem u (to_nibbles k)) visited []" using walk by (auto simp: KEY_FUEL_def)
    then obtain lp ln st repl d' where st: "visited = (lp, ln) # st" "settled H R src d [] (trem u (to_nibbles k)) repl d'"
        "\<And>stack. repair R src (st @ stack) lp None (trie_del lp d) = repair R src stack [] repl d'"
      by (auto simp: walked_def)
    have rep: "repair R src st lp None (trie_del lp d) = Some (Inr d')" using st(3) [of "[]"] by simp
    have "session H R src d' (trem u (to_nibbles k))"
      using st(2) repair_wf [OF rep] wf trem_props [OF w, of "to_nibbles k"]
      by (auto simp: session_def settled_def turned_def twfo_def)
    moreover have "remove_key R src k d = Some (Inr d')" using v(1) st(1) rep by (simp add: remove_key_def)
    ultimately show ?thesis using trem_props [OF w, of "to_nibbles k"] \<open>t = Some u\<close> by (intro exI conjI) auto
  qed
qed

lemma updates_session:
  assumes R: "rlp_ok R"
  shows "session H R src d t \<Longrightarrow> reps t m \<Longrightarrow> updates_ok us \<Longrightarrow>
    \<exists>d' t'. trie_updates R src us d = Some (Inr d') \<and> session H R src d' t' \<and> reps t' (update_map us m)"
proof (induction us arbitrary: d t m)
  case (Cons e us)
  obtain k v where e: "e = (k, v)" by fastforce
  have us: "updates_ok us" using Cons.prems(3) by (simp add: updates_ok_def)
  have "\<exists>d1 t1. (case v of Some v \<Rightarrow> trie_insert R src k v d | None \<Rightarrow> remove_key R src k d) = Some (Inr d1)
      \<and> session H R src d1 t1 \<and> (\<forall>r. looko t1 r = (if r = to_nibbles k then v else looko t r))"
  proof (cases v)
    case None
    show ?thesis unfolding None option.case by (rule remove_session [OF R Cons.prems(1)])
  next
    case (Some x)
    then have "x \<noteq> []" "length x < 2 ^ 32" using Cons.prems(3) e by (auto simp: updates_ok_def)
    then show ?thesis unfolding Some option.case by (rule insert_session [OF R Cons.prems(1)])
  qed
  then obtain d1 t1 where 1: "(case v of Some v \<Rightarrow> trie_insert R src k v d | None \<Rightarrow> remove_key R src k d) = Some (Inr d1)"
      "session H R src d1 t1" "\<And>r. looko t1 r = (if r = to_nibbles k then v else looko t r)" by blast
  have um: "update_map (e # us) m = update_map us (m(k := v))" by (simp add: update_map_def e)
  have r: "reps t1 (m(k := v))" by (rule reps_update [OF Cons.prems(2) 1(3)])
  show ?case unfolding um unfolding e trie_updates.simps 1(1) try_bind_simps by (rule Cons.IH [OF 1(2) r us])
qed (auto simp: update_map_def)

lemma session_store:
  assumes R: "rlp_ok R" and t: "holds H R src t" "twfo t" "reps t m" and us: "updates_ok us"
  shows "\<exists>src' t'. trie_session H R empty_root src us = Some (Inr (root_of H R empty_root t', src'))
    \<and> holds H R src' t' \<and> twfo t' \<and> reps t' (update_map us m)"
proof -
  obtain d t' where d: "trie_updates R src us [] = Some (Inr d)" "session H R src d t'" "reps t' (update_map us m)"
    using updates_session [OF R holds_session [OF t(1,2)] t(3) us] by blast
  obtain w where w: "trie_commit H R empty_root src d = Some (Inr (root_of H R empty_root t', w))" "holds H R (apply_writes w src) t'"
    using commit_ok [OF R d(2)] by blast
  have "trie_session H R empty_root src us = Some (Inr (root_of H R empty_root t', apply_writes w src))"
    unfolding trie_session_def d(1) try_bind_simps w(1) prod.case ..
  moreover have "twfo t'" using d(2) by (simp add: session_def)
  ultimately show ?thesis using w(2) d(3) by (intro exI [of _ "apply_writes w src"] exI [of _ t'] conjI)
qed

lemma reps_unique:
  assumes w: "twfo t" "twfo t'" and m: "reps t m" "reps t' m" shows "t = t'"
proof -
  have v: "looko t r = Some v \<longleftrightarrow> looko t' r = Some v" for r v using m by (simp add: reps_def)
  have l: "looko t r = looko t' r" for r
  proof (cases "looko t r")
    case None
    then show ?thesis using v [of r "the (looko t' r)"] by (cases "looko t' r") simp_all
  next
    case (Some x)
    then show ?thesis using v [of r x] by simp
  qed
  have key: "\<exists>r. looko u r \<noteq> None" if "twfo u" "u \<noteq> None" for u
    using that twf_has_key [of 64 "the u"] by (auto simp: twfo_def) blast
  show ?thesis
  proof (cases t)
    case None
    then show ?thesis using key [OF w(2)] l by (cases t') auto
  next
    case (Some u)
    then obtain u' where "t' = Some u'" using key [OF w(1)] l by (cases t') auto
    then show ?thesis using trie_ext [of 64 u u'] l Some w by (simp add: twfo_def)
  qed
qed

lemma sessions_store:
  assumes R: "rlp_ok R"
  shows "holds H R src t \<Longrightarrow> twfo t \<Longrightarrow> reps t m \<Longrightarrow> root = root_of H R empty_root t \<Longrightarrow> \<forall>us \<in> set bs. updates_ok us \<Longrightarrow>
    \<exists>src' t'. trie_sessions H R empty_root root src bs = Some (Inr (root_of H R empty_root t', src'))
      \<and> holds H R src' t' \<and> twfo t' \<and> reps t' (update_map (concat bs) m)"
proof (induction bs arbitrary: src t m root)
  case Nil
  then show ?case by (auto simp: update_map_def)
next
  case (Cons us bs)
  obtain src1 t1 where 1: "trie_session H R empty_root src us = Some (Inr (root_of H R empty_root t1, src1))"
      "holds H R src1 t1" "twfo t1" "reps t1 (update_map us m)"
    using session_store [OF R Cons.prems(1-3), of us empty_root] Cons.prems(5) by auto
  have "update_map (concat (us # bs)) m = update_map (concat bs) (update_map us m)" by (simp add: update_map_def)
  then show ?case using Cons.IH [OF 1(2-4) refl] Cons.prems(5) 1(1) by simp
qed

lemma empty_store: "holds H R (\<lambda>_. None) None" "twfo None" "reps None Map.empty"
  by (simp_all add: holds_def twfo_def reps_def)

subsection \<open>Merkle proofs\<close>

fun proof_loop :: "nat \<Rightarrow> rlp \<Rightarrow> node_source \<Rightarrow> path \<Rightarrow> path \<Rightarrow> byte list list \<Rightarrow> (trie_error + byte list list) option" where
  "proof_loop 0 R src path rest out = None"
| "proof_loop (Suc f) R src path rest out =
     (case src path of
        None \<Rightarrow> Some (Inr out)
      | Some rlp \<Rightarrow>
         (case decode_node R rlp of
            None \<Rightarrow> Some (Inl (CorruptNode path))
          | Some node \<Rightarrow>
             (let out = (if path = [] \<or> length rlp \<ge> 32 then out @ [rlp] else out) in
              case node of
                Leaf _ _ \<Rightarrow> Some (Inr out)
              | Ext key _ \<Rightarrow>
                  if \<not> prefix key rest then Some (Inr out)
                  else proof_loop f R src (path @ key) (drop (length key) rest) out
              | Branch children \<Rightarrow>
                 (case rest of
                    [] \<Rightarrow> Some (Inr out)
                  | nib # rest \<Rightarrow>
                      if unat nib < length children then
                        if children ! unat nib = None then Some (Inr out)
                        else proof_loop f R src (path @ [nib]) rest out
                      else None))))"

definition trie_proof :: "rlp \<Rightarrow> node_source \<Rightarrow> b256 \<Rightarrow> (trie_error + byte list list) option" where
  "trie_proof R src key = proof_loop KEY_FUEL R src [] (to_nibbles key) []"

text \<open>
  What a holder of the root reads from a proof: every node shorter than 32 bytes is found inside its
  parent, every other one comes next in the proof and has the hash its parent names. \<open>None\<close> is a proof
  that does not check, \<open>Some None\<close> an absent key.
\<close>

fun proof_read :: "nat \<Rightarrow> keccak_fn \<Rightarrow> rlp \<Rightarrow> byte list \<Rightarrow> path \<Rightarrow> byte list list \<Rightarrow> byte list option option" where
  "proof_read 0 H R rlp rest ps = None"
| "proof_read (Suc f) H R rlp rest ps =
     (let follow = (\<lambda>r rest. if length r < 32 then proof_read f H R r rest ps
                      else case ps of [] \<Rightarrow> None | p # ps \<Rightarrow> if be256 (H p) = r then proof_read f H R p rest ps else None);
          stop = (\<lambda>v. if ps = [] then Some v else None)
      in case decode_node R rlp of
           None \<Rightarrow> None
         | Some (Leaf key v) \<Rightarrow> stop (if key = rest then Some v else None)
         | Some (Ext key c) \<Rightarrow> if prefix key rest then Option.bind c (\<lambda>r. follow r (drop (length key) rest)) else stop None
         | Some (Branch children) \<Rightarrow>
            (case rest of
               [] \<Rightarrow> stop None
             | i # rest \<Rightarrow>
                (case children ! unat i of
                   None \<Rightarrow> stop None
                 | Some c \<Rightarrow> Option.bind c (\<lambda>r. follow r rest))))"

definition proof_value :: "keccak_fn \<Rightarrow> rlp \<Rightarrow> b256 \<Rightarrow> b256 \<Rightarrow> b256 \<Rightarrow> byte list list \<Rightarrow> byte list option option" where
  "proof_value H R empty_root root key ps =
     (case ps of
        [] \<Rightarrow> if root = empty_root then Some None else None
      | p # ps \<Rightarrow> if H p = root then proof_read KEY_FUEL H R p (to_nibbles key) ps else None)"

text \<open>The elements a proof adds for the trie at \<open>p\<close>.\<close>

definition own :: "path \<Rightarrow> byte list \<Rightarrow> byte list list" where
  "own p rlp = (if p = [] \<or> length rlp \<ge> 32 then [rlp] else [])"

definition follow :: "nat \<Rightarrow> keccak_fn \<Rightarrow> rlp \<Rightarrow> byte list \<Rightarrow> path \<Rightarrow> byte list list \<Rightarrow> byte list option option" where
  "follow f H R r rest ps =
     (if length r < 32 then proof_read f H R r rest ps
      else case ps of [] \<Rightarrow> None | p # ps \<Rightarrow> if be256 (H p) = r then proof_read f H R p rest ps else None)"

lemma follow_own: "p \<noteq> [] \<Longrightarrow> follow f H R (mk_child_ref H rlp) rest (own p rlp @ ps) = proof_read f H R rlp rest ps"
  by (auto simp: follow_def own_def mk_child_ref_def)

lemma proof_loop_ok:
  assumes R: "rlp_ok R"
  shows "twf n t \<Longrightarrow> (\<And>q u. sub p t q u \<Longrightarrow> src q = Some (tenc H R u)) \<Longrightarrow> length r = n \<Longrightarrow> nibs r \<Longrightarrow> n < f \<Longrightarrow>
    \<exists>ps. proof_loop f R src p r out = Some (Inr (out @ own p (tenc H R t) @ ps)) \<and> proof_read f H R (tenc H R t) r ps = Some (look t r)"
proof (induction arbitrary: p r f out rule: twf.induct)
  case (twf_leaf k n v)
  obtain g where f: "f = Suc g" using twf_leaf.prems by (cases f) auto
  have dec: "decode_node R (tenc H R (TLeaf k v)) = Some (Leaf k v)"
    using twf_decode [OF R R twf.twf_leaf [OF twf_leaf.hyps]] by simp
  have "src p = Some (tenc H R (TLeaf k v))" by (rule twf_leaf.prems(1) [OF sub_here])
  then show ?case unfolding f using dec by (intro exI [of _ "[]"]) (simp add: own_def del: tenc.simps)
next
  case (twf_ext k m cs n)
  obtain g where f: "f = Suc g" "m < g" using twf_ext.prems twf_ext.hyps by (cases f; cases k) auto
  have dec: "decode_node R (tenc H R (TExt k (TBranch cs))) = Some (Ext k (Some (mk_child_ref H (tenc H R (TBranch cs)))))"
    using twf_decode [OF R R twf.twf_ext [OF twf_ext.hyps]] by simp
  have src: "src p = Some (tenc H R (TExt k (TBranch cs)))" by (rule twf_ext.prems(1) [OF sub_here])
  show ?case
  proof (cases "prefix k r")
    case True
    then obtain r2 where r: "r = k @ r2" by (auto simp: prefix_def)
    have r2: "length r2 = m" "nibs r2" using twf_ext.prems twf_ext.hyps r by auto
    have s: "src q = Some (tenc H R u)" if "sub (p @ k) (TBranch cs) q u" for q u
      by (rule twf_ext.prems(1)) (rule sub_ext [OF that])
    obtain ps where ps: "proof_loop g R src (p @ k) r2 (out @ own p (tenc H R (TExt k (TBranch cs))))
          = Some (Inr ((out @ own p (tenc H R (TExt k (TBranch cs)))) @ own (p @ k) (tenc H R (TBranch cs)) @ ps))"
        "proof_read g H R (tenc H R (TBranch cs)) r2 ps = Some (look (TBranch cs) r2)"
      using twf_ext.IH [OF s r2 f(2)] by blast
    have "follow g H R (mk_child_ref H (tenc H R (TBranch cs))) r2 (own (p @ k) (tenc H R (TBranch cs)) @ ps) = Some (look (TBranch cs) r2)"
      using follow_own [of "p @ k"] twf_ext.hyps(1) ps(2) by simp
    moreover have "proof_read (Suc g) H R (tenc H R (TExt k (TBranch cs))) r qs = follow g H R (mk_child_ref H (tenc H R (TBranch cs))) r2 qs" for qs
      using dec r by (simp add: Let_def follow_def del: tenc.simps)
    moreover have "proof_loop (Suc g) R src p r out = proof_loop g R src (p @ k) r2 (out @ own p (tenc H R (TExt k (TBranch cs))))"
      using dec src r by (simp add: own_def Let_def del: tenc.simps)
    ultimately show ?thesis unfolding f using ps(1) r
      by (intro exI [of _ "own (p @ k) (tenc H R (TBranch cs)) @ ps"]) (simp del: tenc.simps look.simps(3) proof_read.simps proof_loop.simps)
  next
    case False
    then show ?thesis unfolding f using dec src by (intro exI [of _ "[]"]) (simp add: own_def del: tenc.simps)
  qed
next
  case (twf_branch cs i j m n)
  obtain g where f: "f = Suc g" "m < g" using twf_branch.prems twf_branch.hyps by (cases f) auto
  obtain y r2 where r: "r = y # r2" "unat y < 16" "length r2 = m" "nibs r2"
    using twf_branch.prems twf_branch.hyps by (cases r) (auto simp: nib_unat)
  have b: "twf n (TBranch cs)" by (rule twf.twf_branch [OF twf_branch.hyps(1-6)]) (use twf_branch.hyps in auto)
  have dec: "decode_node R (tenc H R (TBranch cs)) = Some (Branch (map (map_option (\<lambda>t. Some (mk_child_ref H (tenc H R t)))) cs))"
    using twf_decode [OF R R b] by simp
  have src: "src p = Some (tenc H R (TBranch cs))" by (rule twf_branch.prems(1) [OF sub_here])
  show ?case
  proof (cases "cs ! unat y")
    case None
    then show ?thesis unfolding f using dec src r twf_branch.hyps(1)
      by (intro exI [of _ "[]"]) (simp add: own_def Let_def del: tenc.simps)
  next
    case (Some t)
    have mem: "Some t \<in> set cs" using Some r twf_branch.hyps(1) by (metis nth_mem)
    have s: "src q = Some (tenc H R u)" if "sub (p @ [y]) t q u" for q u
      by (rule twf_branch.prems(1), rule sub_kid [of "unat y"]) (use that Some r twf_branch.hyps(1) in auto)
    obtain ps where ps: "proof_loop g R src (p @ [y]) r2 (out @ own p (tenc H R (TBranch cs)))
          = Some (Inr ((out @ own p (tenc H R (TBranch cs))) @ own (p @ [y]) (tenc H R t) @ ps))"
        "proof_read g H R (tenc H R t) r2 ps = Some (look t r2)"
      using twf_branch.IH [OF mem s r(3,4) f(2)] by blast
    have "follow g H R (mk_child_ref H (tenc H R t)) r2 (own (p @ [y]) (tenc H R t) @ ps) = Some (look t r2)"
      using follow_own [of "p @ [y]"] ps(2) by simp
    moreover have "proof_read (Suc g) H R (tenc H R (TBranch cs)) r qs = follow g H R (mk_child_ref H (tenc H R t)) r2 qs" for qs
      using dec r Some twf_branch.hyps(1) by (simp add: Let_def follow_def del: tenc.simps)
    moreover have "proof_loop (Suc g) R src p r out = proof_loop g R src (p @ [y]) r2 (out @ own p (tenc H R (TBranch cs)))"
      using dec src r Some twf_branch.hyps(1) by (simp add: own_def Let_def del: tenc.simps)
    ultimately show ?thesis unfolding f using ps(1) r Some twf_branch.hyps(1)
      by (intro exI [of _ "own (p @ [y]) (tenc H R t) @ ps"]) (simp del: tenc.simps proof_read.simps proof_loop.simps)
  qed
qed

lemma proof_store:
  assumes R: "rlp_ok R" and t: "holds H R src t" "twfo t" "reps t m"
  shows "\<exists>ps. trie_proof R src key = Some (Inr ps) \<and> proof_value H R empty_root (root_of H R empty_root t) key ps = Some (m key)"
proof -
  have v: "looko t (to_nibbles key) = m key" using t(3) unfolding reps_def by (metis not_Some_eq to_nibbles_ok(3))
  show ?thesis
  proof (cases t)
    case None
    then have "src [] = None" using t(1) by (auto simp: holds_def)
    then have "trie_proof R src key = Some (Inr [])" by (simp add: trie_proof_def KEY_FUEL_def numeral_eq_Suc)
    then show ?thesis using None v by (simp add: proof_value_def root_of_def)
  next
    case (Some u)
    then have s: "src q = Some (tenc H R w)" if "sub [] u q w" for q w using t(1) that by (auto simp: holds_def)
    have "twf 64 u" using t(2) Some by (simp add: twfo_def)
    then have "\<exists>ps. proof_loop KEY_FUEL R src [] (to_nibbles key) [] = Some (Inr ([] @ own [] (tenc H R u) @ ps))
        \<and> proof_read KEY_FUEL H R (tenc H R u) (to_nibbles key) ps = Some (look u (to_nibbles key))"
      by (rule proof_loop_ok [OF R]) (use s in \<open>auto simp: KEY_FUEL_def\<close>)
    then obtain ps where "trie_proof R src key = Some (Inr (tenc H R u # ps))"
        "proof_read KEY_FUEL H R (tenc H R u) (to_nibbles key) ps = Some (look u (to_nibbles key))"
      by (auto simp: trie_proof_def own_def)
    then show ?thesis using Some v by (simp add: proof_value_def root_of_def)
  qed
qed

subsection \<open>An RLP header codec\<close>

text \<open>
  The header format of RLP, short and long form: an instance of what the trie relies on, at which the
  properties below are applied.
\<close>

definition rlp_len :: "nat \<Rightarrow> byte list" where "rlp_len n = dropWhile (\<lambda>b. b = 0) (nat_be 8 n)"

definition rlp_head :: "bool \<Rightarrow> nat \<Rightarrow> byte list" where
  "rlp_head l n =
     (let base = (if l then 0xc0 else 0x80) in
      if n < 56 then [of_nat (base + n)] else of_nat (base + 55 + length (rlp_len n)) # rlp_len n)"

definition rlp_str_enc :: "byte list \<Rightarrow> byte list" where
  "rlp_str_enc s = (case s of [b] \<Rightarrow> if b < 0x80 then [b] else rlp_head False 1 @ s | _ \<Rightarrow> rlp_head False (length s) @ s)"

definition rlp_dec :: "byte list \<Rightarrow> (bool \<times> nat \<times> byte list) option" where
  "rlp_dec buf =
     (case buf of
        [] \<Rightarrow> None
      | b # r \<Rightarrow>
         (let n = unat b; long = (\<lambda>l k. if length r < k then None else Some (l, be_nat (take k r), drop k r)) in
          if n < 0x80 then Some (False, 1, buf)
          else if n < 0xb8 then Some (False, n - 0x80, r)
          else if n < 0xc0 then long False (n - 0xb7)
          else if n < 0xf8 then Some (True, n - 0xc0, r)
          else long True (n - 0xf7)))"

definition demo_rlp :: rlp where
  "demo_rlp = \<lparr>rlp_header = rlp_head, rlp_string = rlp_str_enc, rlp_decode = rlp_dec\<rparr>"

lemma be_nat_dropWhile: "be_nat (dropWhile (\<lambda>b. b = 0) bs) = be_nat bs"
  by (induction bs) (simp_all add: be_nat_def)

lemma rlp_len_ok:
  assumes "0 < n" "n < 2 ^ 40" shows "be_nat (rlp_len n) = n" "0 < length (rlp_len n)" "length (rlp_len n) \<le> 8"
proof -
  show b: "be_nat (rlp_len n) = n" using assms by (simp add: rlp_len_def be_nat_dropWhile be_nat_nat_be)
  then show "0 < length (rlp_len n)" using assms(1) by (cases "rlp_len n") (auto simp: be_nat_def)
  show "length (rlp_len n) \<le> 8" unfolding rlp_len_def using length_dropWhile_le [of "\<lambda>b. b = 0" "nat_be 8 n"] by simp
qed

lemma rlp_dec_head:
  assumes "n < 2 ^ 40" shows "rlp_dec (rlp_head l n @ rest) = Some (l, n, rest)"
proof (cases "n < 56")
  case True
  define k where "k = (if l then 0xc0 else 0x80) + n"
  have "unat (of_nat k :: byte) = k" by (rule unat_of_nat_less) (use True in \<open>simp add: k_def\<close>)
  then have "rlp_dec (of_nat k # rest) = Some (l, n, rest)" using True by (simp add: rlp_dec_def) (simp add: k_def)
  then show ?thesis using True by (simp add: rlp_head_def k_def)
next
  case False
  define k where "k = (if l then 0xc0 else 0x80) + 55 + length (rlp_len n)"
  have len: "be_nat (rlp_len n) = n" "0 < length (rlp_len n)" "length (rlp_len n) \<le> 8" using rlp_len_ok [of n] assms False by auto
  have "unat (of_nat k :: byte) = k" by (rule unat_of_nat_less) (use len in \<open>simp add: k_def\<close>)
  then have "rlp_dec (of_nat k # rlp_len n @ rest) = Some (l, n, rest)" using len by (simp add: rlp_dec_def) (simp add: k_def)
  then show ?thesis using False by (simp add: rlp_head_def k_def)
qed

lemma rlp_dec_str:
  assumes "length s < 2 ^ 40" shows "rlp_dec (rlp_str_enc s @ rest) = Some (False, length s, s @ rest)"
proof (cases "\<exists>b. s = [b] \<and> b < 0x80")
  case True
  then show ?thesis by (auto simp: rlp_str_enc_def rlp_dec_def word_less_nat_alt)
next
  case False
  then have "rlp_str_enc s = rlp_head False (length s) @ s" by (auto simp: rlp_str_enc_def split: list.splits)
  then show ?thesis using rlp_dec_head [OF assms, of False "s @ rest"] by simp
qed

lemma rlp_str_len:
  assumes "length s < 2 ^ 40" shows "length s \<le> length (rlp_str_enc s)" "length (rlp_str_enc s) \<le> length s + 9"
proof -
  have "length (rlp_head False n) \<le> 9" if "n < 2 ^ 40" for n
    using rlp_len_ok(3) [of n] that by (cases "n = 0") (simp_all add: rlp_head_def Let_def)
  from this [OF assms] this [of 1] show "length s \<le> length (rlp_str_enc s)" "length (rlp_str_enc s) \<le> length s + 9"
    by (auto simp: rlp_str_enc_def split: list.splits)
qed

lemma demo_rlp_ok: "rlp_ok demo_rlp"
proof -
  have "rlp_str_enc [] = [EMPTY_STRING_CODE]" by (simp add: rlp_str_enc_def rlp_head_def Let_def EMPTY_STRING_CODE_def)
  then show ?thesis unfolding rlp_ok_def demo_rlp_def rlp.simps
    by (intro conjI allI impI) (simp_all add: rlp_dec_head rlp_dec_str rlp_str_len)
qed

definition demo_keccak :: keccak_fn where "demo_keccak b = of_nat (be_nat b mod 2 ^ 256)"

subsection \<open>Properties of the trie\<close>

text \<open>
  C29. The roots and stores of the trie do not depend on history. Starting from nothing, any sequence of
  sessions succeeds, and two sequences whose updates give the same map, one of them perhaps a single
  session with the final entries, return the same root and leave the same nodes under the same paths.
\<close>

theorem trie_incremental_equals_rebuild:
  assumes "rlp_ok R" "\<forall>us \<in> set bs. updates_ok us" "\<forall>us \<in> set cs. updates_ok us"
    and "update_map (concat bs) Map.empty = update_map (concat cs) Map.empty"
  shows "\<exists>root src. trie_sessions H R empty_root empty_root (\<lambda>_. None) bs = Some (Inr (root, src))
    \<and> trie_sessions H R empty_root empty_root (\<lambda>_. None) cs = Some (Inr (root, src))"
proof -
  have r: "empty_root = root_of H R empty_root None" by (simp add: root_of_def)
  obtain s t where 1: "trie_sessions H R empty_root empty_root (\<lambda>_. None) bs = Some (Inr (root_of H R empty_root t, s))"
      "holds H R s t" "twfo t" "reps t (update_map (concat bs) Map.empty)"
    using sessions_store [OF assms(1) empty_store r assms(2)] by blast
  obtain s' t' where 2: "trie_sessions H R empty_root empty_root (\<lambda>_. None) cs = Some (Inr (root_of H R empty_root t', s'))"
      "holds H R s' t'" "twfo t'" "reps t' (update_map (concat cs) Map.empty)"
    using sessions_store [OF assms(1) empty_store r assms(3)] by blast
  have "t = t'" using reps_unique [OF 1(3) 2(3) 1(4)] 2(4) assms(4) by simp
  moreover from this have "s = s'" using holds_unique 1(2) 2(2) by blast
  ultimately show ?thesis using 1(1) 2(1) by blast
qed

theorem trie_incremental_equals_rebuild_witness:
  "\<exists>root src. trie_sessions demo_keccak demo_rlp 7 7 (\<lambda>_. None) [[(1, Some [5]), (2, Some [6])], [(1, None), (3, Some [8])]] = Some (Inr (root, src))
    \<and> trie_sessions demo_keccak demo_rlp 7 7 (\<lambda>_. None) [[(3, Some [8]), (2, Some [6])]] = Some (Inr (root, src))"
  by (rule trie_incremental_equals_rebuild [OF demo_rlp_ok]) (auto simp: updates_ok_def update_map_def)

text \<open>
  C30. A session on a store of a map succeeds, returns a root and leaves a store of the updated map:
  insertions and removals act on the stored nodes as updates of the map.
\<close>

theorem trie_session_refines:
  assumes "rlp_ok R" "trie_store H R src m" "updates_ok us"
  shows "\<exists>root src'. trie_session H R empty_root src us = Some (Inr (root, src')) \<and> trie_store H R src' (update_map us m)"
  using assms session_store [OF assms(1), of H src _ m us empty_root] unfolding trie_store_def by metis

theorem trie_session_refines_witness:
  "\<exists>root src'. trie_session demo_keccak demo_rlp 7 (\<lambda>_. None) [(4, Some [9]), (4, None), (5, Some [1])] = Some (Inr (root, src'))
    \<and> trie_store demo_keccak demo_rlp src' (update_map [(4, Some [9]), (4, None), (5, Some [1])] Map.empty)"
  by (rule trie_session_refines [OF demo_rlp_ok]) (use empty_store in \<open>auto simp: trie_store_def updates_ok_def\<close>)

text \<open>
  C31. The proof of a key, taken from the store a session leaves, checks against the root the session
  returns and shows what the updated map holds for the key: its value, or that it is absent.
\<close>

theorem trie_proof_shows_value:
  assumes "rlp_ok R" "trie_store H R src m" "updates_ok us" "trie_session H R empty_root src us = Some (Inr (root, src'))"
  shows "\<exists>ps. trie_proof R src' key = Some (Inr ps) \<and> proof_value H R empty_root root key ps = Some (update_map us m key)"
proof -
  obtain t0 where t0: "holds H R src t0" "twfo t0" "reps t0 m" using assms(2) by (auto simp: trie_store_def)
  obtain t where t: "root = root_of H R empty_root t" "holds H R src' t" "twfo t" "reps t (update_map us m)"
    using session_store [OF assms(1) t0 assms(3), of empty_root] assms(4) by auto
  show ?thesis unfolding t(1) by (rule proof_store [OF assms(1) t(2,3,4)])
qed

theorem trie_proof_shows_value_witness:
  "\<exists>root src' ps. trie_session demo_keccak demo_rlp 7 (\<lambda>_. None) [(1, Some [5]), (2, Some [6])] = Some (Inr (root, src'))
    \<and> trie_proof demo_rlp src' 2 = Some (Inr ps) \<and> proof_value demo_keccak demo_rlp 7 root 2 ps = Some (Some [6])"
proof -
  have u: "updates_ok [(1, Some [5]), (2, Some [6])]" and s: "trie_store demo_keccak demo_rlp (\<lambda>_. None) Map.empty"
    using empty_store by (auto simp: updates_ok_def trie_store_def)
  obtain root src' where r: "trie_session demo_keccak demo_rlp 7 (\<lambda>_. None) [(1, Some [5]), (2, Some [6])] = Some (Inr (root, src'))"
    using session_store [OF demo_rlp_ok empty_store u] by blast
  from trie_proof_shows_value [OF demo_rlp_ok s u r, of 2] show ?thesis using r by (auto simp: update_map_def)
qed

text \<open>
  C32. The loops of the trie end. On a store of a map, after any updates of a session, the walk of an
  insertion and the walk of a removal visit at most 65 nodes: whatever larger bound on the number of
  turns is given, both return, and without an error.
\<close>

theorem trie_walks_end:
  assumes "rlp_ok R" "trie_store H R src m" "updates_ok us" "x \<noteq> []" "length x < 2 ^ 32" "64 < f"
  shows "\<exists>d d' r. trie_updates R src us [] = Some (Inr d) \<and> insert_loop f R src [] (to_nibbles key) x d = Some (Inr d')
    \<and> remove_walk f R src d [] (to_nibbles key) [] = Some (Inr r)"
proof -
  obtain t0 where t0: "holds H R src t0" "twfo t0" "reps t0 m" using assms(2) by (auto simp: trie_store_def)
  obtain d t where d: "trie_updates R src us [] = Some (Inr d)" "session H R src d t"
    using updates_session [OF assms(1) holds_session [OF t0(1,2)] t0(3) assms(3)] by blast
  show ?thesis
  proof (cases t)
    case None
    then have p: "placed H R src d [] None" using d(2) by (simp add: session_def)
    obtain g where f: "f = Suc g" using assms(6) by (cases f) auto
    have "trie_get R src d [] = Inr None" using p get_absent by simp
    then show ?thesis using insert_absent [OF p, of g "to_nibbles key" x] d(1) f by auto
  next
    case (Some u)
    then have w: "twf 64 u" "placed H R src d [] (Some u)" using d(2) by (simp_all add: session_def twfo_def)
    obtain d' where "insert_loop f R src [] (to_nibbles key) x d = Some (Inr d')"
      using insert_loop_turned [OF assms(1) w, of "to_nibbles key" f x] assms(6) by auto
    moreover obtain r where "remove_walk f R src d [] (to_nibbles key) [] = Some (Inr r)"
      using remove_walked [OF assms(1) w, of "to_nibbles key" f "[]"] assms(6) by (auto split: option.splits)
    ultimately show ?thesis using d(1) by blast
  qed
qed

theorem trie_walks_end_witness:
  "\<exists>d d' r. trie_updates demo_rlp (\<lambda>_. None) [(1, Some [5])] [] = Some (Inr d)
    \<and> insert_loop 65 demo_rlp (\<lambda>_. None) [] (to_nibbles 3) [1] d = Some (Inr d')
    \<and> remove_walk 65 demo_rlp (\<lambda>_. None) d [] (to_nibbles 3) [] = Some (Inr r)"
  by (rule trie_walks_end [OF demo_rlp_ok, of demo_keccak "\<lambda>_. None" Map.empty])
    (use empty_store in \<open>auto simp: trie_store_def updates_ok_def\<close>)

text \<open>
  C33. Decoding an encoded node gives the node back, for every node a commit may encode: nibbles below
  16, at most 64 of them, values below \<open>2 ^ 32\<close> bytes, and child references that are resolved, either 32
  bytes (a hash) or an RLP list of less than 32 bytes (a node stored inline). Of the RLP crate only
  \<open>rlp_ok\<close> is assumed, that a header in front of its payload decodes to it.
\<close>

theorem node_codec_roundtrip:
  assumes "rlp_ok R" "node_ok R n"
  shows "\<exists>b. encode_node R n = Some b \<and> decode_node R b = Some n"
  using node_roundtrip [OF assms] by blast

theorem node_codec_roundtrip_witness:
  "\<exists>b. encode_node demo_rlp (Ext [4, 5] (Some (be256 9))) = Some b \<and> decode_node demo_rlp b = Some (Ext [4, 5] (Some (be256 9)))"
  by (rule node_codec_roundtrip [OF demo_rlp_ok]) (simp add: node_ok_def ref_ok_hash)

end
