(* ===== verification/Flat_State.thy ===== *)
theory Flat_State
  imports Trie_Store "HOL-Library.Product_Lexorder"
begin

text \<open>
  The world state in the store (\<^verbatim>\<open>crates/store/src/state.rs\<close>, the state tables of
  \<^verbatim>\<open>crates/store/src/db.rs\<close>): flat accounts and storage, the account trie, one storage trie per
  account, and the history by which recent blocks are undone and past states are read.

  Table keys of fixed-width parts are tuples of those parts; account and history values are the bytes
  of the code. A transaction that fails is dropped, so errors carry no tables. \<open>None\<close> is a panic.

  The record \<open>codec\<close> holds what other crates provide: keccak, the RLP headers, the root of an empty trie,
  the RLP of a slot value and of an account, and which bytes revm accepts as bytecode. Executing a block is outside; its state changes and
  their reverts are arguments.
\<close>

subsection \<open>Tables\<close>

record codec =
  cd_keccak :: keccak_fn
  cd_rlp :: rlp
  cd_empty_root :: b256
  cd_u256 :: "u256 \<Rightarrow> byte list"
  cd_account :: "u64 \<Rightarrow> u256 \<Rightarrow> b256 \<Rightarrow> b256 \<Rightarrow> byte list"
  cd_bytecode_ok :: "byte list \<Rightarrow> bool"

record account =
  acc_nonce :: u64
  acc_balance :: u256
  acc_code_hash :: b256
  acc_storage_root :: b256

type_synonym info = "u64 \<times> u256 \<times> b256"

datatype hist_key = Acc_Key address | Sto_Key address b256

datatype store_error = Corrupt string | Trie_Error trie_error

text \<open>Keys of the history index are ordered as their bytes: a tag, the address, the slot.\<close>

fun hist_key_tuple :: "hist_key \<Rightarrow> nat \<times> address \<times> b256" where
  "hist_key_tuple (Acc_Key a) = (0, a, 0)"
| "hist_key_tuple (Sto_Key a s) = (1, a, s)"

instantiation hist_key :: linorder
begin

definition less_eq_hist_key :: "hist_key \<Rightarrow> hist_key \<Rightarrow> bool" where
  "less_eq_hist_key x y \<longleftrightarrow> hist_key_tuple x \<le> hist_key_tuple y"

definition less_hist_key :: "hist_key \<Rightarrow> hist_key \<Rightarrow> bool" where
  "less_hist_key x y \<longleftrightarrow> hist_key_tuple x < hist_key_tuple y"

instance
proof
  fix x y z :: hist_key
  have inj: "hist_key_tuple a = hist_key_tuple b \<Longrightarrow> a = b" for a b by (cases a; cases b) simp_all
  show "x < y \<longleftrightarrow> x \<le> y \<and> \<not> y \<le> x" unfolding less_eq_hist_key_def less_hist_key_def by (rule less_le_not_le)
  show "x \<le> x" by (simp add: less_eq_hist_key_def)
  show "x \<le> y \<Longrightarrow> y \<le> z \<Longrightarrow> x \<le> z" unfolding less_eq_hist_key_def by (rule order_trans)
  show "x \<le> y \<Longrightarrow> y \<le> x \<Longrightarrow> x = y" unfolding less_eq_hist_key_def using inj by (metis order_antisym)
  show "x \<le> y \<or> y \<le> x" unfolding less_eq_hist_key_def by (rule linear)
qed

end

record tables =
  t_accounts :: "(address, byte list) btmap"
  t_storage :: "(address \<times> b256, u256) btmap"
  t_codes :: "(b256, byte list) btmap"
  t_trie_acc :: node_source
  t_trie_sto :: "b256 \<Rightarrow> node_source"
  t_acc_hist :: "(address \<times> u64, byte list) btmap"
  t_sto_hist :: "((address \<times> b256) \<times> u64, u256) btmap"
  t_hist_keys :: "(u64 \<times> hist_key, unit) btmap"
  t_head :: "u64 option"
  t_base :: "u64 option"

type_synonym 'a st_res = "(store_error + 'a) option"

definition HISTORY_BLOCKS :: u64 where "HISTORY_BLOCKS = 128"

definition from_trie :: "(trie_error + 'a) option \<Rightarrow> 'a st_res" where
  "from_trie r = map_option (map_sum Trie_Error id) r"

subsection \<open>Value encodings\<close>

definition take_be64 :: "byte list \<Rightarrow> u64" where "take_be64 b = of_nat (be_nat (take 8 b))"
definition take_be256 :: "byte list \<Rightarrow> u256" where "take_be256 b = of_nat (be_nat (take 32 b))"

definition acc_encode :: "account \<Rightarrow> byte list" where
  "acc_encode a = be64 (acc_nonce a) @ be256 (acc_balance a) @ be256 (acc_code_hash a) @ be256 (acc_storage_root a)"

definition acc_decode :: "byte list \<Rightarrow> account option" where
  "acc_decode b =
     (if length b \<noteq> 104 then None
      else Some \<lparr>acc_nonce = take_be64 b, acc_balance = take_be256 (drop 8 b),
        acc_code_hash = take_be256 (drop 40 b), acc_storage_root = take_be256 (drop 72 b)\<rparr>)"

definition encode_hist_info :: "info option \<Rightarrow> byte list" where
  "encode_hist_info i =
     (case i of None \<Rightarrow> [] | Some (nonce, balance, code_hash) \<Rightarrow> be64 nonce @ be256 balance @ be256 code_hash)"

definition decode_hist_info :: "byte list \<Rightarrow> info option option" where
  "decode_hist_info b =
     (if length b = 0 then Some None
      else if length b = 72 then Some (Some (take_be64 b, take_be256 (drop 8 b), take_be256 (drop 40 b)))
      else None)"

definition trie_value :: "codec \<Rightarrow> account \<Rightarrow> byte list" where
  "trie_value v a = cd_account v (acc_nonce a) (acc_balance a) (acc_storage_root a) (acc_code_hash a)"

definition default_account :: "codec \<Rightarrow> account" where
  "default_account v = \<lparr>acc_nonce = 0, acc_balance = 0, acc_code_hash = cd_keccak v [], acc_storage_root = cd_empty_root v\<rparr>"

definition hashed_address :: "codec \<Rightarrow> address \<Rightarrow> b256" where
  "hashed_address v a = cd_keccak v (nat_be 20 (unat a))"

definition hashed_slot :: "codec \<Rightarrow> b256 \<Rightarrow> b256" where
  "hashed_slot v s = cd_keccak v (be256 s)"

subsection \<open>Reading\<close>

definition account_of :: "tables \<Rightarrow> address \<Rightarrow> store_error + account option" where
  "account_of tb a =
     (case bt_get a (t_accounts tb) of
        None \<Rightarrow> Inr None
      | Some b \<Rightarrow> (case acc_decode b of Some acc \<Rightarrow> Inr (Some acc) | None \<Rightarrow> Inl (Corrupt ''accounts'')))"

definition storage_of :: "tables \<Rightarrow> address \<Rightarrow> b256 \<Rightarrow> u256" where
  "storage_of tb a s = (case bt_get (a, s) (t_storage tb) of Some x \<Rightarrow> x | None \<Rightarrow> 0)"

definition base :: "tables \<Rightarrow> u64" where
  "base tb = (case t_base tb of Some n \<Rightarrow> n | None \<Rightarrow> 0)"

definition history_covers :: "tables \<Rightarrow> u64 \<Rightarrow> bool" where
  "history_covers tb number =
     (let head = (case t_head tb of Some n \<Rightarrow> n | None \<Rightarrow> 0)
      in number \<le> head \<and> head - number \<le> HISTORY_BLOCKS \<and> number \<ge> base tb)"

text \<open>The first entry at or after a key, as \<^verbatim>\<open>cursor.set_range\<close> finds it.\<close>

definition set_range :: "'k::linorder \<Rightarrow> ('k, 'v) btmap \<Rightarrow> ('k \<times> 'v) option" where
  "set_range k m = (case dropWhile (\<lambda>(x, _). x < k) m of [] \<Rightarrow> None | e # _ \<Rightarrow> Some e)"

definition account_at :: "codec \<Rightarrow> tables \<Rightarrow> address \<Rightarrow> u64 \<Rightarrow> store_error + account option option" where
  "account_at v tb a number =
     (if \<not> history_covers tb number then Inr None
      else
        (case set_range (a, number + 1) (t_acc_hist tb) of
           Some ((a', _), raw) \<Rightarrow>
             if a' = a then
               (case decode_hist_info raw of
                  None \<Rightarrow> Inl (Corrupt ''acc_hist'')
                | Some prior \<Rightarrow> Inr (Some (map_option (\<lambda>(nonce, balance, code_hash).
                    \<lparr>acc_nonce = nonce, acc_balance = balance, acc_code_hash = code_hash, acc_storage_root = cd_empty_root v\<rparr>) prior)))
             else map_sum id Some (account_of tb a)
         | None \<Rightarrow> map_sum id Some (account_of tb a)))"

definition storage_at :: "tables \<Rightarrow> address \<Rightarrow> b256 \<Rightarrow> u64 \<Rightarrow> u256 option" where
  "storage_at tb a s number =
     (if \<not> history_covers tb number then None
      else
        (case set_range ((a, s), number + 1) (t_sto_hist tb) of
           Some ((k, _), x) \<Rightarrow> if k = (a, s) then Some x else Some (storage_of tb a s)
         | None \<Rightarrow> Some (storage_of tb a s)))"

definition code_of :: "tables \<Rightarrow> b256 \<Rightarrow> byte list option" where "code_of tb h = bt_get h (t_codes tb)"

definition account_proof :: "codec \<Rightarrow> tables \<Rightarrow> address \<Rightarrow> byte list list st_res" where
  "account_proof v tb a = from_trie (trie_proof (cd_rlp v) (t_trie_acc tb) (hashed_address v a))"

definition storage_proof :: "codec \<Rightarrow> tables \<Rightarrow> address \<Rightarrow> b256 \<Rightarrow> byte list list st_res" where
  "storage_proof v tb a s = from_trie (trie_proof (cd_rlp v) (t_trie_sto tb (hashed_address v a)) (hashed_slot v s))"

text \<open>The view the EVM reads, of the latest state or of the state after a past block.\<close>

definition view_at :: "tables \<Rightarrow> u64 \<Rightarrow> store_error + u64 option" where
  "view_at tb number = (if history_covers tb number then Inr (Some number) else Inl (Corrupt ''history pruned''))"

definition basic_ref :: "codec \<Rightarrow> tables \<Rightarrow> u64 option \<Rightarrow> address \<Rightarrow> store_error + info option" where
  "basic_ref v tb past a =
     (let acc = (case past of
            None \<Rightarrow> account_of tb a
          | Some n \<Rightarrow> (case account_at v tb a n of
                Inl e \<Rightarrow> Inl e
              | Inr None \<Rightarrow> Inl (Corrupt ''history'')
              | Inr (Some acc) \<Rightarrow> Inr acc))
      in map_sum id (map_option (\<lambda>a. (acc_nonce a, acc_balance a, acc_code_hash a))) acc)"

text \<open>
  \<^verbatim>\<open>Bytecode::new_raw\<close> panics on bytes that revm does not accept (a malformed delegation \<^verbatim>\<open>0xef01..\<close>).
  Bytecode stands for its original bytes.
\<close>

definition new_raw :: "codec \<Rightarrow> byte list \<Rightarrow> byte list option" where
  "new_raw v raw = (if cd_bytecode_ok v raw then Some raw else None)"

definition code_by_hash_ref :: "codec \<Rightarrow> tables \<Rightarrow> b256 \<Rightarrow> byte list st_res" where
  "code_by_hash_ref v tb h =
     (if h = cd_keccak v [] then Some (Inr [])
      else (case code_of tb h of Some c \<Rightarrow> map_option Inr (new_raw v c) | None \<Rightarrow> Some (Inl (Corrupt ''codes''))))"

definition storage_ref :: "tables \<Rightarrow> u64 option \<Rightarrow> address \<Rightarrow> b256 \<Rightarrow> store_error + u256" where
  "storage_ref tb past a s =
     (case past of
        None \<Rightarrow> Inr (storage_of tb a s)
      | Some n \<Rightarrow> (case storage_at tb a s n of Some x \<Rightarrow> Inr x | None \<Rightarrow> Inl (Corrupt ''history'')))"

subsection \<open>Applying changes\<close>

record storage_change =
  sc_address :: address
  sc_wipe :: bool
  sc_slots :: "(u256 \<times> u256) list"

record changeset =
  cs_accounts :: "(address \<times> info option) list"
  cs_storage :: "storage_change list"
  cs_contracts :: "(b256 \<times> byte list) list"

text \<open>Both tables of an account's storage, emptied by a deletion of their key prefix.\<close>

definition wipe :: "codec \<Rightarrow> address \<Rightarrow> tables \<Rightarrow> tables" where
  "wipe v a tb = tb\<lparr>t_storage := bt_retain (\<lambda>k _. fst k \<noteq> a) (t_storage tb),
     t_trie_sto := (t_trie_sto tb)(hashed_address v a := (\<lambda>_. None))\<rparr>"

definition put_slot :: "address \<Rightarrow> u256 \<times> u256 \<Rightarrow> (address \<times> b256, u256) btmap \<Rightarrow> (address \<times> b256, u256) btmap" where
  "put_slot a e m = (case e of (slot, x) \<Rightarrow> if x = 0 then bt_remove (a, slot) m else bt_insert (a, slot) x m)"

definition slot_update :: "codec \<Rightarrow> u256 \<times> u256 \<Rightarrow> trie_update" where
  "slot_update v e = (case e of (slot, x) \<Rightarrow> (hashed_slot v slot, if x = 0 then None else Some (cd_u256 v x)))"

definition apply_storage :: "codec \<Rightarrow> storage_change \<Rightarrow> tables \<times> (address, b256) btmap \<Rightarrow> (tables \<times> (address, b256) btmap) st_res" where
  "apply_storage v s st =
     (case st of (tb, roots) \<Rightarrow>
      let a = sc_address s;
          hashed = hashed_address v a;
          tb = (if sc_wipe s then wipe v a tb else tb)
      in if sc_slots s = [] then Some (Inr (tb, if sc_wipe s then bt_insert a (cd_empty_root v) roots else roots))
         else
           try_bind (from_trie (trie_session (cd_keccak v) (cd_rlp v) (cd_empty_root v) (t_trie_sto tb hashed)
               (map (slot_update v) (sc_slots s)))) (\<lambda>(root, nodes).
             Some (Inr (tb\<lparr>t_storage := fold (put_slot a) (sc_slots s) (t_storage tb),
                 t_trie_sto := (t_trie_sto tb)(hashed := nodes)\<rparr>, bt_insert a root roots))))"

fun try_fold :: "('a \<Rightarrow> 's \<Rightarrow> ('e + 's) option) \<Rightarrow> 'a list \<Rightarrow> 's \<Rightarrow> ('e + 's) option" where
  "try_fold f [] s = Some (Inr s)"
| "try_fold f (x # xs) s = try_bind (f x s) (try_fold f xs)"

text \<open>Accounts whose only change was storage keep their other fields.\<close>

definition add_info :: "codec \<Rightarrow> tables \<Rightarrow> address \<Rightarrow> (address, info option) btmap \<Rightarrow> (address, info option) btmap st_res" where
  "add_info v tb a infos =
     (if bt_has a infos then Some (Inr infos)
      else Some (map_sum id (\<lambda>acc.
        let acc = (case acc of Some acc \<Rightarrow> acc | None \<Rightarrow> default_account v)
        in bt_insert a (Some (acc_nonce acc, acc_balance acc, acc_code_hash acc)) infos) (account_of tb a)))"

definition apply_account ::
    "codec \<Rightarrow> (address, b256) btmap \<Rightarrow> node_source \<Rightarrow> address \<times> info option \<Rightarrow> tables \<times> dirty \<Rightarrow> (tables \<times> dirty) st_res" where
  "apply_account v roots nodes e st =
     (case e of (a, i) \<Rightarrow> case st of (tb, d) \<Rightarrow>
      let hkey = hashed_address v a in
      case i of
        None \<Rightarrow>
          try_bind (from_trie (remove_key (cd_rlp v) nodes hkey d)) (\<lambda>d.
            Some (Inr (wipe v a (tb\<lparr>t_accounts := bt_remove a (t_accounts tb)\<rparr>), d)))
      | Some (nonce, balance, code_hash) \<Rightarrow>
          try_bind (Some (case bt_get a roots of
              Some r \<Rightarrow> Inr r
            | None \<Rightarrow> map_sum id (\<lambda>acc. case acc of Some acc \<Rightarrow> acc_storage_root acc | None \<Rightarrow> cd_empty_root v) (account_of tb a)))
            (\<lambda>root.
              let acc = \<lparr>acc_nonce = nonce, acc_balance = balance, acc_code_hash = code_hash, acc_storage_root = root\<rparr>
              in try_bind (from_trie (trie_insert (cd_rlp v) nodes hkey (trie_value v acc) d)) (\<lambda>d.
                   Some (Inr (tb\<lparr>t_accounts := bt_insert a (acc_encode acc) (t_accounts tb)\<rparr>, d)))))"

definition apply_changes :: "codec \<Rightarrow> changeset \<Rightarrow> tables \<Rightarrow> (b256 \<times> tables) st_res" where
  "apply_changes v cs tb =
     (let tb = tb\<lparr>t_codes := fold (\<lambda>(h, c). bt_insert h c) (cs_contracts cs) (t_codes tb)\<rparr> in
      try_bind (try_fold (apply_storage v) (cs_storage cs) (tb, [])) (\<lambda>(tb, roots).
      try_bind (try_fold (add_info v tb) (map fst roots) (fold (\<lambda>(a, i). bt_insert a i) (cs_accounts cs) [])) (\<lambda>infos.
      let nodes = t_trie_acc tb in
      try_bind (try_fold (apply_account v roots nodes) infos (tb, [])) (\<lambda>(tb, d).
      try_bind (from_trie (trie_commit (cd_keccak v) (cd_rlp v) (cd_empty_root v) nodes d)) (\<lambda>(root, writes).
        Some (Inr (root, tb\<lparr>t_trie_acc := apply_writes writes nodes\<rparr>)))))))"

record init_account =
  ia_nonce :: u64
  ia_balance :: u256
  ia_code :: "byte list"
  ia_storage :: "(b256, u256) btmap"

text \<open>One turn of the loop of \<^verbatim>\<open>init_state\<close>; \<open>None\<close> is the panic on malformed code.\<close>

definition genesis_account :: "codec \<Rightarrow> address \<times> init_account \<Rightarrow> changeset \<Rightarrow> changeset option" where
  "genesis_account v e cs =
     (case e of (a, acc) \<Rightarrow> do {
        (code_hash, new) \<leftarrow>
          (if ia_code acc = [] then Some (cd_keccak v [], [])
           else do { code \<leftarrow> new_raw v (ia_code acc); Some (cd_keccak v code, [(cd_keccak v code, code)]) });
        Some \<lparr>cs_accounts = cs_accounts cs @ [(a, Some (ia_nonce acc, ia_balance acc, code_hash))],
          cs_storage = cs_storage cs @ [\<lparr>sc_address = a, sc_wipe = False, sc_slots = ia_storage acc\<rparr>],
          cs_contracts = cs_contracts cs @ new\<rparr>
      })"

definition genesis_changes :: "codec \<Rightarrow> (address, init_account) btmap \<Rightarrow> changeset option" where
  "genesis_changes v alloc =
     for_each (genesis_account v) alloc \<lparr>cs_accounts = [], cs_storage = [], cs_contracts = []\<rparr>"

definition init_state :: "codec \<Rightarrow> (address, init_account) btmap \<Rightarrow> tables \<Rightarrow> (b256 \<times> tables) st_res" where
  "init_state v alloc tb = do { cs \<leftarrow> genesis_changes v alloc; apply_changes v cs tb }"

subsection \<open>History\<close>

datatype revert_to_slot = Slot_Some u256 | Slot_Destroyed

record storage_revert =
  sr_address :: address
  sr_slots :: "(u256 \<times> revert_to_slot) list"

record reverts =
  rv_accounts :: "(address \<times> info option) list list"
  rv_storage :: "storage_revert list list"

definition prior_value :: "revert_to_slot \<Rightarrow> u256" where
  "prior_value r = (case r of Slot_Some x \<Rightarrow> x | Slot_Destroyed \<Rightarrow> 0)"

definition hist_account :: "u64 \<Rightarrow> address \<times> info option \<Rightarrow> tables \<Rightarrow> tables" where
  "hist_account n e tb =
     (case e of (a, prior) \<Rightarrow>
       tb\<lparr>t_acc_hist := bt_insert (a, n) (encode_hist_info prior) (t_acc_hist tb),
          t_hist_keys := bt_insert (n, Acc_Key a) () (t_hist_keys tb)\<rparr>)"

definition hist_slot :: "u64 \<Rightarrow> address \<Rightarrow> u256 \<times> revert_to_slot \<Rightarrow> tables \<Rightarrow> tables" where
  "hist_slot n a e tb =
     (case e of (slot, prior) \<Rightarrow>
       tb\<lparr>t_sto_hist := bt_insert ((a, slot), n) (prior_value prior) (t_sto_hist tb),
          t_hist_keys := bt_insert (n, Sto_Key a slot) () (t_hist_keys tb)\<rparr>)"

definition write_history :: "u64 \<Rightarrow> reverts \<Rightarrow> tables \<Rightarrow> tables" where
  "write_history n rv tb =
     fold (\<lambda>s. fold (hist_slot n (sr_address s)) (sr_slots s)) (concat (rv_storage rv))
       (fold (hist_account n) (concat (rv_accounts rv)) tb)"

definition apply_bundle :: "codec \<Rightarrow> u64 \<Rightarrow> changeset \<Rightarrow> reverts \<Rightarrow> tables \<Rightarrow> (b256 \<times> tables) st_res" where
  "apply_bundle v number cs rv tb = apply_changes v cs (write_history number rv tb)"

text \<open>The history keys of one block, read with a cursor from \<^verbatim>\<open>number\<close> on.\<close>

definition hist_keys_of :: "u64 \<Rightarrow> tables \<Rightarrow> hist_key list" where
  "hist_keys_of n tb =
     map snd (takeWhile (\<lambda>k. fst k = n) (dropWhile (\<lambda>k. fst k < n) (map fst (t_hist_keys tb))))"

record undo =
  un_accounts :: "(address \<times> info option) list"
  un_storage :: "(address, (u256 \<times> u256) list) btmap"

definition undo_key :: "u64 \<Rightarrow> hist_key \<Rightarrow> tables \<times> undo \<Rightarrow> (tables \<times> undo) st_res" where
  "undo_key n k st =
     (case st of (tb, u) \<Rightarrow>
      map_option (map_sum id (\<lambda>(tb, u). (tb\<lparr>t_hist_keys := bt_remove (n, k) (t_hist_keys tb)\<rparr>, u)))
        (case k of
           Acc_Key a \<Rightarrow>
            (case bt_get (a, n) (t_acc_hist tb) of
               None \<Rightarrow> Some (Inl (Corrupt ''acc_hist''))
             | Some raw \<Rightarrow>
                (case decode_hist_info raw of
                   None \<Rightarrow> Some (Inl (Corrupt ''acc_hist''))
                 | Some prior \<Rightarrow>
                    Some (Inr (tb\<lparr>t_acc_hist := bt_remove (a, n) (t_acc_hist tb)\<rparr>, u\<lparr>un_accounts := un_accounts u @ [(a, prior)]\<rparr>))))
         | Sto_Key a s \<Rightarrow>
            (case bt_get ((a, s), n) (t_sto_hist tb) of
               None \<Rightarrow> Some (Inl (Corrupt ''sto_hist''))
             | Some x \<Rightarrow>
                Some (Inr (tb\<lparr>t_sto_hist := bt_remove ((a, s), n) (t_sto_hist tb)\<rparr>,
                  u\<lparr>un_storage := bt_insert a ((case bt_get a (un_storage u) of Some l \<Rightarrow> l | None \<Rightarrow> []) @ [(s, x)]) (un_storage u)\<rparr>)))))"

definition unwind_state :: "codec \<Rightarrow> u64 \<Rightarrow> tables \<Rightarrow> (b256 \<times> tables) st_res" where
  "unwind_state v number tb =
     (let keys = hist_keys_of number tb in
      if keys = [] \<and> \<not> history_covers tb number then Some (Inl (Corrupt ''unwind: history pruned''))
      else try_bind (try_fold (undo_key number) keys (tb, \<lparr>un_accounts = [], un_storage = []\<rparr>)) (\<lambda>(tb, u).
        apply_changes v
          \<lparr>cs_accounts = un_accounts u,
           cs_storage = map (\<lambda>(a, slots). \<lparr>sc_address = a, sc_wipe = False, sc_slots = slots\<rparr>) (un_storage u),
           cs_contracts = []\<rparr> tb))"

definition drop_key :: "u64 \<times> hist_key \<Rightarrow> tables \<Rightarrow> tables" where
  "drop_key e tb =
     (case e of (n, k) \<Rightarrow>
      let tb = (case k of
            Acc_Key a \<Rightarrow> tb\<lparr>t_acc_hist := bt_remove (a, n) (t_acc_hist tb)\<rparr>
          | Sto_Key a s \<Rightarrow> tb\<lparr>t_sto_hist := bt_remove ((a, s), n) (t_sto_hist tb)\<rparr>)
      in tb\<lparr>t_hist_keys := bt_remove (n, k) (t_hist_keys tb)\<rparr>)"

definition prune_history :: "u64 \<Rightarrow> tables \<Rightarrow> nat \<times> tables" where
  "prune_history head tb =
     (if head < HISTORY_BLOCKS then (0, tb)
      else
        (let doomed = takeWhile (\<lambda>k. fst k \<le> head - HISTORY_BLOCKS) (map fst (t_hist_keys tb))
         in (length doomed, fold drop_key doomed tb)))"

subsection \<open>The root from scratch\<close>

text \<open>
  \<^verbatim>\<open>storage_root_unhashed\<close> and \<^verbatim>\<open>state_root_unhashed\<close> of \<^verbatim>\<open>alloy_trie\<close> are the arguments \<open>sroot\<close>, of slots and
  their values, and \<open>aroot\<close>, of addresses and their trie accounts.
\<close>

definition collect_account ::
    "((b256 \<times> u256) list \<Rightarrow> b256) \<Rightarrow> tables \<Rightarrow> address \<times> byte list \<Rightarrow> (address \<times> account) list \<Rightarrow> (address \<times> account) list st_res" where
  "collect_account sroot tb e out =
     (case e of (a, raw) \<Rightarrow> Some (case acc_decode raw of
        None \<Rightarrow> Inl (Corrupt ''accounts'')
      | Some acc \<Rightarrow>
          let slots = map (\<lambda>((_, s), x). (s, x)) (filter (\<lambda>((a', _), _). a' = a) (t_storage tb))
          in Inr (out @ [(a, acc\<lparr>acc_storage_root := sroot slots\<rparr>)])))"

definition full_state_root ::
    "((b256 \<times> u256) list \<Rightarrow> b256) \<Rightarrow> ((address \<times> account) list \<Rightarrow> b256) \<Rightarrow> tables \<Rightarrow> b256 st_res" where
  "full_state_root sroot aroot tb =
     try_bind (try_fold (collect_account sroot tb) (t_accounts tb) []) (\<lambda>accounts. Some (Inr (aroot accounts)))"

end
