(* ===== verification/Mined.thy ===== *)
theory Mined
  imports Pow Flat_State
begin

text \<open>
  The chain store and mined blocks (\<^verbatim>\<open>crates/chain/src/pow.rs\<close>, the import path of
  \<^verbatim>\<open>crates/chain/src/lib.rs\<close>, the block tables of \<^verbatim>\<open>crates/store/src/db.rs\<close>): fork choice by total
  difficulty, bounded reorganisations, stake finality.

  The record \<open>chain\<close> holds the tables the import path uses and the in-memory maps of \<^verbatim>\<open>Chain\<close>. The
  flat state is one value of type \<open>'st\<close>; \<open>st_hist n\<close> is the state before block \<open>n\<close>, as far as the
  recorded history reaches. A write transaction that is not committed leaves the record as it was.
  \<open>st_ipld\<close> gives the certificates of a stored envelope by its CID.

  What the sources only call is a field of \<open>env\<close>: header hashing, keccak, the PoW hash, block
  execution (\<^verbatim>\<open>execute_on\<close>, the EVM), the state root, the phase query (a contract call), the clock.
  Handlers return the result and the chain after it, for an error may leave changes behind; \<open>None\<close> is
  a panic or a walk along parent links that never ends.
\<close>

type_synonym cid = "byte list"

record certs =
  ce_qc :: "byte list"
  ce_audits :: "byte list list"

datatype chain_error =
    UnknownParent b256
  | InvalidBlock string
  | DeepReorg string
  | ExecError string
  | StoreCorrupt string

type_synonym 'a res = "chain_error + 'a"

record ('tx, 'bundle) pending_block =
  pb_hash :: b256
  pb_header :: header
  pb_txs :: "'tx list"
  pb_bundle :: 'bundle
  pb_root :: cid
  pb_certs :: certs

record 'tx side_block =
  sd_header :: header
  sd_txs :: "'tx list"
  sd_root :: "cid option"
  sd_td :: u256
  sd_cert :: certs

datatype mined_outcome = Known | Extended | Side | Reorged u64

record ('tx, 'st, 'bundle) chain =
  st_headers :: "u64 \<rightharpoonup> header"
  st_hash_num :: "b256 \<rightharpoonup> u64"
  st_bodies :: "u64 \<rightharpoonup> 'tx list"
  st_td :: "u64 \<rightharpoonup> u256"
  st_envelopes :: "u64 \<rightharpoonup> cid"
  st_ipld :: "cid \<rightharpoonup> certs"
  st_head :: "u64 option"
  st_finalized :: "(u64 \<times> b256) option"
  st_state :: 'st
  st_hist :: "u64 \<rightharpoonup> 'st"
  ch_pending :: "b256 \<rightharpoonup> ('tx, 'bundle) pending_block"
  ch_side :: "(b256, 'tx side_block) btmap"

record ('tx, 'st, 'bundle) env =
  hash_slow :: header_hash
  keccak :: keccak_fn
  pow_batch :: batch_hash
  asert :: asert_params
  past_pos :: "('tx, 'st, 'bundle) chain \<Rightarrow> u64 \<Rightarrow> bool res"
  execute :: "('tx, 'st, 'bundle) chain \<Rightarrow> header \<Rightarrow> 'tx list \<Rightarrow> certs \<Rightarrow> ('tx, 'bundle) pending_block res"
  signed :: "'tx list \<Rightarrow> bool"
  apply_state :: "'bundle \<Rightarrow> 'st \<Rightarrow> 'st"
  state_root :: "'st \<Rightarrow> b256"
  empty_root :: b256
  now_secs :: u64

definition MAX_FUTURE_SECONDS :: u64 where "MAX_FUTURE_SECONDS = 15"

definition no_certs :: certs where "no_certs = \<lparr>ce_qc = [], ce_audits = []\<rparr>"

subsection \<open>Reading the store\<close>

definition head_number :: "('tx, 'st, 'bundle) chain \<Rightarrow> u64" where
  "head_number c = (case st_head c of Some n \<Rightarrow> n | None \<Rightarrow> 0)"

definition head_header :: "('tx, 'st, 'bundle) chain \<Rightarrow> header res" where
  "head_header c = (case st_headers c (head_number c) of Some h \<Rightarrow> Inr h | None \<Rightarrow> Inl (ExecError ''missing head header''))"

definition total_difficulty :: "('tx, 'st, 'bundle) chain \<Rightarrow> u64 \<Rightarrow> u256" where
  "total_difficulty c n = (case st_td c n of Some d \<Rightarrow> d | None \<Rightarrow> 0)"

definition head_total_difficulty :: "('tx, 'st, 'bundle) chain \<Rightarrow> u256" where
  "head_total_difficulty c = total_difficulty c (head_number c)"

definition block_hash :: "('tx, 'st, 'bundle) env \<Rightarrow> ('tx, 'st, 'bundle) chain \<Rightarrow> u64 \<Rightarrow> b256 option" where
  "block_hash v c n = map_option (hash_slow v) (st_headers c n)"

definition header_of :: "('tx, 'st, 'bundle) chain \<Rightarrow> b256 \<Rightarrow> header option" where
  "header_of c hash =
     (case ch_pending c hash of
        Some p \<Rightarrow> Some (pb_header p)
      | None \<Rightarrow> (case st_hash_num c hash of Some n \<Rightarrow> st_headers c n | None \<Rightarrow> None))"

definition header_any :: "('tx, 'st, 'bundle) chain \<Rightarrow> b256 \<Rightarrow> header option" where
  "header_any c hash =
     (case header_of c hash of
        Some h \<Rightarrow> Some h
      | None \<Rightarrow> map_option sd_header (bt_get hash (ch_side c)))"

definition locate :: "('tx, 'st, 'bundle) chain \<Rightarrow> b256 \<Rightarrow> (header \<times> u256 \<times> bool) option res" where
  "locate c hash =
     (case st_hash_num c hash of
        Some n \<Rightarrow> (case st_headers c n of
            None \<Rightarrow> Inl (UnknownParent hash)
          | Some h \<Rightarrow> Inr (Some (h, total_difficulty c n, True)))
      | None \<Rightarrow> Inr (map_option (\<lambda>b. (sd_header b, sd_td b, False)) (bt_get hash (ch_side c))))"

text \<open>The walk visits side blocks until a canonical one: more steps than side blocks means a cycle.\<close>

fun ancestor_walk ::
    "('tx, 'st, 'bundle) env \<Rightarrow> nat \<Rightarrow> ('tx, 'st, 'bundle) chain \<Rightarrow> b256 \<Rightarrow> u64 \<Rightarrow> b256 res option" where
  "ancestor_walk v 0 c cur height = None"
| "ancestor_walk v (Suc f) c cur height =
     (case locate c cur of
        Inl e \<Rightarrow> Some (Inl e)
      | Inr None \<Rightarrow> Some (Inl (UnknownParent cur))
      | Inr (Some (h, _, canonical)) \<Rightarrow>
          if h_number h = height then Some (Inr cur)
          else if canonical then
            Some (case block_hash v c height of Some x \<Rightarrow> Inr x | None \<Rightarrow> Inl (UnknownParent cur))
          else if h_number h < height then Some (Inl (UnknownParent cur))
          else ancestor_walk v f c (h_parent_hash h) height)"

definition ancestor_hash ::
    "('tx, 'st, 'bundle) env \<Rightarrow> ('tx, 'st, 'bundle) chain \<Rightarrow> b256 \<Rightarrow> u64 \<Rightarrow> b256 res option" where
  "ancestor_hash v c tip height = ancestor_walk v (Suc (length (ch_side c))) c tip height"

subsection \<open>Header rules\<close>

definition difficulty_after :: "('tx, 'st, 'bundle) env \<Rightarrow> ('tx, 'st, 'bundle) chain \<Rightarrow> header \<Rightarrow> u256 res" where
  "difficulty_after v c parent =
     (if h_number parent \<le> 1 then
        Inr (next_difficulty (asert v) (h_number parent) (h_difficulty parent) 0)
      else
        (case header_any c (h_parent_hash parent) of
           None \<Rightarrow> Inl (UnknownParent (h_parent_hash parent))
         | Some gp \<Rightarrow>
             Inr (next_difficulty (asert v) (h_number parent) (h_difficulty parent)
               (saturating_sub (h_timestamp parent) (h_timestamp gp)))))"

definition check_seal :: "('tx, 'st, 'bundle) env \<Rightarrow> header \<Rightarrow> b256 \<Rightarrow> unit res option" where
  "check_seal v header seed = do {
     r \<leftarrow> pow_verify (hash_slow v) (pow_batch v) (key_for (keccak v) seed) header;
     Some (case r of
        Inr True \<Rightarrow> Inr ()
      | Inr False \<Rightarrow> Inl (InvalidBlock ''block does not meet its difficulty'')
      | Inl e \<Rightarrow> Inl (ExecError ''pow''))
   }"

definition check_mined_header ::
    "('tx, 'st, 'bundle) env \<Rightarrow> ('tx, 'st, 'bundle) chain \<Rightarrow> header \<Rightarrow> header \<Rightarrow> unit res option" where
  "check_mined_header v c header parent =
     (if h_number header \<noteq> h_number parent + 1 then Some (Inl (InvalidBlock ''wrong number''))
      else if h_timestamp header \<le> h_timestamp parent then Some (Inl (InvalidBlock ''timestamp not after parent''))
      else if h_difficulty header = 0 then Some (Inl (InvalidBlock ''not a mined block''))
      else case past_pos v c (h_number header) of
        Inl e \<Rightarrow> Some (Inl e)
      | Inr True \<Rightarrow> Some (Inl (InvalidBlock ''past the switch to PoS''))
      | Inr False \<Rightarrow>
         (case difficulty_after v c parent of
            Inl e \<Rightarrow> Some (Inl e)
          | Inr expected \<Rightarrow>
             if h_difficulty header \<noteq> expected then Some (Inl (InvalidBlock ''difficulty (ASERT)''))
             else if length (h_extra_data header) > 32 then Some (Inl (InvalidBlock ''extra data over 32 bytes''))
             else do {
               r \<leftarrow> ancestor_hash v c (h_parent_hash header) (seed_height (h_number header));
               case r of Inl e \<Rightarrow> Some (Inl e) | Inr seed \<Rightarrow> check_seal v header seed
             }))"

subsection \<open>Importing a block on the head\<close>

definition saturating_add :: "u256 \<Rightarrow> u256 \<Rightarrow> u256" where
  "saturating_add a b = (if unat a + unat b < 2 ^ 256 then a + b else -1)"

definition beacon_of :: "('tx, 'st, 'bundle) env \<Rightarrow> certs \<Rightarrow> b256" where
  "beacon_of v ce = (if ce_qc ce = [] then 0 else keccak v (ce_qc ce))"

definition verify_block ::
    "('tx, 'st, 'bundle) env \<Rightarrow> header \<Rightarrow> 'tx list \<Rightarrow> certs \<Rightarrow> ('tx, 'st, 'bundle) chain
      \<Rightarrow> ('tx, 'bundle) pending_block res \<times> ('tx, 'st, 'bundle) chain" where
  "verify_block v header txs ce c =
     (case ch_pending c (hash_slow v header) of
        Some p \<Rightarrow> (Inr p, c)
      | None \<Rightarrow>
       (case header_of c (h_parent_hash header) of
          None \<Rightarrow> (Inl (UnknownParent (h_parent_hash header)), c)
        | Some parent \<Rightarrow>
           if h_number header \<noteq> h_number parent + 1 then (Inl (InvalidBlock ''wrong number''), c)
           else if h_timestamp header \<le> h_timestamp parent then (Inl (InvalidBlock ''timestamp not after parent''), c)
           else if \<not> valid_gas_limit (h_gas_limit parent) (h_gas_limit header) then (Inl (InvalidBlock ''gas limit''), c)
           else if h_parent_beacon_root header \<noteq> Some (beacon_of v ce)
             then (Inl (InvalidBlock ''parent certificate hash mismatch''), c)
           else if \<not> signed v txs then (Inl (InvalidBlock ''bad signature''), c)
           else case execute v c header txs ce of
             Inl e \<Rightarrow> (Inl e, c)
           | Inr p \<Rightarrow> (Inr p, c\<lparr>st_ipld := (st_ipld c)(pb_root p \<mapsto> pb_certs p),
               ch_pending := (ch_pending c)(pb_hash p \<mapsto> p)\<rparr>)))"

definition put_block :: "('tx, 'st, 'bundle) env \<Rightarrow> header \<Rightarrow> 'tx list \<Rightarrow> ('tx, 'st, 'bundle) chain \<Rightarrow> ('tx, 'st, 'bundle) chain" where
  "put_block v header txs c =
     (let number = h_number header;
          parent_td = (if number = 0 then 0 else total_difficulty c (number - 1))
      in c\<lparr>st_headers := (st_headers c)(number \<mapsto> header),
           st_hash_num := (st_hash_num c)(hash_slow v header \<mapsto> number),
           st_bodies := (st_bodies c)(number \<mapsto> txs),
           st_td := (st_td c)(number \<mapsto> saturating_add parent_td (h_difficulty header)),
           st_head := Some number\<rparr>)"

definition forget_history :: "u64 \<Rightarrow> ('tx, 'st, 'bundle) chain \<Rightarrow> ('tx, 'st, 'bundle) chain" where
  "forget_history head c =
     (if head < HISTORY_BLOCKS then c
      else c\<lparr>st_hist := (\<lambda>n. if n \<le> head - HISTORY_BLOCKS then None else st_hist c n)\<rparr>)"

definition commit_pending ::
    "('tx, 'st, 'bundle) env \<Rightarrow> b256 \<Rightarrow> ('tx, 'st, 'bundle) chain \<Rightarrow> header res \<times> ('tx, 'st, 'bundle) chain" where
  "commit_pending v hash c =
     (case ch_pending c hash of
        None \<Rightarrow> (Inl (UnknownParent hash), c)
      | Some p \<Rightarrow>
       (case head_header c of
          Inl e \<Rightarrow> (Inl e, c)
        | Inr head \<Rightarrow>
           if h_parent_hash (pb_header p) \<noteq> hash_slow v head then (Inl (InvalidBlock ''does not extend head''), c)
           else
             (let number = h_number (pb_header p);
                  st = apply_state v (pb_bundle p) (st_state c)
              in
              if state_root v st \<noteq> h_state_root (pb_header p)
                then (Inl (ExecError ''state root changed between execution and commit''), c)
              else
                (let w = c\<lparr>st_hist := (st_hist c)(number \<mapsto> st_state c), st_state := st,
                        st_ipld := (st_ipld c)(pb_root p \<mapsto> pb_certs p),
                        st_envelopes := (st_envelopes c)(number \<mapsto> pb_root p)\<rparr>;
                     w = forget_history number (put_block v (pb_header p) (pb_txs p) w);
                     horizon = saturating_sub number MAX_REORG_DEPTH
                 in (Inr (pb_header p),
                     w\<lparr>ch_pending := (\<lambda>h. case ch_pending w h of
                           Some b \<Rightarrow> if h_number (pb_header b) > number then Some b else None | None \<Rightarrow> None),
                        ch_side := bt_retain (\<lambda>_ b. h_number (sd_header b) > horizon) (ch_side w)\<rparr>)))))"

definition import_final ::
    "('tx, 'st, 'bundle) env \<Rightarrow> header \<Rightarrow> 'tx list \<Rightarrow> cid option \<Rightarrow> certs \<Rightarrow> ('tx, 'st, 'bundle) chain
      \<Rightarrow> b256 res \<times> ('tx, 'st, 'bundle) chain" where
  "import_final v header txs root ce c =
     (case head_header c of
        Inl e \<Rightarrow> (Inl e, c)
      | Inr head \<Rightarrow>
         if h_parent_hash header \<noteq> hash_slow v head then (Inl (InvalidBlock ''does not extend head''), c)
         else
           (case verify_block v header txs ce c of
              (Inl e, c) \<Rightarrow> (Inl e, c)
            | (Inr p, c) \<Rightarrow>
               if root \<noteq> None \<and> root \<noteq> Some (pb_root p)
               then (Inl (InvalidBlock ''envelope is not the announced one''),
                     c\<lparr>ch_pending := (ch_pending c)(pb_hash p := None)\<rparr>)
               else
                 (case commit_pending v (pb_hash p) c of
                    (Inl e, c) \<Rightarrow> (Inl e, c)
                  | (Inr _, c) \<Rightarrow> (Inr (pb_hash p), c))))"

subsection \<open>Undoing blocks\<close>

definition remove_head_block ::
    "('tx, 'st, 'bundle) env \<Rightarrow> u64 \<Rightarrow> ('tx, 'st, 'bundle) chain \<Rightarrow> ((header \<times> 'tx list) \<times> ('tx, 'st, 'bundle) chain) res" where
  "remove_head_block v number c =
     (case st_headers c number of
        None \<Rightarrow> Inl (StoreCorrupt ''headers'')
      | Some h \<Rightarrow>
         (case (case st_bodies c number of Some txs \<Rightarrow> Some txs
                | None \<Rightarrow> if h_transactions_root h \<noteq> empty_root v then None else Some []) of
            None \<Rightarrow> Inl (StoreCorrupt ''headers'')
          | Some txs \<Rightarrow> Inr ((h, txs), c\<lparr>
              st_hash_num := (st_hash_num c)(hash_slow v h := None),
              st_headers := (st_headers c)(number := None), st_bodies := (st_bodies c)(number := None),
              st_envelopes := (st_envelopes c)(number := None), st_td := (st_td c)(number := None),
              st_head := (if number = 0 then None else Some (number - 1))\<rparr>)))"

text \<open>A block without recorded history leaves the state as it is; the caller compares the root.\<close>

definition restore_state :: "u64 \<Rightarrow> ('tx, 'st, 'bundle) chain \<Rightarrow> ('tx, 'st, 'bundle) chain" where
  "restore_state number c =
     (case st_hist c number of
        Some s \<Rightarrow> c\<lparr>st_state := s, st_hist := (st_hist c)(number := None)\<rparr>
      | None \<Rightarrow> c)"

definition unwind_head ::
    "('tx, 'st, 'bundle) env \<Rightarrow> ('tx, 'st, 'bundle) chain \<Rightarrow> ((header \<times> 'tx list) \<times> b256 \<times> ('tx, 'st, 'bundle) chain) res" where
  "unwind_head v c =
     (case st_head c of
        None \<Rightarrow> Inl (StoreCorrupt ''unwind: empty chain'')
      | Some number \<Rightarrow>
         if number = 0 then Inl (StoreCorrupt ''unwind: cannot undo genesis'')
         else
           (let w = restore_state number c in
            case remove_head_block v number w of
              Inl e \<Rightarrow> Inl e
            | Inr (b, w) \<Rightarrow> Inr (b, state_root v (st_state w), w)))"

definition certs_at :: "('tx, 'st, 'bundle) chain \<Rightarrow> cid option \<Rightarrow> certs" where
  "certs_at c root = (case root of Some r \<Rightarrow> (case st_ipld c r of Some ce \<Rightarrow> ce | None \<Rightarrow> no_certs) | None \<Rightarrow> no_certs)"

text \<open>The loop on the write transaction \<open>w\<close>; each round undoes the head, so the head bounds the rounds.\<close>

fun unwind_loop ::
    "('tx, 'st, 'bundle) env \<Rightarrow> nat \<Rightarrow> u64 \<Rightarrow> 'tx side_block list \<Rightarrow> ('tx, 'st, 'bundle) chain
      \<Rightarrow> ('tx side_block list \<times> ('tx, 'st, 'bundle) chain) res" where
  "unwind_loop v f number undone w =
     (if head_number w \<le> number then Inr (undone, w)
      else case f of
        0 \<Rightarrow> Inl (StoreCorrupt ''unwind'')
      | Suc f \<Rightarrow>
         (let head = head_number w; root = st_envelopes w head; td = total_difficulty w head; cert = certs_at w root in
          case unwind_head v w of
            Inl e \<Rightarrow> Inl e
          | Inr ((h, txs), r, w) \<Rightarrow>
             if map_option h_state_root (st_headers w (head - 1)) \<noteq> Some r
             then Inl (ExecError ''state root after undoing does not match the parent'')
             else unwind_loop v f number
               (undone @ [\<lparr>sd_header = h, sd_txs = txs, sd_root = root, sd_td = td, sd_cert = cert\<rparr>]) w))"

declare unwind_loop.simps [simp del]

definition unwind_to ::
    "('tx, 'st, 'bundle) env \<Rightarrow> u64 \<Rightarrow> ('tx, 'st, 'bundle) chain \<Rightarrow> 'tx side_block list res \<times> ('tx, 'st, 'bundle) chain" where
  "unwind_to v number c =
     (let c = c\<lparr>ch_pending := Map.empty\<rparr> in
      case unwind_loop v (unat (head_number c)) number [] c of
        Inl e \<Rightarrow> (Inl e, c)
      | Inr (undone, w) \<Rightarrow> (Inr (rev undone), w))"

end
