(* ===== verification/Txpool.thy ===== *)
theory Txpool
  imports Prelude "HOL-Library.Multiset"
begin

text \<open>
  The transaction pool (\<^verbatim>\<open>crates/txpool/src/lib.rs\<close>): admission, replacement, removal and the order
  in which a block builder gets the transactions.

  A transaction is a value of an arbitrary type \<open>'tx\<close>; \<open>tx_api\<close> gathers what the pool asks of the
  alloy and revm crates about it (accessors, signer recovery, EIP-2718 decoding, the initial gas of a
  call, the effective tip). Lengths in memory (\<^verbatim>\<open>usize\<close>) are natural numbers; prices, gas and costs
  keep their width, and their sums wrap. The iteration order of a \<^verbatim>\<open>HashMap\<close> is not specified by
  Rust: \<open>on_new_block\<close> and \<open>best\<close> take the order of the senders as an argument and their lemmas hold for
  every one.
\<close>

record 'tx tx_api =
  decode_2718 :: "byte list \<Rightarrow> ('tx \<times> byte list) option"
  is_eip4844 :: "'tx \<Rightarrow> bool"
  chain_id_of :: "'tx \<Rightarrow> u64 option"
  gas_limit_of :: "'tx \<Rightarrow> u64"
  max_fee_per_gas :: "'tx \<Rightarrow> u128"
  max_priority_fee_per_gas :: "'tx \<Rightarrow> u128 option"
  effective_tip_per_gas :: "'tx \<Rightarrow> u64 \<Rightarrow> u128 option"
  value_of :: "'tx \<Rightarrow> u256"
  nonce_of :: "'tx \<Rightarrow> u64"
  input_of :: "'tx \<Rightarrow> byte list"
  is_create :: "'tx \<Rightarrow> bool"
  access_list :: "'tx \<Rightarrow> (address \<times> b256 list) list option"
  authorization_count :: "'tx \<Rightarrow> nat option"
  recover_signer :: "'tx \<Rightarrow> address option"
  tx_hash :: "'tx \<Rightarrow> b256"
  encode_2718_len :: "'tx \<Rightarrow> nat"
  initial_tx_gas :: "byte list \<Rightarrow> bool \<Rightarrow> u64 \<Rightarrow> u64 \<Rightarrow> u64 \<Rightarrow> u64 \<times> u64 \<times> u64"

definition TX_GAS_LIMIT_CAP :: u64 where "TX_GAS_LIMIT_CAP = 16777216"
definition MAX_TX_BYTES :: nat where "MAX_TX_BYTES = 128 * 1024"

record pool_config =
  pc_chain_id :: u64
  block_gas_limit :: u64
  min_base_fee :: u64
  max_txs :: nat
  max_bytes :: nat
  max_per_sender :: nat
  price_bump_pct :: u128

definition pool_config_new :: "u64 \<Rightarrow> u64 \<Rightarrow> u64 \<Rightarrow> pool_config" where
  "pool_config_new chain_id gas_limit fee =
     \<lparr>pc_chain_id = chain_id, block_gas_limit = gas_limit, min_base_fee = fee, max_txs = 4096,
      max_bytes = 16 * 2 ^ 20, max_per_sender = 16, price_bump_pct = 10\<rparr>"

datatype add_error =
    Decode
  | TooLarge
  | Signature
  | Blob
  | Unprotected
  | ChainId u64
  | GasLimit u64
  | IntrinsicGas u64
  | FeeTooLow
  | NonceTooLow u64
  | NonceTooHigh
  | InsufficientFunds
  | Underpriced
  | AlreadyKnown
  | PoolFull

record 'tx pooled_tx =
  pt_tx :: 'tx
  pt_sender :: address
  pt_hash :: b256
  pt_size :: nat

record 'tx pool =
  by_hash :: "(b256, 'tx pooled_tx) btmap"
  by_sender :: "(address, (u64, b256) btmap) btmap"
  pl_bytes :: nat

definition pool_new :: "'tx pool" where
  "pool_new = \<lparr>by_hash = [], by_sender = [], pl_bytes = 0\<rparr>"

type_synonym account_state = "address \<Rightarrow> u64 \<times> u256"

definition pt_nonce :: "'tx tx_api \<Rightarrow> 'tx pooled_tx \<Rightarrow> u64" where
  "pt_nonce api p = nonce_of api (pt_tx p)"

definition pt_tip :: "'tx tx_api \<Rightarrow> 'tx pooled_tx \<Rightarrow> u64 \<Rightarrow> u128 option" where
  "pt_tip api p base_fee = effective_tip_per_gas api (pt_tx p) base_fee"

definition intrinsic_gas :: "'tx tx_api \<Rightarrow> 'tx \<Rightarrow> u64" where
  "intrinsic_gas api tx =
     (let (accounts, storages) =
            (case access_list api tx of
               None \<Rightarrow> (0, 0)
             | Some al \<Rightarrow> (of_nat (length al), sum_list (map (\<lambda>i. of_nat (length (snd i))) al)));
          auths = (case authorization_count api tx of None \<Rightarrow> 0 | Some n \<Rightarrow> of_nat n);
          (regular, state, floor) = initial_tx_gas api (input_of api tx) (is_create api tx) accounts storages auths
      in max (regular + state) floor)"

subsection \<open>Admission\<close>

text \<open>Removes an entry from both indexes.\<close>

definition inner_remove :: "'tx tx_api \<Rightarrow> b256 \<Rightarrow> 'tx pool \<Rightarrow> 'tx pool" where
  "inner_remove api hash pl =
     (case bt_get hash (by_hash pl) of
        None \<Rightarrow> pl
      | Some p \<Rightarrow>
         (let pl = pl\<lparr>by_hash := bt_remove hash (by_hash pl), pl_bytes := pl_bytes pl - pt_size p\<rparr>
          in case bt_get (pt_sender p) (by_sender pl) of
               None \<Rightarrow> pl
             | Some m \<Rightarrow>
                (let m = bt_remove (pt_nonce api p) m
                 in if m = [] then pl\<lparr>by_sender := bt_remove (pt_sender p) (by_sender pl)\<rparr>
                    else pl\<lparr>by_sender := bt_insert (pt_sender p) m (by_sender pl)\<rparr>)))"

definition max_cost :: "'tx tx_api \<Rightarrow> 'tx \<Rightarrow> u256" where
  "max_cost api tx = ucast (gas_limit_of api tx) * ucast (max_fee_per_gas api tx) + value_of api tx"

definition bump :: "pool_config \<Rightarrow> u128 \<Rightarrow> u128" where
  "bump c x = x + x * price_bump_pct c div 100"

definition tip_or_fee :: "'tx tx_api \<Rightarrow> 'tx \<Rightarrow> u128" where
  "tip_or_fee api tx = (case max_priority_fee_per_gas api tx of Some t \<Rightarrow> t | None \<Rightarrow> max_fee_per_gas api tx)"

text \<open>The checks before the lock is taken; the sender it recovers when they pass.\<close>

definition admissible :: "'tx tx_api \<Rightarrow> pool_config \<Rightarrow> 'tx \<Rightarrow> account_state \<Rightarrow> add_error + address" where
  "admissible api c tx state =
     (if is_eip4844 api tx then Inl Blob
      else if chain_id_of api tx = None then Inl Unprotected
      else if chain_id_of api tx \<noteq> Some (pc_chain_id c) then Inl (ChainId (the (chain_id_of api tx)))
      else if \<not> (21000 \<le> gas_limit_of api tx \<and> gas_limit_of api tx \<le> min TX_GAS_LIMIT_CAP (block_gas_limit c))
        then Inl (GasLimit (gas_limit_of api tx))
      else if gas_limit_of api tx < intrinsic_gas api tx then Inl (IntrinsicGas (intrinsic_gas api tx))
      else if max_fee_per_gas api tx < ucast (min_base_fee c)
           \<or> (case max_priority_fee_per_gas api tx of Some p \<Rightarrow> p > max_fee_per_gas api tx | None \<Rightarrow> False) then Inl FeeTooLow
      else case recover_signer api tx of
        None \<Rightarrow> Inl Signature
      | Some sender \<Rightarrow>
         (let (account_nonce, balance) = state sender in
          if nonce_of api tx < account_nonce then Inl (NonceTooLow account_nonce)
          else if nonce_of api tx \<ge> account_nonce + of_nat (max_per_sender c) then Inl NonceTooHigh
          else if max_cost api tx > balance then Inl InsufficientFunds
          else Inr sender))"

definition sender_nonces :: "'tx pool \<Rightarrow> address \<Rightarrow> (u64, b256) btmap" where
  "sender_nonces pl s = (case bt_get s (by_sender pl) of None \<Rightarrow> [] | Some m \<Rightarrow> m)"

definition pool_insert :: "'tx tx_api \<Rightarrow> 'tx \<Rightarrow> address \<Rightarrow> 'tx pool \<Rightarrow> 'tx pool" where
  "pool_insert api tx sender pl =
     (let hash = tx_hash api tx; size = encode_2718_len api tx in
      \<lparr>by_hash = bt_insert hash \<lparr>pt_tx = tx, pt_sender = sender, pt_hash = hash, pt_size = size\<rparr> (by_hash pl),
       by_sender = bt_insert sender (bt_insert (nonce_of api tx) hash (sender_nonces pl sender)) (by_sender pl),
       pl_bytes = pl_bytes pl + size\<rparr>)"

text \<open>The outer \<open>None\<close> is the panic of \<^verbatim>\<open>by_hash[&old_hash]\<close>.\<close>

definition pool_add ::
    "'tx tx_api \<Rightarrow> pool_config \<Rightarrow> 'tx \<Rightarrow> account_state \<Rightarrow> 'tx pool \<Rightarrow> ((add_error + b256) \<times> 'tx pool) option" where
  "pool_add api c tx state pl =
     (case admissible api c tx state of
        Inl e \<Rightarrow> Some (Inl e, pl)
      | Inr sender \<Rightarrow>
         (let hash = tx_hash api tx in
          if bt_has hash (by_hash pl) then Some (Inl AlreadyKnown, pl)
          else case bt_get (nonce_of api tx) (sender_nonces pl sender) of
            Some old_hash \<Rightarrow>
             (case bt_get old_hash (by_hash pl) of
                None \<Rightarrow> None
              | Some old \<Rightarrow>
                 if tip_or_fee api tx < bump c (tip_or_fee api (pt_tx old))
                    \<or> max_fee_per_gas api tx < bump c (max_fee_per_gas api (pt_tx old))
                 then Some (Inl Underpriced, pl)
                 else Some (Inr hash, pool_insert api tx sender (inner_remove api old_hash pl)))
          | None \<Rightarrow>
              if length (by_hash pl) \<ge> max_txs c \<or> pl_bytes pl + encode_2718_len api tx > max_bytes c
              then Some (Inl PoolFull, pl)
              else Some (Inr hash, pool_insert api tx sender pl)))"

definition add_raw_inner ::
    "'tx tx_api \<Rightarrow> pool_config \<Rightarrow> byte list \<Rightarrow> account_state \<Rightarrow> 'tx pool \<Rightarrow> ((add_error + b256) \<times> 'tx pool) option" where
  "add_raw_inner api c raw state pl =
     (if length raw > MAX_TX_BYTES then Some (Inl TooLarge, pl)
      else case decode_2718 api raw of
        None \<Rightarrow> Some (Inl Decode, pl)
      | Some (tx, buf) \<Rightarrow> if buf \<noteq> [] then Some (Inl Decode, pl) else pool_add api c tx state pl)"

text \<open>\<open>add_gossiped\<close> is \<open>add_raw_inner\<close>; \<open>add_raw\<close> also hands the bytes of an admitted transaction to the hook.\<close>

definition add_raw ::
    "'tx tx_api \<Rightarrow> pool_config \<Rightarrow> byte list \<Rightarrow> account_state \<Rightarrow> 'tx pool
      \<Rightarrow> ((add_error + b256) \<times> byte list list \<times> 'tx pool) option" where
  "add_raw api c raw state pl = do {
     (r, pl) \<leftarrow> add_raw_inner api c raw state pl;
     Some (case r of Inl e \<Rightarrow> (Inl e, [], pl) | Inr h \<Rightarrow> (Inr h, [raw], pl))
   }"

subsection \<open>Removal\<close>

definition pool_remove :: "'tx tx_api \<Rightarrow> b256 list \<Rightarrow> 'tx pool \<Rightarrow> 'tx pool" where
  "pool_remove api hashes pl = fold (inner_remove api) hashes pl"

definition stale_hashes :: "u64 \<Rightarrow> (u64, b256) btmap \<Rightarrow> b256 list" where
  "stale_hashes nonce m = map snd (filter (\<lambda>(n, _). n < nonce) m)"

text \<open>One turn of the loop; \<open>None\<close> is the panic of \<^verbatim>\<open>by_sender[&s]\<close> for a sender that is gone.\<close>

definition drop_stale :: "'tx tx_api \<Rightarrow> account_state \<Rightarrow> address \<Rightarrow> 'tx pool \<Rightarrow> 'tx pool option" where
  "drop_stale api state s pl = do {
     m \<leftarrow> bt_get s (by_sender pl);
     Some (fold (inner_remove api) (stale_hashes (fst (state s)) m) pl)
   }"

definition on_new_block :: "'tx tx_api \<Rightarrow> address list \<Rightarrow> account_state \<Rightarrow> 'tx pool \<Rightarrow> 'tx pool option" where
  "on_new_block api senders state pl = for_each (drop_stale api state) senders pl"

definition pool_get :: "b256 \<Rightarrow> 'tx pool \<Rightarrow> 'tx pooled_tx option" where
  "pool_get hash pl = bt_get hash (by_hash pl)"

definition pool_len :: "'tx pool \<Rightarrow> nat" where "pool_len pl = length (by_hash pl)"

text \<open>At most every pooled nonce is skipped, so the length of the map is enough fuel.\<close>

fun next_free :: "nat \<Rightarrow> (u64, b256) btmap \<Rightarrow> u64 \<Rightarrow> u64 option" where
  "next_free f m nx =
     (if \<not> bt_has nx m then Some nx
      else case f of 0 \<Rightarrow> None | Suc f \<Rightarrow> next_free f m (nx + 1))"

declare next_free.simps [simp del]

definition pending_nonce :: "address \<Rightarrow> u64 \<Rightarrow> 'tx pool \<Rightarrow> u64 option" where
  "pending_nonce sender account_nonce pl =
     (let m = sender_nonces pl sender in next_free (length m) m account_nonce)"

subsection \<open>Order for block building\<close>

text \<open>The executable run of one sender: \<open>(start..).zip(nonces.range(start..))\<close>.\<close>

fun run_from :: "'tx tx_api \<Rightarrow> u64 \<Rightarrow> 'tx pool \<Rightarrow> u64 \<Rightarrow> (u64, b256) btmap \<Rightarrow> 'tx pooled_tx list option" where
  "run_from api base_fee pl expected [] = Some []"
| "run_from api base_fee pl expected ((n, h) # m) =
     (if n \<noteq> expected then Some []
      else case bt_get h (by_hash pl) of
        None \<Rightarrow> None
      | Some p \<Rightarrow>
          if pt_tip api p base_fee = None then Some []
          else map_option ((#) p) (run_from api base_fee pl (expected + 1) m))"

definition sender_run ::
    "'tx tx_api \<Rightarrow> u64 \<Rightarrow> account_state \<Rightarrow> 'tx pool \<Rightarrow> address \<Rightarrow> 'tx pooled_tx list option" where
  "sender_run api base_fee state pl s =
     (let start = fst (state s) in
      run_from api base_fee pl start (filter (\<lambda>(n, _). n \<ge> start) (sender_nonces pl s)))"

fun collect_runs ::
    "'tx tx_api \<Rightarrow> u64 \<Rightarrow> account_state \<Rightarrow> 'tx pool \<Rightarrow> address list \<Rightarrow> 'tx pooled_tx list list option" where
  "collect_runs api base_fee state pl [] = Some []"
| "collect_runs api base_fee state pl (s # ss) = do {
     run \<leftarrow> sender_run api base_fee state pl s;
     runs \<leftarrow> collect_runs api base_fee state pl ss;
     Some (if run = [] then runs else run # runs)
   }"

text \<open>Heap entries \<open>(tip, Reverse(i), j)\<close> in their derived order, and the greatest of a heap.\<close>

type_synonym heap_entry = "u128 \<times> nat \<times> nat"

fun heap_less :: "heap_entry \<Rightarrow> heap_entry \<Rightarrow> bool" where
  "heap_less (t, i, j) (t', i', j') \<longleftrightarrow> t < t' \<or> t = t' \<and> (i > i' \<or> i = i' \<and> j < j')"

fun heap_max :: "heap_entry \<Rightarrow> heap_entry list \<Rightarrow> heap_entry" where
  "heap_max x [] = x"
| "heap_max x (y # ys) = heap_max (if heap_less x y then y else x) ys"

definition heap_pop :: "heap_entry list \<Rightarrow> (heap_entry \<times> heap_entry list) option" where
  "heap_pop h = (case h of [] \<Rightarrow> None | x # xs \<Rightarrow> (let hd_e = heap_max x xs in Some (hd_e, remove1 hd_e h)))"

definition tip_or_zero :: "'tx tx_api \<Rightarrow> u64 \<Rightarrow> 'tx pooled_tx \<Rightarrow> u128" where
  "tip_or_zero api base_fee p = (case pt_tip api p base_fee of Some t \<Rightarrow> t | None \<Rightarrow> 0)"

definition remaining :: "'tx pooled_tx list list \<Rightarrow> heap_entry list \<Rightarrow> nat" where
  "remaining runs h = sum_list (map (\<lambda>(_, i, j). length (runs ! i) - j) h)"

lemma heap_max_in: "heap_max x xs \<in> set (x # xs)"
  by (induction x xs rule: heap_max.induct) auto

lemma heap_max_ge: "y \<in> set (x # xs) \<Longrightarrow> \<not> heap_less (heap_max x xs) y"
proof (induction x xs arbitrary: y rule: heap_max.induct)
  case (1 x)
  then show ?case by (cases x) simp
next
  case (2 x y' ys)
  have tr: "heap_less a b \<Longrightarrow> \<not> heap_less c b \<Longrightarrow> heap_less a c" for a b c :: heap_entry
    by (cases a; cases b; cases c) auto
  have asym: "heap_less a b \<Longrightarrow> \<not> heap_less b a" for a b :: heap_entry by (cases a; cases b) auto
  let ?z = "if heap_less x y' then y' else x"
  have z: "\<not> heap_less (heap_max ?z ys) ?z" using "2.IH" [of ?z] by simp
  have "\<not> heap_less ?z x" "\<not> heap_less ?z y'" using asym [of x x] asym [of y' y'] asym [of x y'] by auto
  then have "\<not> heap_less (heap_max ?z ys) x" "\<not> heap_less (heap_max ?z ys) y'"
    using z tr [of "heap_max ?z ys"] by blast+
  then show ?case using "2.prems" "2.IH" [of y] by auto
qed

lemma heap_popD:
  assumes "heap_pop h = Some (hd_e, h')"
  shows "hd_e \<in> set h" and "h' = remove1 hd_e h" and "\<And>y. y \<in> set h \<Longrightarrow> \<not> heap_less hd_e y"
  using assms heap_max_in heap_max_ge by (auto simp: heap_pop_def Let_def split: list.splits)

lemma heap_pop_None [simp]: "heap_pop h = None \<longleftrightarrow> h = []"
  by (simp add: heap_pop_def Let_def split: list.splits)

lemma remaining_remove1:
  "(t, i, j) \<in> set h \<Longrightarrow> remaining runs h = length (runs ! i) - j + remaining runs (remove1 (t, i, j) h)"
  by (induction h) (auto simp: remaining_def)

lemma merge_measure:
  assumes "heap_pop h = Some ((t, i, j), h')" "j < length (runs ! i)"
  shows "remaining runs h' < remaining runs h"
    and "Suc j < length (runs ! i) \<Longrightarrow> remaining runs ((t', i, Suc j) # h') < remaining runs h"
proof -
  have "remaining runs h = length (runs ! i) - j + remaining runs h'"
    using heap_popD [OF assms(1)] remaining_remove1 [of t i j h runs] by simp
  then show "remaining runs h' < remaining runs h"
    "Suc j < length (runs ! i) \<Longrightarrow> remaining runs ((t', i, Suc j) # h') < remaining runs h"
    using assms(2) by (simp_all add: remaining_def)
qed

function merge_runs ::
    "'tx tx_api \<Rightarrow> u64 \<Rightarrow> 'tx pooled_tx list list \<Rightarrow> heap_entry list \<Rightarrow> 'tx pooled_tx list \<Rightarrow> 'tx pooled_tx list option" where
  "merge_runs api base_fee runs h out =
     (case heap_pop h of
        None \<Rightarrow> Some out
      | Some ((_, i, j), h) \<Rightarrow>
          if i < length runs \<and> j < length (runs ! i) then
            merge_runs api base_fee runs
              (if j + 1 < length (runs ! i) then (tip_or_zero api base_fee (runs ! i ! (j + 1)), i, j + 1) # h else h)
              (out @ [runs ! i ! j])
          else None)"
  by pat_completeness auto
termination
  by (relation "measure (\<lambda>(api, base_fee, runs, h, out). remaining runs h)")
    (auto dest: merge_measure)

declare merge_runs.simps [simp del]

definition first_heap :: "'tx tx_api \<Rightarrow> u64 \<Rightarrow> 'tx pooled_tx list list \<Rightarrow> heap_entry list" where
  "first_heap api base_fee runs = map (\<lambda>i. (tip_or_zero api base_fee (runs ! i ! 0), i, 0)) [0..<length runs]"

definition best ::
    "'tx tx_api \<Rightarrow> address list \<Rightarrow> u64 \<Rightarrow> account_state \<Rightarrow> 'tx pool \<Rightarrow> ('tx \<times> address) list option" where
  "best api order base_fee state pl = do {
     runs \<leftarrow> collect_runs api base_fee state pl order;
     out \<leftarrow> merge_runs api base_fee runs (first_heap api base_fee runs) [];
     Some (map (\<lambda>p. (pt_tx p, pt_sender p)) out)
   }"

subsection \<open>The two indexes agree\<close>

text \<open>What admission checked of a pooled transaction for good, whatever the state does later.\<close>

definition tx_ok :: "'tx tx_api \<Rightarrow> pool_config \<Rightarrow> 'tx \<Rightarrow> bool" where
  "tx_ok api c tx \<longleftrightarrow> \<not> is_eip4844 api tx \<and> chain_id_of api tx = Some (pc_chain_id c)
     \<and> intrinsic_gas api tx \<le> gas_limit_of api tx \<and> gas_limit_of api tx \<le> min TX_GAS_LIMIT_CAP (block_gas_limit c)
     \<and> ucast (min_base_fee c) \<le> max_fee_per_gas api tx"

definition entry_ok :: "'tx tx_api \<Rightarrow> pool_config \<Rightarrow> 'tx pool \<Rightarrow> b256 \<Rightarrow> 'tx pooled_tx \<Rightarrow> bool" where
  "entry_ok api c pl h p \<longleftrightarrow> pt_hash p = h \<and> tx_hash api (pt_tx p) = h
     \<and> recover_signer api (pt_tx p) = Some (pt_sender p) \<and> pt_size p = encode_2718_len api (pt_tx p)
     \<and> tx_ok api c (pt_tx p) \<and> bt_get (pt_nonce api p) (sender_nonces pl (pt_sender p)) = Some h"

definition pool_ok :: "'tx tx_api \<Rightarrow> pool_config \<Rightarrow> 'tx pool \<Rightarrow> bool" where
  "pool_ok api c pl \<longleftrightarrow>
     bt_wf (by_hash pl) \<and> bt_wf (by_sender pl)
     \<and> (\<forall>s m. bt_get s (by_sender pl) = Some m \<longrightarrow> bt_wf m \<and> m \<noteq> [])
     \<and> (\<forall>h p. bt_get h (by_hash pl) = Some p \<longrightarrow> entry_ok api c pl h p)
     \<and> (\<forall>s n h. bt_get n (sender_nonces pl s) = Some h \<longrightarrow>
          (\<exists>p. bt_get h (by_hash pl) = Some p \<and> pt_sender p = s \<and> pt_nonce api p = n))
     \<and> pl_bytes pl = sum_list (map (pt_size \<circ> snd) (by_hash pl))
     \<and> length (by_hash pl) \<le> max_txs c"

lemma bt_sum_remove:
  "bt_wf m \<Longrightarrow> bt_get k m = Some v
     \<Longrightarrow> sum_list (map (f \<circ> snd) (bt_remove k m)) = sum_list (map (f \<circ> snd) m) - (f v :: nat)
       \<and> f v \<le> sum_list (map (f \<circ> snd) m) \<and> length m = Suc (length (bt_remove k m))"
proof (induction m)
  case (Cons p m)
  have wf: "bt_wf m" and lt: "\<forall>q\<in>set m. fst p < fst q" using Cons.prems by (auto simp: bt_wf_def)
  show ?case
  proof (cases "fst p = k")
    case True
    then have "bt_remove k m = m" using lt by (auto simp: bt_remove_def filter_id_conv)
    then have "bt_remove k (p # m) = m" using True by (simp add: bt_remove_def)
    then show ?thesis using True Cons.prems by (cases p) (simp add: bt_get_def)
  next
    case False
    then have "bt_get k m = Some v" using Cons.prems by (cases p) (simp add: bt_get_def)
    from Cons.IH [OF wf this] show ?thesis using False by (simp add: bt_remove_def)
  qed
qed simp

lemma bt_sum_insert:
  "bt_wf m \<Longrightarrow> bt_get k m = None
     \<Longrightarrow> sum_list (map (f \<circ> snd) (bt_insert k v m)) = sum_list (map (f \<circ> snd) m) + (f v :: nat)
       \<and> length (bt_insert k v m) = Suc (length m)"
proof (induction m)
  case (Cons p m)
  have wf: "bt_wf m" using Cons.prems by (auto simp: bt_wf_def)
  have "fst p \<noteq> k" "bt_get k m = None" using Cons.prems by (cases p; auto simp: bt_get_def split: if_splits)+
  then show ?case using Cons.IH wf by (cases p) auto
qed simp

lemma sender_nonces_wf: "pool_ok api c pl \<Longrightarrow> bt_wf (sender_nonces pl s)"
  by (auto simp: pool_ok_def sender_nonces_def split: option.splits)

lemma pool_slotD:
  "pool_ok api c pl \<Longrightarrow> bt_get n (sender_nonces pl s) = Some h
     \<Longrightarrow> \<exists>p. bt_get h (by_hash pl) = Some p \<and> pt_sender p = s \<and> pt_nonce api p = n"
  unfolding pool_ok_def by blast

lemma pool_ok_new: "pool_ok api c pool_new"
  by (simp add: pool_ok_def pool_new_def sender_nonces_def)

lemma inner_remove_by_hash [simp]: "by_hash (inner_remove api h pl) = bt_remove h (by_hash pl)"
proof (cases "bt_get h (by_hash pl)")
  case None
  then have "\<forall>q\<in>set (by_hash pl). fst q \<noteq> h" by (auto simp: bt_get_def map_of_eq_None_iff)
  then have "bt_remove h (by_hash pl) = by_hash pl" by (simp add: bt_remove_def)
  then show ?thesis using None by (simp add: inner_remove_def)
qed (simp add: inner_remove_def Let_def split: option.splits)

lemma bt_empty_iff: "m = [] \<longleftrightarrow> (\<forall>k. bt_get k m = None)"
  by (cases m) (auto simp: bt_get_def)

lemma sender_nonces_remove:
  assumes "bt_get h (by_hash pl) = Some p"
  shows "bt_get n (sender_nonces (inner_remove api h pl) s)
    = (if s = pt_sender p \<and> n = pt_nonce api p then None else bt_get n (sender_nonces pl s))"
proof (cases "bt_get (pt_sender p) (by_sender pl)")
  case None
  then show ?thesis using assms by (auto simp: inner_remove_def sender_nonces_def)
next
  case (Some m)
  have e: "bt_remove (pt_nonce api p) m = [] \<Longrightarrow> n \<noteq> pt_nonce api p \<Longrightarrow> bt_get n m = None"
    using bt_get_remove [of n "pt_nonce api p" m] by auto
  show ?thesis using assms Some e
    by (simp add: inner_remove_def sender_nonces_def Let_def bt_simps)
qed

lemma inner_remove_none: "bt_get h (by_hash pl) = None \<Longrightarrow> inner_remove api h pl = pl"
  by (simp add: inner_remove_def)

lemma by_sender_remove:
  assumes "pool_ok api c pl"
  shows "bt_wf (by_sender (inner_remove api h pl))"
    and "bt_get s (by_sender (inner_remove api h pl)) = Some m \<Longrightarrow> bt_wf m \<and> m \<noteq> []"
  using assms
  by (auto simp: inner_remove_def pool_ok_def Let_def bt_simps bt_wf_insert bt_wf_remove split: option.splits if_splits)

lemma inner_remove_ok:
  assumes ok: "pool_ok api c pl"
  shows "pool_ok api c (inner_remove api h pl)"
proof (cases "bt_get h (by_hash pl)")
  case None
  then show ?thesis using ok by (simp add: inner_remove_none)
next
  case (Some p)
  note sn = sender_nonces_remove [OF Some, of _ api]
  have wf: "bt_wf (by_hash pl)" using ok by (simp add: pool_ok_def)
  have b: "pl_bytes (inner_remove api h pl) = pl_bytes pl - pt_size p"
    using Some by (simp add: inner_remove_def Let_def split: option.splits)
  have idx: "bt_get n (sender_nonces pl s) = Some h \<Longrightarrow> s = pt_sender p \<and> n = pt_nonce api p" for s n
    using ok Some unfolding pool_ok_def by fastforce
  have entry: "entry_ok api c (inner_remove api h pl) h' p'"
    if "bt_get h' (bt_remove h (by_hash pl)) = Some p'" for h' p'
  proof -
    have "h' \<noteq> h" "entry_ok api c pl h' p'" using that ok by (auto simp: bt_simps pool_ok_def split: if_splits)
    moreover have "entry_ok api c pl h p" using ok Some by (simp add: pool_ok_def)
    ultimately show ?thesis by (auto simp: entry_ok_def sn)
  qed
  have backw: "\<exists>p'. bt_get h' (bt_remove h (by_hash pl)) = Some p' \<and> pt_sender p' = s \<and> pt_nonce api p' = n"
    if "bt_get n (sender_nonces (inner_remove api h pl) s) = Some h'" for s n h'
  proof -
    have "bt_get n (sender_nonces pl s) = Some h'" "\<not> (s = pt_sender p \<and> n = pt_nonce api p)"
      using that by (auto simp: sn split: if_splits)
    then show ?thesis using ok idx [of n s] by (auto simp: pool_ok_def bt_simps)
  qed
  show ?thesis unfolding pool_ok_def
    using by_sender_remove [OF ok, where h = h] bt_sum_remove [OF wf Some, of pt_size] ok b entry backw
    by (simp add: pool_ok_def bt_wf_remove)
qed

lemma fold_remove_ok: "pool_ok api c pl \<Longrightarrow> pool_ok api c (fold (inner_remove api) hs pl)"
  by (induction hs arbitrary: pl) (auto intro: inner_remove_ok)

lemma pool_remove_ok: "pool_ok api c pl \<Longrightarrow> pool_ok api c (pool_remove api hs pl)"
  by (simp add: pool_remove_def fold_remove_ok)

text \<open>Removing transactions of one sender leaves the slots of the others.\<close>

lemma by_sender_fold_remove:
  assumes "\<forall>h \<in> set hs. \<forall>p. bt_get h (by_hash pl) = Some p \<longrightarrow> pt_sender p = s" "s' \<noteq> s"
  shows "bt_get s' (by_sender (fold (inner_remove api) hs pl)) = bt_get s' (by_sender pl)"
  using assms(1)
proof (induction hs arbitrary: pl)
  case (Cons h hs)
  have "bt_get s' (by_sender (inner_remove api h pl)) = bt_get s' (by_sender pl)"
    using Cons.prems assms(2)
    by (auto simp: inner_remove_def Let_def bt_simps split: option.splits if_splits)
  moreover have "\<forall>g \<in> set hs. \<forall>p. bt_get g (by_hash (inner_remove api h pl)) = Some p \<longrightarrow> pt_sender p = s"
    using Cons.prems by (auto simp: bt_simps split: if_splits)
  ultimately show ?case using Cons.IH [of "inner_remove api h pl"] by simp
qed simp

lemma drop_stale_ok:
  assumes ok: "pool_ok api c pl" and m: "bt_get s (by_sender pl) = Some m"
  obtains pl' where "drop_stale api state s pl = Some pl'" "pool_ok api c pl'"
    "\<And>s'. s' \<noteq> s \<Longrightarrow> bt_get s' (by_sender pl') = bt_get s' (by_sender pl)"
proof -
  let ?hs = "stale_hashes (fst (state s)) m"
  have wf: "bt_wf m" using ok m by (simp add: pool_ok_def)
  have "pt_sender p = s" if "h \<in> set ?hs" "bt_get h (by_hash pl) = Some p" for h p
  proof -
    from that(1) obtain n where "(n, h) \<in> set m" by (auto simp: stale_hashes_def)
    then have "bt_get n (sender_nonces pl s) = Some h" using m wf by (simp add: sender_nonces_def bt_get_iff)
    from pool_slotD [OF ok this] that(2) show ?thesis by auto
  qed
  then have "\<And>s'. s' \<noteq> s \<Longrightarrow> bt_get s' (by_sender (fold (inner_remove api) ?hs pl)) = bt_get s' (by_sender pl)"
    by (intro by_sender_fold_remove [of _ _ s]) blast
  with fold_remove_ok [OF ok] m show ?thesis by (intro that [of "fold (inner_remove api) ?hs pl"]) (simp_all add: drop_stale_def)
qed

lemma on_new_block_ok:
  assumes "pool_ok api c pl" "mset senders = mset (map fst (by_sender pl))"
  shows "\<exists>pl'. on_new_block api senders state pl = Some pl' \<and> pool_ok api c pl'"
proof -
  have "\<exists>pl'. for_each (drop_stale api state) ss pl = Some pl' \<and> pool_ok api c pl'"
    if "distinct ss" "\<forall>s \<in> set ss. bt_get s (by_sender pl) \<noteq> None" for ss
    using assms(1) that
  proof (induction ss arbitrary: pl)
    case (Cons s ss)
    then obtain m where "bt_get s (by_sender pl) = Some m" by auto
    from drop_stale_ok [OF Cons.prems(1) this, of state] obtain pl' where
      pl': "drop_stale api state s pl = Some pl'" "pool_ok api c pl'"
      "\<And>s'. s' \<noteq> s \<Longrightarrow> bt_get s' (by_sender pl') = bt_get s' (by_sender pl)" by metis
    have "\<forall>s' \<in> set ss. bt_get s' (by_sender pl') \<noteq> None" using Cons.prems(2,3) pl'(3) by (metis distinct.simps(2) list.set_intros(2))
    with Cons.IH [OF pl'(2)] Cons.prems(2) pl'(1) show ?case by simp
  qed simp
  moreover have "distinct (map fst (by_sender pl))"
    using assms(1) by (simp add: pool_ok_def bt_wf_def strict_sorted_iff)
  then have "distinct senders" using mset_eq_imp_distinct_iff [OF assms(2)] by simp
  moreover have "\<forall>s \<in> set senders. bt_get s (by_sender pl) \<noteq> None"
    unfolding mset_eq_setD [OF assms(2)] by (auto simp: bt_get_def map_of_eq_None_iff)
  ultimately show ?thesis by (simp add: on_new_block_def)
qed

lemma sender_nonces_insert:
  "sender_nonces (pool_insert api tx s pl) s' =
     (if s' = s then bt_insert (nonce_of api tx) (tx_hash api tx) (sender_nonces pl s) else sender_nonces pl s')"
  by (simp add: pool_insert_def sender_nonces_def Let_def bt_simps)

lemma bt_insert_not_Nil [simp]: "bt_insert k v m \<noteq> []"
  by (induction k v m rule: bt_insert.induct) auto

lemma pool_insert_ok:
  assumes ok: "pool_ok api c pl" and new: "bt_get (tx_hash api tx) (by_hash pl) = None"
    and free: "bt_get (nonce_of api tx) (sender_nonces pl s) = None"
    and sg: "recover_signer api tx = Some s" and tx: "tx_ok api c tx" and room: "length (by_hash pl) < max_txs c"
  shows "pool_ok api c (pool_insert api tx s pl)"
proof -
  define p where "p = \<lparr>pt_tx = tx, pt_sender = s, pt_hash = tx_hash api tx, pt_size = encode_2718_len api tx\<rparr>"
  let ?pl = "pool_insert api tx s pl"
  have bh: "by_hash ?pl = bt_insert (tx_hash api tx) p (by_hash pl)"
    and bs: "by_sender ?pl = bt_insert s (bt_insert (nonce_of api tx) (tx_hash api tx) (sender_nonces pl s)) (by_sender pl)"
    and bb: "pl_bytes ?pl = pl_bytes pl + pt_size p"
    by (simp_all add: pool_insert_def p_def Let_def)
  have wf: "bt_wf (by_hash pl)" using ok by (simp add: pool_ok_def)
  have ps: "pt_sender p = s" "pt_nonce api p = nonce_of api tx" by (simp_all add: p_def pt_nonce_def)
  have entry: "entry_ok api c ?pl h q" if "bt_get h (by_hash ?pl) = Some q" for h q
  proof (cases "h = tx_hash api tx")
    case True
    then have "q = p" using that by (simp add: bh bt_simps)
    then show ?thesis using True sg tx by (simp add: entry_ok_def sender_nonces_insert bt_simps p_def pt_nonce_def)
  next
    case False
    then have "entry_ok api c pl h q" using that ok by (simp add: bh bt_simps pool_ok_def)
    then show ?thesis using free by (auto simp: entry_ok_def sender_nonces_insert bt_simps)
  qed
  have backw: "\<exists>q. bt_get h (by_hash ?pl) = Some q \<and> pt_sender q = s' \<and> pt_nonce api q = n"
    if "bt_get n (sender_nonces ?pl s') = Some h" for s' n h
  proof (cases "s' = s \<and> n = nonce_of api tx")
    case True
    then show ?thesis using that ps by (auto simp: sender_nonces_insert bh bt_simps)
  next
    case False
    then have "bt_get n (sender_nonces pl s') = Some h"
      using that by (auto simp: sender_nonces_insert bt_simps split: if_splits)
    then obtain q where "bt_get h (by_hash pl) = Some q" "pt_sender q = s'" "pt_nonce api q = n"
      using pool_slotD [OF ok] by blast
    then show ?thesis using new by (auto simp: bh bt_simps)
  qed
  have mp: "bt_wf m \<and> m \<noteq> []" if "bt_get s' (by_sender ?pl) = Some m" for s' m
    using that ok sender_nonces_wf [OF ok, of s]
    by (auto simp: bs bt_simps pool_ok_def bt_wf_insert split: if_splits)
  show ?thesis unfolding pool_ok_def
    using ok bt_sum_insert [OF wf new, of pt_size p] room entry backw mp
    by (simp add: pool_ok_def bb) (simp add: bh bs bt_wf_insert)
qed

lemma admissibleD:
  assumes "admissible api c tx state = Inr s"
  shows "tx_ok api c tx" "recover_signer api tx = Some s"
    and "fst (state s) \<le> nonce_of api tx" "nonce_of api tx < fst (state s) + of_nat (max_per_sender c)"
    and "max_cost api tx \<le> snd (state s)"
  using assms
  by (auto simp: admissible_def tx_ok_def not_less Let_def split: if_splits option.splits prod.splits)

text \<open>The pool after removing the transaction that holds the slot of \<open>tx\<close>, when there is one.\<close>

lemma pool_add_ok:
  assumes ok: "pool_ok api c pl"
  obtains r pl' where "pool_add api c tx state pl = Some (r, pl')" "pool_ok api c pl'"
proof (cases "admissible api c tx state")
  case (Inl e)
  then show ?thesis using that ok by (simp add: pool_add_def)
next
  case (Inr s)
  note ad = admissibleD [OF Inr]
  show ?thesis
  proof (cases "bt_has (tx_hash api tx) (by_hash pl)")
    case True
    then show ?thesis using that ok Inr by (simp add: pool_add_def Let_def)
  next
    case False
    then have new: "bt_get (tx_hash api tx) (by_hash pl) = None" by (simp add: bt_has_def)
    show ?thesis
    proof (cases "bt_get (nonce_of api tx) (sender_nonces pl s)")
      case None
      then show ?thesis using that Inr False ok pool_insert_ok [OF ok new None ad(2,1)]
        by (cases "length (by_hash pl) \<ge> max_txs c \<or> pl_bytes pl + encode_2718_len api tx > max_bytes c")
          (auto simp: pool_add_def Let_def not_le)
    next
      case (Some oh)
      then obtain p where p: "bt_get oh (by_hash pl) = Some p" "pt_sender p = s" "pt_nonce api p = nonce_of api tx"
        using pool_slotD [OF ok] by blast
      let ?pl = "inner_remove api oh pl"
      have "pool_ok api c ?pl" by (rule inner_remove_ok [OF ok])
      moreover have "length (by_hash ?pl) < max_txs c"
        using ok bt_sum_remove [of "by_hash pl" oh p pt_size] p by (simp add: pool_ok_def)
      moreover have "bt_get (tx_hash api tx) (by_hash ?pl) = None" using new by (simp add: bt_simps)
      moreover have "bt_get (nonce_of api tx) (sender_nonces ?pl s) = None"
        using sender_nonces_remove [OF p(1), of "nonce_of api tx" api s] p by simp
      ultimately have "pool_ok api c (pool_insert api tx s ?pl)" by (intro pool_insert_ok ad)
      then show ?thesis using that Inr False Some p ok
        by (cases "tip_or_fee api tx < bump c (tip_or_fee api (pt_tx p))
             \<or> max_fee_per_gas api tx < bump c (max_fee_per_gas api (pt_tx p))")
          (auto simp: pool_add_def Let_def)
    qed
  qed
qed

lemma add_raw_ok:
  assumes "pool_ok api c pl"
  obtains r out pl' where "add_raw api c raw state pl = Some (r, out, pl')" "pool_ok api c pl'"
proof -
  have "\<exists>r pl'. add_raw_inner api c raw state pl = Some (r, pl') \<and> pool_ok api c pl'"
  proof (cases "decode_2718 api raw")
    case (Some d)
    obtain tx buf where d: "d = (tx, buf)" by (cases d)
    obtain r pl' where "pool_add api c tx state pl = Some (r, pl')" "pool_ok api c pl'"
      using pool_add_ok [OF assms] by metis
    then show ?thesis using assms Some d by (simp add: add_raw_inner_def)
  qed (simp add: add_raw_inner_def assms)
  then obtain r pl' where "add_raw_inner api c raw state pl = Some (r, pl')" "pool_ok api c pl'" by blast
  then show ?thesis using that by (cases r) (auto simp: add_raw_def)
qed

text \<open>
  A pool is used by any interleaving of these calls, the account state read anew each time. A new block
  carries the order in which the map of the senders is walked, as a rearrangement of its keys.
\<close>

datatype 'tx pool_op =
    OpAdd 'tx account_state
  | OpAddRaw "byte list" account_state
  | OpNewBlock "address list \<Rightarrow> address list" account_state
  | OpRemove "b256 list"

fun pool_step :: "'tx tx_api \<Rightarrow> pool_config \<Rightarrow> 'tx pool_op \<Rightarrow> 'tx pool \<Rightarrow> 'tx pool option" where
  "pool_step api c (OpAdd tx state) pl = map_option snd (pool_add api c tx state pl)"
| "pool_step api c (OpAddRaw raw state) pl = map_option (snd \<circ> snd) (add_raw api c raw state pl)"
| "pool_step api c (OpNewBlock order state) pl = on_new_block api (order (map fst (by_sender pl))) state pl"
| "pool_step api c (OpRemove hs) pl = Some (pool_remove api hs pl)"

fun op_ok :: "'tx pool_op \<Rightarrow> bool" where
  "op_ok (OpNewBlock order state) \<longleftrightarrow> (\<forall>xs. mset (order xs) = mset xs)"
| "op_ok op \<longleftrightarrow> True"

fun pool_run :: "'tx tx_api \<Rightarrow> pool_config \<Rightarrow> 'tx pool_op list \<Rightarrow> 'tx pool \<Rightarrow> 'tx pool option" where
  "pool_run api c [] pl = Some pl"
| "pool_run api c (op # ops) pl = do { pl \<leftarrow> pool_step api c op pl; pool_run api c ops pl }"

lemma pool_step_ok: "pool_ok api c pl \<Longrightarrow> op_ok op \<Longrightarrow> \<exists>pl'. pool_step api c op pl = Some pl' \<and> pool_ok api c pl'"
proof (cases op)
  case (OpAdd tx state)
  assume "pool_ok api c pl"
  then obtain r pl' where "pool_add api c tx state pl = Some (r, pl')" "pool_ok api c pl'" by (rule pool_add_ok)
  then show ?thesis using OpAdd by simp
next
  case (OpAddRaw raw state)
  assume "pool_ok api c pl"
  then obtain r out pl' where "add_raw api c raw state pl = Some (r, out, pl')" "pool_ok api c pl'" by (rule add_raw_ok)
  then show ?thesis using OpAddRaw by simp
next
  case (OpNewBlock order state)
  assume "pool_ok api c pl" "op_ok op"
  then show ?thesis using on_new_block_ok [of api c pl "order (map fst (by_sender pl))" state] OpNewBlock by simp
qed (auto intro: pool_remove_ok)

lemma pool_run_ok: "pool_ok api c pl \<Longrightarrow> \<forall>op \<in> set ops. op_ok op \<Longrightarrow> \<exists>pl'. pool_run api c ops pl = Some pl' \<and> pool_ok api c pl'"
proof (induction ops arbitrary: pl)
  case (Cons op ops)
  then show ?case using pool_step_ok [of api c pl op] by auto
qed simp

text \<open>
  C25. Whatever sequence of transactions is offered to the pool and whatever blocks arrive, in whatever
  order the senders are walked at each of them, no call panics (every entry indexed by \<^verbatim>\<open>by_hash[..]\<close> and
  \<^verbatim>\<open>by_sender[..]\<close> is there) and the pool stays well formed: the index by sender and nonce and the index by hash list the
  same transactions, no slot of a sender is empty, every pooled transaction is signed by the sender it
  is filed under, for this chain, within the gas range and above its intrinsic gas and the minimum fee,
  the byte counter is the sum of the sizes (so its subtraction never underflows), and there are at most
  \<open>max_txs\<close> transactions.
\<close>

theorem pool_stays_wf:
  assumes "\<forall>op \<in> set ops. op_ok op"
  shows "\<exists>pl. pool_run api c ops pool_new = Some pl \<and> pool_ok api c pl"
  using pool_run_ok [OF pool_ok_new assms] by blast

subsection \<open>Admission and replacement\<close>

definition pooled :: "'tx pool \<Rightarrow> address \<Rightarrow> u64 \<Rightarrow> 'tx pooled_tx option" where
  "pooled pl s n = Option.bind (bt_get n (sender_nonces pl s)) (\<lambda>h. bt_get h (by_hash pl))"

lemma unat_bump:
  assumes "unat x < 2 ^ 124" "price_bump_pct c = 10"
  shows "unat (bump c x) = unat x + unat x div 10"
proof -
  have "unat (x * 10) = unat x * 10" using assms(1) by (simp add: unat_word_ariths)
  then have d: "unat (x * 10 div 100) = unat x div 10" by (simp add: unat_div)
  have "unat x + unat x div 10 < 2 ^ 128" using assms(1) by simp
  then show ?thesis using assms(2) d by (simp add: bump_def unat_word_ariths)
qed

lemma pool_get_insert:
  "pool_get h (pool_insert api tx s pl) =
     (if h = tx_hash api tx
      then Some \<lparr>pt_tx = tx, pt_sender = s, pt_hash = tx_hash api tx, pt_size = encode_2718_len api tx\<rparr>
      else pool_get h pl)"
  by (simp add: pool_get_def pool_insert_def Let_def bt_simps)

lemma pool_get_remove: "pool_get h (inner_remove api h' pl) = (if h = h' then None else pool_get h pl)"
  by (simp add: pool_get_def bt_simps)

lemma pl_bytes_remove:
  "bt_get h (by_hash pl) = Some p \<Longrightarrow> pl_bytes (inner_remove api h pl) = pl_bytes pl - pt_size p"
  by (simp add: inner_remove_def Let_def split: option.splits)

lemma admissible_error: "admissible api c tx state = Inl e \<Longrightarrow> e \<notin> {AlreadyKnown, Underpriced, PoolFull}"
  by (auto simp: admissible_def Let_def split: if_splits option.splits prod.splits)

text \<open>
  C26. What an admission does. An error leaves the pool as it was, and it is one of the checks of the
  transaction against the account state, a known hash, a replacement priced too low, or a full pool;
  only a transaction that replaces none is refused for a full pool. Success files the transaction under
  its hash and its recovered sender, whose nonce window and balance it respects, and touches no other
  entry but the one that held the same nonce of the same sender. Without such an entry the pool stays
  within both limits. With one, the new tip and fee cap are at least 10% higher (fees below \<open>2 ^ 124\<close>
  wei, where the bump does not overflow) and the byte counter moves by the difference of the sizes,
  whatever \<open>max_bytes\<close> says.
\<close>

theorem pool_add_effect:
  assumes ok: "pool_ok api c pl" and add: "pool_add api c tx state pl = Some (r, pl')" and pct: "price_bump_pct c = 10"
  shows "case r of Inl e \<Rightarrow> pl' = pl \<and>
       (admissible api c tx state = Inl e \<and> e \<notin> {AlreadyKnown, Underpriced, PoolFull}
        \<or> (\<exists>s. admissible api c tx state = Inr s \<and>
             (e = AlreadyKnown \<and> pool_get (tx_hash api tx) pl \<noteq> None
              \<or> e = Underpriced \<and> (\<exists>old. pooled pl s (nonce_of api tx) = Some old
                  \<and> (tip_or_fee api tx < bump c (tip_or_fee api (pt_tx old))
                     \<or> max_fee_per_gas api tx < bump c (max_fee_per_gas api (pt_tx old))))
              \<or> e = PoolFull \<and> pooled pl s (nonce_of api tx) = None
                  \<and> (max_txs c \<le> pool_len pl \<or> max_bytes c < pl_bytes pl + encode_2718_len api tx))))
    | Inr h \<Rightarrow> h = tx_hash api tx \<and> pool_get h pl = None \<and>
       (\<exists>s. recover_signer api tx = Some s \<and> tx_ok api c tx
         \<and> fst (state s) \<le> nonce_of api tx \<and> nonce_of api tx < fst (state s) + of_nat (max_per_sender c)
         \<and> max_cost api tx \<le> snd (state s)
         \<and> pool_get h pl' = Some \<lparr>pt_tx = tx, pt_sender = s, pt_hash = h, pt_size = encode_2718_len api tx\<rparr>
         \<and> (case pooled pl s (nonce_of api tx) of
             None \<Rightarrow> (\<forall>h'. h' \<noteq> h \<longrightarrow> pool_get h' pl' = pool_get h' pl)
               \<and> pool_len pl' \<le> max_txs c \<and> pl_bytes pl' = pl_bytes pl + encode_2718_len api tx \<and> pl_bytes pl' \<le> max_bytes c
           | Some old \<Rightarrow> (\<forall>h'. h' \<noteq> h \<longrightarrow> pool_get h' pl' = (if h' = pt_hash old then None else pool_get h' pl))
               \<and> (unat (tip_or_fee api (pt_tx old)) < 2 ^ 124 \<longrightarrow>
                   unat (tip_or_fee api (pt_tx old)) + unat (tip_or_fee api (pt_tx old)) div 10 \<le> unat (tip_or_fee api tx))
               \<and> (unat (max_fee_per_gas api (pt_tx old)) < 2 ^ 124 \<longrightarrow>
                   unat (max_fee_per_gas api (pt_tx old)) + unat (max_fee_per_gas api (pt_tx old)) div 10 \<le> unat (max_fee_per_gas api tx))
               \<and> pl_bytes pl' + pt_size old = pl_bytes pl + encode_2718_len api tx))"
proof (cases r)
  case (Inl e)
  show ?thesis
  proof (cases "admissible api c tx state")
    case (Inl e')
    then show ?thesis using add \<open>r = Inl e\<close> admissible_error [OF Inl] by (simp add: pool_add_def)
  next
    case (Inr s)
    then show ?thesis using add \<open>r = Inl e\<close>
      by (auto simp: pool_add_def Let_def pooled_def pool_get_def pool_len_def bt_has_def
          split: if_splits option.splits)
  qed
next
  case r: (Inr h)
  obtain s where s: "admissible api c tx state = Inr s"
    using add r by (auto simp: pool_add_def split: sum.splits)
  note ad = admissibleD [OF s]
  have h: "h = tx_hash api tx" "bt_get h (by_hash pl) = None"
    using add r s by (auto simp: pool_add_def Let_def bt_has_def split: if_splits option.splits)
  show ?thesis
  proof (cases "bt_get (nonce_of api tx) (sender_nonces pl s)")
    case None
    then have "pl' = pool_insert api tx s pl" "length (by_hash pl) < max_txs c"
        "pl_bytes pl + encode_2718_len api tx \<le> max_bytes c"
      using add r s by (auto simp: pool_add_def Let_def split: if_splits)
    moreover from this have "length (by_hash pl') \<le> max_txs c"
      using pool_insert_ok [OF ok h(2) [unfolded h(1)] None ad(2,1)] by (simp add: pool_ok_def)
    ultimately show ?thesis using r h ad None
      by (simp add: pool_get_insert pooled_def pool_len_def) (simp add: pool_get_def pool_insert_def Let_def)
  next
    case (Some oh)
    obtain p where p: "bt_get oh (by_hash pl) = Some p" "pt_sender p = s" "pt_nonce api p = nonce_of api tx"
      using pool_slotD [OF ok Some] by blast
    have ph: "pt_hash p = oh" using ok p(1) by (simp add: pool_ok_def entry_ok_def)
    have pl': "pl' = pool_insert api tx s (inner_remove api oh pl)"
      and price: "\<not> tip_or_fee api tx < bump c (tip_or_fee api (pt_tx p))"
        "\<not> max_fee_per_gas api tx < bump c (max_fee_per_gas api (pt_tx p))"
      using add r s Some p by (auto simp: pool_add_def Let_def split: if_splits)
    have sz: "pt_size p \<le> pl_bytes pl"
      using bt_sum_remove [of "by_hash pl" oh p pt_size] ok p(1) by (simp add: pool_ok_def)
    have "pl_bytes pl' + pt_size p = pl_bytes pl + encode_2718_len api tx"
      using sz pl_bytes_remove [OF p(1), of api] by (simp add: pl' pool_insert_def Let_def)
    moreover have "unat (tip_or_fee api (pt_tx p)) < 2 ^ 124 \<longrightarrow>
        unat (tip_or_fee api (pt_tx p)) + unat (tip_or_fee api (pt_tx p)) div 10 \<le> unat (tip_or_fee api tx)"
      using price(1) unat_bump [OF _ pct] by (metis not_less word_less_nat_alt)
    moreover have "unat (max_fee_per_gas api (pt_tx p)) < 2 ^ 124 \<longrightarrow>
        unat (max_fee_per_gas api (pt_tx p)) + unat (max_fee_per_gas api (pt_tx p)) div 10 \<le> unat (max_fee_per_gas api tx)"
      using price(2) unat_bump [OF _ pct] by (metis not_less word_less_nat_alt)
    ultimately show ?thesis using r h ad Some p ph pl'
      by (simp add: pool_get_insert pool_get_remove pooled_def) (simp add: pool_get_def)
  qed
qed

subsection \<open>Block-building order\<close>

definition blocked :: "'tx tx_api \<Rightarrow> u64 \<Rightarrow> 'tx pooled_tx option \<Rightarrow> bool" where
  "blocked api base_fee slot \<longleftrightarrow> (case slot of None \<Rightarrow> True | Some p \<Rightarrow> pt_tip api p base_fee = None)"

text \<open>
  The executable run of \<open>s\<close>: consecutive nonces from the account nonce on, up to the first one that is
  missing or whose fee cap is below the base fee.
\<close>

definition exec_run :: "'tx tx_api \<Rightarrow> u64 \<Rightarrow> (u64 \<Rightarrow> 'tx pooled_tx option) \<Rightarrow> u64 \<Rightarrow> 'tx pooled_tx list \<Rightarrow> bool" where
  "exec_run api base_fee slot start run \<longleftrightarrow>
     (\<forall>k < length run. unat start + k < 2 ^ 64 \<and> slot (start + of_nat k) = Some (run ! k)
        \<and> pt_tip api (run ! k) base_fee \<noteq> None)
     \<and> (unat start + length run < 2 ^ 64 \<longrightarrow> blocked api base_fee (slot (start + of_nat (length run))))"

lemma exec_run_Cons:
  assumes "exec_run api b slot (start + 1) run" "unat start + 1 < 2 ^ 64" "slot start = Some p" "pt_tip api p b \<noteq> None"
  shows "exec_run api b slot start (p # run)"
proof -
  have u: "unat (start + 1) = unat start + 1" using assms(2) by (simp add: unat_word_ariths)
  have "unat start + k < 2 ^ 64 \<and> slot (start + of_nat k) = Some ((p # run) ! k) \<and> pt_tip api ((p # run) ! k) b \<noteq> None"
    if "k < length (p # run)" for k
  proof (cases k)
    case 0
    then show ?thesis using assms by simp
  next
    case (Suc j)
    then show ?thesis using assms(1) that u by (simp add: exec_run_def add.assoc)
  qed
  moreover have "blocked api b (slot (start + of_nat (length (p # run))))" if "unat start + length (p # run) < 2 ^ 64"
    using assms(1) that u by (simp add: exec_run_def add.assoc)
  ultimately show ?thesis by (simp add: exec_run_def)
qed

lemma exec_run_cong:
  assumes "exec_run api b slot start run" "\<And>n. start \<le> n \<Longrightarrow> slot' n = slot n"
  shows "exec_run api b slot' start run"
proof -
  have "slot' (start + of_nat k) = slot (start + of_nat k)" if "unat start + k < 2 ^ 64" for k
  proof -
    have "unat (start + of_nat k) = unat start + k" using that by (simp add: unat_word_ariths unat_of_nat_less)
    then show ?thesis using assms(2) by (simp add: word_le_nat_alt)
  qed
  then show ?thesis using assms(1) by (simp add: exec_run_def)
qed

lemma run_from_exec:
  assumes "bt_wf m" "\<forall>q \<in> set m. expected \<le> fst q" "\<forall>q \<in> set m. bt_get (snd q) (by_hash pl) \<noteq> None"
  shows "\<exists>run. run_from api b pl expected m = Some run
    \<and> exec_run api b (\<lambda>n. Option.bind (bt_get n m) (\<lambda>h. bt_get h (by_hash pl))) expected run"
  using assms
proof (induction m arbitrary: expected)
  case Nil
  then show ?case by (simp add: exec_run_def blocked_def)
next
  case (Cons q m)
  obtain n h where q: "q = (n, h)" by (cases q)
  have wf: "bt_wf m" and lt: "\<forall>q \<in> set m. n < fst q" using Cons.prems q by (auto simp: bt_wf_def)
  obtain p where p: "bt_get h (by_hash pl) = Some p" using Cons.prems(3) q by auto
  let ?slot = "\<lambda>m n. Option.bind (bt_get n m) (\<lambda>h. bt_get h (by_hash pl))"
  have miss: "bt_get k m = None" if "k \<le> n" for k
  proof (rule ccontr)
    assume "bt_get k m \<noteq> None"
    then obtain v where "(k, v) \<in> set m" using bt_get_SomeD by fastforce
    then show False using lt that by fastforce
  qed
  have here: "bt_get n (q # m) = Some h" and other: "k \<noteq> n \<Longrightarrow> bt_get k (q # m) = bt_get k m" for k
    by (simp_all add: q bt_get_def)
  show ?case
  proof (cases "n = expected \<and> pt_tip api p b \<noteq> None")
    case False
    then have "run_from api b pl expected (q # m) = Some []" using q p by auto
    moreover have "blocked api b (?slot (q # m) expected)"
    proof (cases "n = expected")
      case True
      then show ?thesis using False here p by (auto simp: blocked_def)
    next
      case ne: False
      then have "expected < n" using Cons.prems(2) q by auto
      then show ?thesis using ne other [of expected] miss [of expected] by (simp add: blocked_def)
    qed
    ultimately show ?thesis by (simp add: exec_run_def)
  next
    case True
    show ?thesis
    proof (cases "m = []")
      case mt: True
      then have "run_from api b pl expected (q # m) = Some [p]" using q p True by simp
      moreover have "expected + 1 \<noteq> n" using True by simp
      ultimately show ?thesis using True mt p q unsigned_less [of expected, where ?'a = nat]
        by (auto simp: exec_run_def blocked_def bt_get_def)
    next
      case mt: False
      then obtain q' where "n < fst q'" using lt by (cases m) auto
      then have u: "unat (expected + 1) = Suc (unat expected)" and le: "\<forall>q \<in> set m. expected + 1 \<le> fst q"
        using True lt unat_Suc_lt [of n "fst q'"] by (auto intro: word_Suc_le)
      obtain run where r: "run_from api b pl (expected + 1) m = Some run"
          "exec_run api b (?slot m) (expected + 1) run"
        using Cons.IH [OF wf le] Cons.prems(3) by auto
      have e: "exec_run api b (?slot (q # m)) (expected + 1) run"
      proof (rule exec_run_cong [OF r(2)])
        fix k :: u64 assume "expected + 1 \<le> k"
        then have "k \<noteq> n" using True u by (auto simp: word_le_nat_alt)
        then show "?slot (q # m) k = ?slot m k" by (simp add: other)
      qed
      have lt64: "unat expected + 1 < 2 ^ 64" using u unsigned_less [of "expected + 1", where ?'a = nat] by simp
      have "exec_run api b (?slot (q # m)) expected (p # run)"
        by (rule exec_run_Cons [OF e lt64]) (use True here p in auto)
      moreover have "run_from api b pl expected (q # m) = Some (p # run)" using q p True r(1) by simp
      ultimately show ?thesis by blast
    qed
  qed
qed

lemma bt_get_filter_key: "bt_get k (filter (\<lambda>(n, _). P n) m) = (if P k then bt_get k m else None)"
  by (induction m) (auto simp: bt_get_def split: if_splits)

lemma sender_run_exec:
  assumes ok: "pool_ok api c pl"
  shows "\<exists>run. sender_run api b state pl s = Some run \<and> exec_run api b (pooled pl s) (fst (state s)) run"
proof -
  let ?start = "fst (state s)"
  let ?m = "filter (\<lambda>(n, _). n \<ge> ?start) (sender_nonces pl s)"
  have "\<forall>q \<in> set ?m. bt_get (snd q) (by_hash pl) \<noteq> None"
  proof
    fix q assume "q \<in> set ?m"
    then have "bt_get (fst q) (sender_nonces pl s) = Some (snd q)"
      by (simp add: bt_get_iff [OF sender_nonces_wf [OF ok]])
    then show "bt_get (snd q) (by_hash pl) \<noteq> None" using pool_slotD [OF ok] by blast
  qed
  then obtain run where r: "run_from api b pl ?start ?m = Some run"
      "exec_run api b (\<lambda>n. Option.bind (bt_get n ?m) (\<lambda>h. bt_get h (by_hash pl))) ?start run"
    using run_from_exec [of ?m ?start pl api b] bt_wf_filter [OF sender_nonces_wf [OF ok]] by auto
  have "exec_run api b (pooled pl s) ?start run"
    by (rule exec_run_cong [OF r(2)]) (simp add: pooled_def bt_get_filter_key)
  then show ?thesis using r(1) by (simp add: sender_run_def)
qed

text \<open>The abstract order: always the head of a run with the greatest tip.\<close>

inductive greedy_merge :: "('a \<Rightarrow> u128) \<Rightarrow> 'a list list \<Rightarrow> 'a list \<Rightarrow> bool" for tip where
  merge_done: "\<forall>r \<in> set rs. r = [] \<Longrightarrow> greedy_merge tip rs []"
| merge_next: "i < length rs \<Longrightarrow> rs ! i = x # r \<Longrightarrow> (\<forall>r \<in> set rs. r \<noteq> [] \<longrightarrow> tip (hd r) \<le> tip x)
    \<Longrightarrow> greedy_merge tip (rs[i := r]) out \<Longrightarrow> greedy_merge tip rs (x # out)"

lemma greedy_filter:
  "greedy_merge tip rs out \<Longrightarrow> k < length rs \<Longrightarrow> \<forall>i < length rs. \<forall>x \<in> set (rs ! i). P x \<longleftrightarrow> i = k
     \<Longrightarrow> filter P out = rs ! k"
proof (induction rule: greedy_merge.induct)
  case (merge_done rs)
  then show ?case using nth_mem [of k rs] by fastforce
next
  case (merge_next i rs x r out)
  have "\<forall>i' < length (rs[i := r]). \<forall>y \<in> set (rs[i := r] ! i'). P y \<longleftrightarrow> i' = k"
    using merge_next.prems merge_next.hyps(1,2) by (auto simp: nth_list_update)
  then have "filter P out = rs[i := r] ! k" using merge_next.IH merge_next.prems(1) by simp
  moreover have "P x \<longleftrightarrow> i = k" using merge_next.prems(2) merge_next.hyps(1,2) by auto
  ultimately show ?case using merge_next.hyps(1,2) by (cases "i = k") auto
qed

lemma greedy_subset: "greedy_merge tip rs out \<Longrightarrow> set out \<subseteq> \<Union> (set ` set rs)"
proof (induction rule: greedy_merge.induct)
  case (merge_next i rs x r out)
  have mem: "x # r \<in> set rs" using merge_next.hyps(1,2) nth_mem [of i rs] by simp
  then have up: "x \<in> \<Union> (set ` set rs)" "set r \<subseteq> \<Union> (set ` set rs)"
    using UN_upper [of "x # r" "set rs" set] by simp_all
  then have "\<Union> (set ` set (rs[i := r])) \<subseteq> \<Union> (set ` set rs)"
    using set_update_subset_insert [of rs i r] by blast
  then show ?case using merge_next.IH up by auto
qed simp

definition heads :: "'tx tx_api \<Rightarrow> u64 \<Rightarrow> 'tx pooled_tx list list \<Rightarrow> nat list \<Rightarrow> heap_entry set" where
  "heads api b runs cs =
     (\<lambda>i. (tip_or_zero api b (runs ! i ! (cs ! i)), i, cs ! i)) ` {i. i < length runs \<and> cs ! i < length (runs ! i)}"

definition heap_rep :: "'tx tx_api \<Rightarrow> u64 \<Rightarrow> 'tx pooled_tx list list \<Rightarrow> nat list \<Rightarrow> heap_entry list \<Rightarrow> bool" where
  "heap_rep api b runs cs h \<longleftrightarrow> length cs = length runs \<and> distinct h \<and> set h = heads api b runs cs"

lemma headsD:
  "(t, i, j) \<in> heads api b runs cs
     \<longleftrightarrow> i < length runs \<and> j = cs ! i \<and> j < length (runs ! i) \<and> t = tip_or_zero api b (runs ! i ! j)"
  by (auto simp: heads_def)

lemma heads_update:
  assumes "i < length runs" "length cs = length runs" "cs ! i < length (runs ! i)"
  shows "e \<in> heads api b runs (cs[i := Suc (cs ! i)])
    \<longleftrightarrow> Suc (cs ! i) < length (runs ! i) \<and> e = (tip_or_zero api b (runs ! i ! Suc (cs ! i)), i, Suc (cs ! i))
      \<or> e \<in> heads api b runs cs - {(tip_or_zero api b (runs ! i ! (cs ! i)), i, cs ! i)}"
proof -
  obtain t' i' j' where e: "e = (t', i', j')" by (metis prod.exhaust)
  show ?thesis
  proof (cases "i' = i")
    case True
    show ?thesis unfolding e headsD Diff_iff True using assms(1,2,3)
      by (cases "j' = cs ! i"; cases "j' = Suc (cs ! i)") simp_all
  next
    case False
    then show ?thesis unfolding e headsD Diff_iff using assms(2) by simp
  qed
qed

definition left_over :: "'a list list \<Rightarrow> nat list \<Rightarrow> 'a list list" where
  "left_over runs cs = map (\<lambda>i. drop (cs ! i) (runs ! i)) [0..<length runs]"

lemma left_over_0: "left_over runs (replicate (length runs) 0) = runs"
  by (rule nth_equalityI) (simp_all add: left_over_def)

lemma merge_runs_greedy:
  "heap_rep api b runs cs h \<Longrightarrow>
     \<exists>res. merge_runs api b runs h out = Some (out @ res) \<and> greedy_merge (tip_or_zero api b) (left_over runs cs) res"
proof (induction "remaining runs h" arbitrary: cs h out rule: less_induct)
  case less
  let ?tip = "tip_or_zero api b"
  show ?case
  proof (cases "heap_pop h")
    case None
    then have "set h = {}" by simp
    then have none: "\<not> (i < length runs \<and> cs ! i < length (runs ! i))" for i
      using less.prems headsD [of _ i "cs ! i" api b runs cs] by (auto simp: heap_rep_def)
    have "left_over runs cs ! i = []" if "i < length runs" for i
      using none [of i] that by (simp add: left_over_def)
    then have "\<forall>r \<in> set (left_over runs cs). r = []" by (auto simp: in_set_conv_nth left_over_def)
    then have "greedy_merge ?tip (left_over runs cs) []" by (rule merge_done)
    moreover have "merge_runs api b runs h out = Some (out @ [])" using None by (subst merge_runs.simps) (simp add: heap_pop_def)
    ultimately show ?thesis by blast
  next
    case (Some e)
    obtain t i j h' where e: "e = ((t, i, j), h')" by (metis prod.exhaust)
    note pop = heap_popD [OF Some [unfolded e]]
    from pop(1) less.prems have i: "i < length runs" "j = cs ! i" "j < length (runs ! i)" "t = ?tip (runs ! i ! j)"
      and len: "length cs = length runs" by (simp_all add: heap_rep_def headsD)
    define h2 where "h2 = (if j + 1 < length (runs ! i) then (?tip (runs ! i ! (j + 1)), i, j + 1) # h' else h')"
    have sh': "set h' = set h - {(t, i, j)}" "distinct h'" using less.prems pop(2) by (auto simp: heap_rep_def)
    have rep: "heap_rep api b runs (cs[i := Suc j]) h2"
      using less.prems sh' i len heads_update [OF i(1) len, of _ api b]
      by (simp add: heap_rep_def h2_def headsD set_eq_iff)
    have "remaining runs h2 < remaining runs h"
      using merge_measure [OF Some [unfolded e] i(3)] by (simp add: h2_def)
    from less.hyps [OF this rep, of "out @ [runs ! i ! j]"]
    obtain res where res: "merge_runs api b runs h2 (out @ [runs ! i ! j]) = Some ((out @ [runs ! i ! j]) @ res)"
      "greedy_merge ?tip (left_over runs (cs[i := Suc j])) res" by blast
    have "merge_runs api b runs h out = Some (out @ (runs ! i ! j # res))"
      using Some e i(1,3) res(1) by (subst merge_runs.simps) (simp add: h2_def split: if_splits)
    moreover have "greedy_merge ?tip (left_over runs cs) (runs ! i ! j # res)"
    proof (rule merge_next)
      show "i < length (left_over runs cs)" using i by (simp add: left_over_def)
      show "left_over runs cs ! i = runs ! i ! j # drop (Suc j) (runs ! i)"
        using i by (simp add: left_over_def Cons_nth_drop_Suc)
      have "left_over runs (cs[i := Suc j]) = (left_over runs cs)[i := drop (Suc j) (runs ! i)]"
        by (rule nth_equalityI) (use i len in \<open>simp_all add: left_over_def nth_list_update\<close>)
      then show "greedy_merge ?tip ((left_over runs cs)[i := drop (Suc j) (runs ! i)]) res" using res(2) by simp
      show "\<forall>r \<in> set (left_over runs cs). r \<noteq> [] \<longrightarrow> ?tip (hd r) \<le> ?tip (runs ! i ! j)"
      proof (intro ballI impI)
        fix r assume "r \<in> set (left_over runs cs)" "r \<noteq> []"
        then obtain k where k: "k < length runs" "r = drop (cs ! k) (runs ! k)" "cs ! k < length (runs ! k)"
          by (auto simp: left_over_def)
        then have "(?tip (runs ! k ! (cs ! k)), k, cs ! k) \<in> set h" using less.prems by (simp add: heap_rep_def headsD)
        then have "\<not> heap_less (t, i, j) (?tip (runs ! k ! (cs ! k)), k, cs ! k)" by (rule pop(3))
        then have "?tip (runs ! k ! (cs ! k)) \<le> t" by auto
        then show "?tip (hd r) \<le> ?tip (runs ! i ! j)" using k i by (simp add: hd_drop_conv_nth)
      qed
    qed
    ultimately show ?thesis by blast
  qed
qed

lemma collect_runs_map:
  assumes "\<And>s. s \<in> set ss \<Longrightarrow> sender_run api b state pl s = Some (run s)"
  shows "collect_runs api b state pl ss = Some (filter (\<lambda>r. r \<noteq> []) (map run ss))"
  using assms by (induction ss) auto

lemma first_heap_rep:
  "[] \<notin> set runs \<Longrightarrow> heap_rep api b runs (replicate (length runs) 0) (first_heap api b runs)"
proof -
  assume "[] \<notin> set runs"
  then have "\<forall>i < length runs. 0 < length (runs ! i)" by (metis length_greater_0_conv nth_mem)
  then have "{i. i < length runs \<and> replicate (length runs) (0::nat) ! i < length (runs ! i)} = {0..<length runs}" by auto
  then show ?thesis by (auto simp: heap_rep_def first_heap_def heads_def distinct_map inj_on_def)
qed

text \<open>
  C27. A block builder gets the executable transactions of every sender in nonce order: the run of
  consecutive nonces from the account nonce on, cut at the first gap or at the first fee cap below the
  base fee. Across senders it always gets the transaction with the greatest effective tip among the
  next ones of all runs. This holds whatever the iteration order of the sender map, and the call does
  not panic.
\<close>

theorem best_order:
  assumes "pool_ok api c pl" "distinct order" "set order = fst ` set (by_sender pl)"
  shows "\<exists>ps run. best api order base_fee state pl = Some (map (\<lambda>p. (pt_tx p, pt_sender p)) ps)
    \<and> greedy_merge (tip_or_zero api base_fee) (filter (\<lambda>r. r \<noteq> []) (map run order)) ps
    \<and> (\<forall>s. exec_run api base_fee (pooled pl s) (fst (state s)) (run s) \<and> filter (\<lambda>p. pt_sender p = s) ps = run s)"
proof -
  obtain run where run: "\<And>s. sender_run api base_fee state pl s = Some (run s)"
      "\<And>s. exec_run api base_fee (pooled pl s) (fst (state s)) (run s)"
    using sender_run_exec [OF assms(1), of base_fee state] by metis
  let ?runs = "filter (\<lambda>r. r \<noteq> []) (map run order)"
  have mine: "pt_sender p = s" if p: "p \<in> set (run s)" for p s
  proof -
    obtain k where "k < length (run s)" "run s ! k = p" using p by (auto simp: in_set_conv_nth)
    then have "pooled pl s (fst (state s) + of_nat k) = Some p" using run(2) [of s] by (auto simp: exec_run_def)
    then show ?thesis using pool_slotD [OF assms(1)] by (fastforce simp: pooled_def bind_eq_Some_conv)
  qed
  have none: "run s = []" if "s \<notin> set order" for s
  proof -
    have "bt_get s (by_sender pl) = None"
      using that assms(3) by (metis bt_get_def map_of_eq_None_iff)
    then have "sender_nonces pl s = []" by (simp add: sender_nonces_def)
    then show ?thesis using run(1) [of s] by (simp add: sender_run_def)
  qed
  obtain ps where ps: "merge_runs api base_fee ?runs (first_heap api base_fee ?runs) [] = Some ps"
      "greedy_merge (tip_or_zero api base_fee) (left_over ?runs (replicate (length ?runs) 0)) ps"
    using merge_runs_greedy [OF first_heap_rep [of ?runs api base_fee], of "[]"] by auto
  have lo: "left_over ?runs (replicate (length ?runs) 0) = ?runs" by (rule left_over_0)
  have "filter (\<lambda>p. pt_sender p = s) ps = run s" for s
  proof (cases "run s = []")
    case True
    have "set ps \<subseteq> \<Union> (set ` set ?runs)" by (rule greedy_subset [OF ps(2) [unfolded lo]])
    moreover have "pt_sender p \<noteq> s" if "p \<in> \<Union> (set ` set ?runs)" for p using that mine True by fastforce
    ultimately show ?thesis using True by (auto simp: filter_empty_conv)
  next
    case False
    let ?os = "filter (\<lambda>s. run s \<noteq> []) order"
    have rs: "?runs = map run ?os" by (simp add: filter_map o_def)
    have "s \<in> set ?os" using False none by auto
    then obtain k where k: "k < length ?os" "?os ! k = s" by (metis in_set_conv_nth)
    have d: "distinct ?os" using assms(2) by simp
    have "filter (\<lambda>p. pt_sender p = s) ps = ?runs ! k"
    proof (rule greedy_filter [OF ps(2) [unfolded lo]])
      show "k < length ?runs" using k(1) by (simp add: rs)
      show "\<forall>i < length ?runs. \<forall>x \<in> set (?runs ! i). (pt_sender x = s) = (i = k)"
        unfolding rs using k mine nth_eq_iff_index_eq [OF d] by auto
    qed
    then show ?thesis using k rs by simp
  qed
  moreover have "best api order base_fee state pl = Some (map (\<lambda>p. (pt_tx p, pt_sender p)) ps)"
    using collect_runs_map [of order api base_fee state pl run] run(1) ps(1) by (simp add: best_def)
  ultimately show ?thesis using run(2) ps(2) [unfolded lo] by blast
qed

subsection \<open>An example pool\<close>

text \<open>Transactions \<open>(nonce, hash, fee, value)\<close> of one sender on chain 1.\<close>

type_synonym demo_tx = "u64 \<times> b256 \<times> u128 \<times> u256"

definition demo_api :: "demo_tx tx_api" where
  "demo_api = \<lparr>decode_2718 = (\<lambda>_. None), is_eip4844 = (\<lambda>_. False), chain_id_of = (\<lambda>_. Some 1),
     gas_limit_of = (\<lambda>_. 21000), max_fee_per_gas = (\<lambda>(_, _, f, _). f), max_priority_fee_per_gas = (\<lambda>_. None),
     effective_tip_per_gas = (\<lambda>(_, _, f, _) b. if f < ucast b then None else Some (f - ucast b)),
     value_of = (\<lambda>(_, _, _, v). v), nonce_of = (\<lambda>(n, _). n), input_of = (\<lambda>_. []), is_create = (\<lambda>_. False),
     access_list = (\<lambda>_. None), authorization_count = (\<lambda>_. None), recover_signer = (\<lambda>_. Some 7),
     tx_hash = (\<lambda>(_, h, _). h), encode_2718_len = (\<lambda>_. 100),
     initial_tx_gas = (\<lambda>_ _ _ _ _. (21000, 0, 21000))\<rparr>"

definition demo_pool_cfg :: pool_config where "demo_pool_cfg = pool_config_new 1 30000000 1"

definition demo_pool :: "demo_tx pool" where "demo_pool = pool_insert demo_api (5, 11, 100, 0) 7 pool_new"

definition demo_accounts :: account_state where "demo_accounts = (\<lambda>_. (5, 10 ^ 18))"

lemmas demo_pool_defs = demo_api_def demo_pool_cfg_def pool_config_new_def demo_accounts_def admissible_def
  TX_GAS_LIMIT_CAP_def intrinsic_gas_def max_cost_def pool_new_def sender_nonces_def

lemma demo_pool_ok: "pool_ok demo_api demo_pool_cfg demo_pool"
proof -
  have "pool_add demo_api demo_pool_cfg (5, 11, 100, 0) demo_accounts pool_new = Some (Inr 11, demo_pool)"
    by (simp add: pool_add_def demo_pool_defs demo_pool_def bt_has_def Let_def)
  then show ?thesis
    using pool_step_ok [OF pool_ok_new, of "OpAdd (5, 11, 100, 0) demo_accounts" demo_api demo_pool_cfg] by simp
qed

theorem pool_stays_wf_witness:
  "\<exists>pl. pool_run demo_api demo_pool_cfg [OpAdd (5, 11, 100, 0) demo_accounts, OpNewBlock rev (\<lambda>_. (6, 0))] pool_new
      = Some pl \<and> pool_ok demo_api demo_pool_cfg pl"
  by (rule pool_stays_wf) simp

theorem pool_add_effect_witness:
  "\<exists>pl'. pool_add demo_api demo_pool_cfg (5, 12, 110, 0) demo_accounts demo_pool = Some (Inr 12, pl')
    \<and> pool_get 12 pl' \<noteq> None \<and> pool_get 11 pl' = None"
proof -
  have p: "pool_get 11 demo_pool = Some \<lparr>pt_tx = (5, 11, 100, 0), pt_sender = 7, pt_hash = 11, pt_size = 100\<rparr>"
    "bt_get 5 (sender_nonces demo_pool 7) = Some 11" "bt_get 12 (by_hash demo_pool) = None"
    by (simp_all add: demo_pool_def pool_insert_def pool_get_def demo_api_def pool_new_def sender_nonces_def Let_def bt_get_def)
  have "pool_add demo_api demo_pool_cfg (5, 12, 110, 0) demo_accounts demo_pool
      = Some (Inr 12, pool_insert demo_api (5, 12, 110, 0) 7 (inner_remove demo_api 11 demo_pool))"
    using p by (simp add: pool_add_def demo_api_def demo_pool_cfg_def pool_config_new_def demo_accounts_def admissible_def
      TX_GAS_LIMIT_CAP_def intrinsic_gas_def max_cost_def bt_has_def pool_get_def tip_or_fee_def bump_def Let_def)
  moreover from pool_add_effect [OF demo_pool_ok this]
  have "pool_get 12 (pool_insert demo_api (5, 12, 110, 0) 7 (inner_remove demo_api 11 demo_pool)) \<noteq> None"
      "pool_get 11 (pool_insert demo_api (5, 12, 110, 0) 7 (inner_remove demo_api 11 demo_pool)) = None"
    using p by (simp_all add: demo_pool_cfg_def pool_config_new_def pooled_def pool_get_def demo_api_def)
  ultimately show ?thesis by blast
qed

theorem best_order_witness:
  "best demo_api [7] 10 demo_accounts demo_pool = Some [((5, 11, 100, 0), 7)]"
proof -
  have keys: "set [7] = fst ` set (by_sender demo_pool)"
    by (simp add: demo_pool_def pool_insert_def pool_new_def Let_def sender_nonces_def)
  obtain ps run where *: "best demo_api [7] 10 demo_accounts demo_pool = Some (map (\<lambda>p. (pt_tx p, pt_sender p)) ps)"
      "greedy_merge (tip_or_zero demo_api 10) (filter (\<lambda>r. r \<noteq> []) (map run [7])) ps"
      "\<forall>s. exec_run demo_api 10 (pooled demo_pool s) (fst (demo_accounts s)) (run s) \<and> filter (\<lambda>p. pt_sender p = s) ps = run s"
    using best_order [OF demo_pool_ok _ keys, of 10 demo_accounts] by auto
  have slot: "pooled demo_pool 7 n = (if n = 5 then Some \<lparr>pt_tx = (5, 11, 100, 0), pt_sender = 7, pt_hash = 11, pt_size = 100\<rparr> else None)" for n
    by (simp add: pooled_def demo_pool_def pool_insert_def demo_api_def pool_new_def sender_nonces_def Let_def bt_get_def)
  have run: "exec_run demo_api 10 (pooled demo_pool 7) 5 (run 7)" using *(3) by (simp add: demo_accounts_def)
  have l0: "run 7 \<noteq> []" using run by (auto simp: exec_run_def slot blocked_def pt_tip_def demo_api_def)
  have l1: "length (run 7) \<le> 1"
  proof (rule ccontr)
    assume "\<not> length (run 7) \<le> 1"
    then have "pooled demo_pool 7 (5 + of_nat 1) \<noteq> None" using run unfolding exec_run_def by (metis not_le option.distinct(1))
    then show False by (simp add: slot)
  qed
  obtain p where p: "run 7 = [p]" using l0 l1 by (cases "run 7") auto
  then have e: "p = \<lparr>pt_tx = (5, 11, 100, 0), pt_sender = 7, pt_hash = 11, pt_size = 100\<rparr>"
    using run by (auto simp: exec_run_def slot)
  have "set ps \<subseteq> {p}" using greedy_subset [OF *(2)] p by simp
  then have "filter (\<lambda>p. pt_sender p = 7) ps = ps" using e by (intro filter_True) auto
  moreover have "filter (\<lambda>p. pt_sender p = 7) ps = [p]" using *(3) p by simp
  ultimately have "ps = [p]" by simp
  then show ?thesis using *(1) e by simp
qed

text \<open>
  C28. The balance check of an admission, for a transaction that passes every other check: it admits
  the transaction exactly when the cost \<open>gas limit * fee cap + value\<close> modulo \<open>2 ^ 256\<close> is covered. So the
  documented rule, that the balance covers the maximum cost, is kept for costs below \<open>2 ^ 256\<close>, and a
  cost of \<open>2 ^ 256\<close> exactly is admitted from an account without any balance.
\<close>

theorem funds_check_wraps:
  assumes "admissible api c tx state = Inr s"
    and "cost = unat (gas_limit_of api tx) * unat (max_fee_per_gas api tx) + unat (value_of api tx)"
  shows "admissible api c tx (state(s := (fst (state s), bal))) =
      (if cost mod 2 ^ 256 \<le> unat bal then Inr s else Inl InsufficientFunds)
    \<and> (cost < 2 ^ 256 \<longrightarrow> (admissible api c tx (state(s := (fst (state s), bal))) = Inr s \<longleftrightarrow> cost \<le> unat bal))
    \<and> (cost = 2 ^ 256 \<longrightarrow> admissible api c tx (state(s := (fst (state s), 0))) = Inr s)"
proof -
  have "unat (ucast (g :: u64) :: u256) = unat g" "unat (ucast (f :: u128) :: u256) = unat f" for g f
    using unsigned_less [of g, where ?'a = nat] unsigned_less [of f, where ?'a = nat] by (simp_all add: unsigned_ucast_eq take_bit_nat_eq_self)
  then have "unat (max_cost api tx) = cost mod 2 ^ 256"
    by (simp add: max_cost_def assms(2) unat_word_ariths mod_simps)
  then have le: "bal < max_cost api tx \<longleftrightarrow> \<not> cost mod 2 ^ 256 \<le> unat bal" for bal
    by (simp add: word_less_nat_alt not_le)
  have "admissible api c tx (state(s := (fst (state s), bal))) =
      (if bal < max_cost api tx then Inl InsufficientFunds else Inr s)" for bal
    using assms(1) by (auto simp: admissible_def Let_def split: if_splits option.splits prod.splits)
  then show ?thesis unfolding le by simp
qed

theorem funds_check_wraps_witness:
  "admissible demo_api demo_pool_cfg (5, 1, 1, 2 ^ 256 - 21000) (demo_accounts(7 := (5, 0))) = Inr 7"
proof -
  have "admissible demo_api demo_pool_cfg (5, 1, 1, 2 ^ 256 - 21000) demo_accounts = Inr 7"
    by (simp add: demo_pool_defs)
  from funds_check_wraps [OF this refl] show ?thesis by (simp add: demo_api_def demo_accounts_def)
qed

end
