(* ===== verification/State_Inv.thy ===== *)
theory State_Inv
  imports Flat_State
begin

text \<open>
  The state tables agree with each other: the account trie holds the flat accounts, every storage trie
  the flat slots of its account, and every account the root of its storage trie. Applying changes keeps
  this and returns the root of the flat state.
\<close>

subsection \<open>Encodings\<close>

lemma take_be_simps [simp]:
  "take_be64 (be64 n @ r) = n" "take_be256 (be256 x @ r) = x"
proof -
  show "take_be64 (be64 n @ r) = n" by (simp add: take_be64_def be_nat_be64)
  have "be_nat (be256 x) = unat x" using unat_lt_pow256(4) [of x] by (simp add: be256_def be_nat_nat_be)
  then show "take_be256 (be256 x @ r) = x" by (simp add: take_be256_def)
qed

lemma take_be256_end [simp]: "take_be256 (be256 x) = x"
  using take_be_simps(2) [of x "[]"] by simp

lemma acc_codec [simp]: "acc_decode (acc_encode a) = Some a"
  by (simp add: acc_decode_def acc_encode_def)

lemma hist_codec [simp]: "decode_hist_info (encode_hist_info i) = Some i"
  by (cases i) (auto simp: decode_hist_info_def encode_hist_info_def)

lemma encode_hist_inj: "encode_hist_info i = encode_hist_info j \<longleftrightarrow> i = j"
  by (metis hist_codec option.inject)

subsection \<open>Ordered maps as maps\<close>

lemma bt_keys: "a \<in> fst ` set m \<longleftrightarrow> bt_get a m \<noteq> None"
  by (simp add: bt_get_def map_of_eq_None_iff)

lemma bt_rebuild: "bt_wf m \<Longrightarrow> m = map (\<lambda>k. (k, the (bt_get k m))) (map fst m)"
proof (rule nth_equalityI)
  fix i assume "bt_wf m" "i < length m"
  then show "m ! i = map (\<lambda>k. (k, the (bt_get k m))) (map fst m) ! i"
    using bt_get_iff [of m "fst (m ! i)" "snd (m ! i)"] by simp
qed simp

lemma bt_ext:
  assumes "bt_wf m" "bt_wf m'" and eq: "\<And>k. bt_get k m = bt_get k m'" shows "m = m'"
proof -
  have "set (map fst m) = set (map fst m')" by (rule set_eqI) (simp add: bt_keys eq)
  then have f: "map fst m = map fst m'" using strict_sorted_equal [of "map fst m'" "map fst m"] assms(1,2) unfolding bt_wf_def by blast
  have "m = map (\<lambda>k. (k, the (bt_get k m))) (map fst m)" by (rule bt_rebuild [OF assms(1)])
  also have "\<dots> = map (\<lambda>k. (k, the (bt_get k m'))) (map fst m')" unfolding f eq ..
  also have "\<dots> = m'" by (rule bt_rebuild [OF assms(2), symmetric])
  finally show ?thesis .
qed

lemma bt_get_fold_insert:
  "bt_get a (fold (\<lambda>(a, i). bt_insert a i) l m) = (case map_of (rev l) a of Some i \<Rightarrow> Some i | None \<Rightarrow> bt_get a m)"
proof (induction l arbitrary: m)
  case (Cons e l)
  obtain b i where e: "e = (b, i)" by fastforce
  show ?case using Cons e by (auto simp: bt_simps map_add_def split: option.splits)
qed simp

lemma bt_wf_fold_insert: "bt_wf m \<Longrightarrow> bt_wf (fold (\<lambda>(a, i). bt_insert a i) l m)"
  by (induction l arbitrary: m) (auto simp: bt_wf_insert)

text \<open>A map under hashed keys, for a set of keys without collisions.\<close>

definition hm :: "('k \<Rightarrow> b256) \<Rightarrow> 'k set \<Rightarrow> ('k \<rightharpoonup> 'v) \<Rightarrow> b256 \<rightharpoonup> 'v" where
  "hm h A f k = (if k \<in> h ` A then f (inv_into A h k) else None)"

lemma hm_upd: "inj_on h A \<Longrightarrow> a \<in> A \<Longrightarrow> hm h A (f(a := x)) = (hm h A f)(h a := x)"
  by (rule ext) (auto simp: hm_def inv_into_f_f dest: inj_onD)

lemma hm_cong: "(\<And>a. a \<in> A \<Longrightarrow> f a = g a) \<Longrightarrow> hm h A f = hm h A g"
  by (rule ext) (auto simp: hm_def inv_into_into)

lemma hm_empty [simp]: "hm h A (\<lambda>_. None) = Map.empty"
  by (rule ext) (simp add: hm_def)

subsection \<open>Roots of maps\<close>

definition map_root :: "codec \<Rightarrow> (b256 \<rightharpoonup> byte list) \<Rightarrow> b256 \<Rightarrow> bool" where
  "map_root v m r \<longleftrightarrow> (\<exists>t. twfo t \<and> reps t m \<and> r = root_of (cd_keccak v) (cd_rlp v) (cd_empty_root v) t)"

abbreviation stored :: "codec \<Rightarrow> node_source \<Rightarrow> (b256 \<rightharpoonup> byte list) \<Rightarrow> bool" where
  "stored v \<equiv> trie_store (cd_keccak v) (cd_rlp v)"

lemma map_root_unique: "map_root v m r \<Longrightarrow> map_root v m r' \<Longrightarrow> r = r'"
  unfolding map_root_def using reps_unique by blast

lemma stored_unique: "stored v src m \<Longrightarrow> stored v src' m \<Longrightarrow> src = src'"
  unfolding trie_store_def using reps_unique holds_unique by blast

lemma map_root_empty: "map_root v Map.empty (cd_empty_root v)"
  unfolding map_root_def using empty_store by (intro exI [of _ None]) (simp add: root_of_def)

lemma stored_empty: "stored v (\<lambda>_. None) Map.empty"
  unfolding trie_store_def using empty_store by blast

definition codec_ok :: "codec \<Rightarrow> bool" where
  "codec_ok v \<longleftrightarrow> rlp_ok (cd_rlp v) \<and> (\<forall>x. cd_u256 v x \<noteq> [] \<and> length (cd_u256 v x) < 2 ^ 32)
     \<and> (\<forall>n b r c. cd_account v n b r c \<noteq> [] \<and> length (cd_account v n b r c) < 2 ^ 32)"

lemma session_stored:
  assumes "codec_ok v" "stored v src m" "updates_ok us"
  shows "\<exists>root src'. trie_session (cd_keccak v) (cd_rlp v) (cd_empty_root v) src us = Some (Inr (root, src'))
    \<and> stored v src' (update_map us m) \<and> map_root v (update_map us m) root"
proof -
  obtain t where t: "holds (cd_keccak v) (cd_rlp v) src t" "twfo t" "reps t m" using assms(2) by (auto simp: trie_store_def)
  have R: "rlp_ok (cd_rlp v)" using assms(1) by (simp add: codec_ok_def)
  from session_store [OF R t assms(3), of "cd_empty_root v"] show ?thesis
    unfolding trie_store_def map_root_def by metis
qed

lemma stored_proof:
  assumes "codec_ok v" "stored v src m" "map_root v m r"
  shows "\<exists>ps. trie_proof (cd_rlp v) src key = Some (Inr ps)
    \<and> proof_value (cd_keccak v) (cd_rlp v) (cd_empty_root v) r key ps = Some (m key)"
proof -
  obtain t where t: "holds (cd_keccak v) (cd_rlp v) src t" "twfo t" "reps t m" using assms(2) by (auto simp: trie_store_def)
  then have "map_root v m (root_of (cd_keccak v) (cd_rlp v) (cd_empty_root v) t)" unfolding map_root_def by blast
  then have r: "r = root_of (cd_keccak v) (cd_rlp v) (cd_empty_root v) t" using map_root_unique assms(3) by blast
  show ?thesis unfolding r using assms(1) by (intro proof_store [OF _ t]) (simp add: codec_ok_def)
qed

subsection \<open>Consistent tables\<close>

definition acct :: "tables \<Rightarrow> address \<Rightarrow> account option" where
  "acct tb a = Option.bind (bt_get a (t_accounts tb)) acc_decode"

definition sto :: "tables \<Rightarrow> address \<times> b256 \<Rightarrow> u256 option" where
  "sto tb k = bt_get k (t_storage tb)"

definition amap :: "codec \<Rightarrow> address set \<Rightarrow> tables \<Rightarrow> b256 \<rightharpoonup> byte list" where
  "amap v A tb = hm (hashed_address v) A (\<lambda>a. map_option (trie_value v) (acct tb a))"

definition smap :: "codec \<Rightarrow> b256 set \<Rightarrow> tables \<Rightarrow> address \<Rightarrow> b256 \<rightharpoonup> byte list" where
  "smap v S tb a = hm (hashed_slot v) S (\<lambda>s. map_option (cd_u256 v) (sto tb (a, s)))"

text \<open>Addresses \<open>A\<close> and slots \<open>S\<close> whose hashes do not collide.\<close>

definition apart :: "codec \<Rightarrow> address set \<Rightarrow> b256 set \<Rightarrow> bool" where
  "apart v A S \<longleftrightarrow> inj_on (hashed_address v) A \<and> inj_on (hashed_slot v) S"

definition sto_ok :: "codec \<Rightarrow> address set \<Rightarrow> b256 set \<Rightarrow> tables \<Rightarrow> bool" where
  "sto_ok v A S tb \<longleftrightarrow> bt_wf (t_storage tb) \<and> (\<forall>a s x. sto tb (a, s) = Some x \<longrightarrow> x \<noteq> 0 \<and> a \<in> A \<and> s \<in> S)
     \<and> (\<forall>a \<in> A. stored v (t_trie_sto tb (hashed_address v a)) (smap v S tb a))"

definition accs_ok :: "address set \<Rightarrow> tables \<Rightarrow> bool" where
  "accs_ok A tb \<longleftrightarrow> bt_wf (t_accounts tb) \<and> (\<forall>a b. bt_get a (t_accounts tb) = Some b \<longrightarrow> a \<in> A \<and> (\<exists>acc. b = acc_encode acc))"

definition state_ok :: "codec \<Rightarrow> address set \<Rightarrow> b256 set \<Rightarrow> tables \<Rightarrow> bool" where
  "state_ok v A S tb \<longleftrightarrow> sto_ok v A S tb \<and> accs_ok A tb \<and> stored v (t_trie_acc tb) (amap v A tb)
     \<and> (\<forall>a acc. acct tb a = Some acc \<longrightarrow> map_root v (smap v S tb a) (acc_storage_root acc))
     \<and> (\<forall>a s. acct tb a = None \<longrightarrow> sto tb (a, s) = None)"

lemma acct_get: "accs_ok A tb \<Longrightarrow> bt_get a (t_accounts tb) = map_option acc_encode (acct tb a)"
proof (cases "bt_get a (t_accounts tb)")
  case (Some b)
  assume "accs_ok A tb"
  then obtain acc where "b = acc_encode acc" using Some unfolding accs_ok_def by blast
  then show ?thesis using Some by (simp add: acct_def)
qed (simp add: acct_def)

lemma account_of_ok: "accs_ok A tb \<Longrightarrow> account_of tb a = Inr (acct tb a)"
  using acct_get [of A tb a] by (cases "acct tb a") (simp_all add: account_of_def)

lemma acct_in: "accs_ok A tb \<Longrightarrow> acct tb a = Some acc \<Longrightarrow> a \<in> A"
  using acct_get [of A tb a] by (simp add: accs_ok_def)

lemma from_trie_simps [simp]: "from_trie (Some (Inr x)) = Some (Inr x)"
  by (simp add: from_trie_def)

subsection \<open>Storage changes\<close>

text \<open>What a storage change does to the slots.\<close>

definition nz :: "u256 \<Rightarrow> u256 option" where "nz x = (if x = 0 then None else Some x)"

definition set_slot :: "address \<Rightarrow> u256 \<times> u256 \<Rightarrow> (address \<times> b256 \<Rightarrow> u256 option) \<Rightarrow> address \<times> b256 \<Rightarrow> u256 option" where
  "set_slot a e m = m((a, fst e) := nz (snd e))"

definition sto_step :: "storage_change \<Rightarrow> (address \<times> b256 \<Rightarrow> u256 option) \<Rightarrow> address \<times> b256 \<Rightarrow> u256 option" where
  "sto_step s m =
     fold (set_slot (sc_address s)) (sc_slots s)
       (if sc_wipe s then (\<lambda>k. if fst k = sc_address s then None else m k) else m)"

lemma set_slots_other: "b \<noteq> a \<Longrightarrow> fold (set_slot a) l m (b, k) = m (b, k)"
  by (induction l arbitrary: m) (auto simp: set_slot_def)

lemma sto_step_other: "b \<noteq> sc_address s \<Longrightarrow> sto_step s m (b, k) = m (b, k)"
  by (simp add: sto_step_def set_slots_other)

lemma put_slot_get: "(\<lambda>k. bt_get k (put_slot a e m)) = set_slot a e (\<lambda>k. bt_get k m)"
  by (rule ext) (cases e, auto simp: put_slot_def set_slot_def nz_def bt_simps)

lemma put_slots_get: "(\<lambda>k. bt_get k (fold (put_slot a) l m)) = fold (set_slot a) l (\<lambda>k. bt_get k m)"
  by (induction l arbitrary: m) (simp_all add: put_slot_get)

lemma put_slots_wf: "bt_wf m \<Longrightarrow> bt_wf (fold (put_slot a) l m)"
  by (induction l arbitrary: m) (auto simp: put_slot_def bt_wf_insert bt_wf_remove split: prod.splits)

lemma wipe_sto: "bt_wf (t_storage tb) \<Longrightarrow> sto (wipe v a tb) = (\<lambda>k. if fst k = a then None else sto tb k)"
  by (rule ext) (auto simp: sto_def wipe_def bt_get_retain split: option.splits)

text \<open>Every field that storage changes leave alone.\<close>

definition frame :: "codec \<Rightarrow> address set \<Rightarrow> tables \<Rightarrow> tables \<Rightarrow> bool" where
  "frame v A tb tb' \<longleftrightarrow> (\<exists>x y z. tb' = tb\<lparr>t_accounts := x, t_storage := y, t_trie_sto := z\<rparr>)
     \<and> (\<forall>k. k \<notin> hashed_address v ` A \<longrightarrow> t_trie_sto tb' k = t_trie_sto tb k)"

lemma frame_refl: "frame v A tb tb"
  unfolding frame_def
  by (intro conjI allI impI exI [of _ "t_accounts tb"] exI [of _ "t_storage tb"] exI [of _ "t_trie_sto tb"]) simp_all

text \<open>Replacing the slots and the storage trie of one account.\<close>

lemma sto_ok_change:
  assumes ap: "apart v A S" and a: "a \<in> A" and ok: "sto_ok v A S tb" and wf: "bt_wf m"
    and tb': "tb' = tb\<lparr>t_storage := m, t_trie_sto := (t_trie_sto tb)(hashed_address v a := nodes)\<rparr>"
    and other: "\<And>b k. b \<noteq> a \<Longrightarrow> bt_get (b, k) m = sto tb (b, k)"
    and own: "\<And>k x. bt_get (a, k) m = Some x \<Longrightarrow> x \<noteq> 0 \<and> k \<in> S"
    and nodes: "stored v nodes (smap v S tb' a)"
  shows "sto_ok v A S tb'" "b \<noteq> a \<Longrightarrow> smap v S tb' b = smap v S tb b" "frame v A tb tb'"
proof -
  have get: "sto tb' k = bt_get k m" for k by (simp add: sto_def tb')
  show m: "smap v S tb' b = smap v S tb b" if "b \<noteq> a" for b
    unfolding smap_def by (rule hm_cong) (simp add: get other that)
  have "stored v (t_trie_sto tb' (hashed_address v b)) (smap v S tb' b)" if b: "b \<in> A" for b
  proof (cases "b = a")
    case False
    then have "hashed_address v b \<noteq> hashed_address v a" using ap a b by (auto simp: apart_def dest: inj_onD)
    then show ?thesis using m [OF False] ok b by (simp add: tb' sto_ok_def)
  qed (use nodes in \<open>simp add: tb'\<close>)
  moreover have "x \<noteq> 0 \<and> b \<in> A \<and> k \<in> S" if "sto tb' (b, k) = Some x" for b k x
    using that own [of k x] other [of b k] ok a by (cases "b = a") (auto simp: get sto_ok_def)
  ultimately show "sto_ok v A S tb'" unfolding sto_ok_def using wf by (simp add: tb')
  show "frame v A tb tb'" using a unfolding frame_def tb'
    by (intro conjI allI impI exI [of _ "t_accounts tb"] exI [of _ m] exI [of _ "(t_trie_sto tb)(hashed_address v a := nodes)"]) auto
qed

lemma wipe_eq:
  "wipe v a tb = tb\<lparr>t_storage := bt_retain (\<lambda>k _. fst k \<noteq> a) (t_storage tb), t_trie_sto := (t_trie_sto tb)(hashed_address v a := (\<lambda>_. None))\<rparr>"
  by (simp add: wipe_def)

lemma wipe_ok:
  assumes "apart v A S" "a \<in> A" "sto_ok v A S tb"
  shows "sto_ok v A S (wipe v a tb)" "b \<noteq> a \<Longrightarrow> smap v S (wipe v a tb) b = smap v S tb b" "frame v A tb (wipe v a tb)"
    "smap v S (wipe v a tb) a = Map.empty"
proof -
  have wf: "bt_wf (t_storage tb)" using assms(3) by (simp add: sto_ok_def)
  show e: "smap v S (wipe v a tb) a = Map.empty" by (simp add: smap_def wipe_sto [OF wf])
  note c = sto_ok_change [OF assms bt_wf_retain [OF wf] wipe_eq]
  have o: "bt_get (b, k) (bt_retain (\<lambda>k _. fst k \<noteq> a) (t_storage tb)) = sto tb (b, k)" if "b \<noteq> a" for b k
    using that by (simp add: bt_get_retain [OF wf] sto_def split: option.splits)
  have n: "x \<noteq> 0 \<and> k \<in> S" if "bt_get (a, k) (bt_retain (\<lambda>k _. fst k \<noteq> a) (t_storage tb)) = Some x" for k x
    using that by (simp add: bt_get_retain [OF wf] split: option.splits)
  have "stored v (\<lambda>_. None) (smap v S (wipe v a tb) a)" using stored_empty e by simp
  from c [OF o n this] show "sto_ok v A S (wipe v a tb)" "b \<noteq> a \<Longrightarrow> smap v S (wipe v a tb) b = smap v S tb b" "frame v A tb (wipe v a tb)"
    by blast+
qed

lemma update_map_Cons: "update_map (e # us) m = update_map us (m(fst e := snd e))"
  by (cases e) (simp add: update_map_def del: fun_upd_apply)

lemma update_slots:
  assumes "apart v A S" "\<forall>e \<in> set l. fst e \<in> S"
  shows "update_map (map (slot_update v) l) (hm (hashed_slot v) S (\<lambda>s. map_option (cd_u256 v) (m (a, s)))) =
    hm (hashed_slot v) S (\<lambda>s. map_option (cd_u256 v) (fold (set_slot a) l m (a, s)))"
  using assms(2)
proof (induction l arbitrary: m)
  case (Cons e l)
  have k: "fst e \<in> S" and inj: "inj_on (hashed_slot v) S" using Cons.prems assms(1) by (auto simp: apart_def)
  have m: "(\<lambda>s. map_option (cd_u256 v) (set_slot a e m (a, s))) = (\<lambda>s. map_option (cd_u256 v) (m (a, s)))(fst e := map_option (cd_u256 v) (nz (snd e)))"
    by (rule ext) (simp add: set_slot_def)
  have u: "slot_update v e = (hashed_slot v (fst e), map_option (cd_u256 v) (nz (snd e)))" by (cases e) (simp add: slot_update_def nz_def)
  have "update_map (map (slot_update v) (e # l)) (hm (hashed_slot v) S (\<lambda>s. map_option (cd_u256 v) (m (a, s))))
      = update_map (map (slot_update v) l) (hm (hashed_slot v) S (\<lambda>s. map_option (cd_u256 v) (set_slot a e m (a, s))))"
    unfolding list.map update_map_Cons u fst_conv snd_conv m hm_upd [OF inj k] ..
  also have "\<dots> = hm (hashed_slot v) S (\<lambda>s. map_option (cd_u256 v) (fold (set_slot a) l (set_slot a e m) (a, s)))"
    by (rule Cons.IH) (use Cons.prems in simp)
  finally show ?case by simp
qed (simp add: update_map_def)

definition change_ok :: "address set \<Rightarrow> b256 set \<Rightarrow> storage_change \<Rightarrow> bool" where
  "change_ok A S s \<longleftrightarrow> sc_address s \<in> A \<and> (\<forall>e \<in> set (sc_slots s). fst e \<in> S)"

definition roots_ok :: "codec \<Rightarrow> address set \<Rightarrow> b256 set \<Rightarrow> tables \<Rightarrow> (address, b256) btmap \<Rightarrow> bool" where
  "roots_ok v A S tb roots \<longleftrightarrow> bt_wf roots \<and> (\<forall>a r. bt_get a roots = Some r \<longrightarrow> a \<in> A \<and> map_root v (smap v S tb a) r)"

definition touches :: "storage_change \<Rightarrow> bool" where "touches s \<longleftrightarrow> sc_wipe s \<or> sc_slots s \<noteq> []"

lemma set_slots_value:
  "\<forall>e \<in> set l. fst e \<in> S \<Longrightarrow> (\<And>k x. m (a, k) = Some x \<Longrightarrow> x \<noteq> 0 \<and> k \<in> S) \<Longrightarrow>
     fold (set_slot a) l m (a, k) = Some x \<Longrightarrow> x \<noteq> 0 \<and> k \<in> S"
proof (induction l arbitrary: m)
  case (Cons e l)
  have "x \<noteq> 0 \<and> k \<in> S" if "set_slot a e m (a, k) = Some x" for k x
    using that Cons.prems(1,2) by (auto simp: set_slot_def nz_def split: if_splits)
  then show ?case using Cons.IH [of "set_slot a e m"] Cons.prems by simp
qed simp

lemma slots_updates_ok: "codec_ok v \<Longrightarrow> updates_ok (map (slot_update v) l)"
  by (auto simp: updates_ok_def slot_update_def codec_ok_def split: if_splits)

lemma frame_trans: "frame v A tb tb1 \<Longrightarrow> frame v A tb1 tb2 \<Longrightarrow> frame v A tb tb2"
  unfolding frame_def by fastforce

lemma apply_storage_ok:
  assumes cd: "codec_ok v" and ap: "apart v A S" and c: "change_ok A S s" and ok: "sto_ok v A S tb" and r: "roots_ok v A S tb roots"
  shows "\<exists>tb' roots'. apply_storage v s (tb, roots) = Some (Inr (tb', roots')) \<and> sto_ok v A S tb' \<and> roots_ok v A S tb' roots'
    \<and> sto tb' = sto_step s (sto tb) \<and> frame v A tb tb' \<and> t_accounts tb' = t_accounts tb \<and> (\<forall>a. bt_has a roots' \<longleftrightarrow> bt_has a roots \<or> touches s \<and> a = sc_address s)"
proof -
  let ?a = "sc_address s"
  have a: "?a \<in> A" and sl: "\<forall>e \<in> set (sc_slots s). fst e \<in> S" using c by (simp_all add: change_ok_def)
  define tb1 where "tb1 = (if sc_wipe s then wipe v ?a tb else tb)"
  define m1 where "m1 = (if sc_wipe s then (\<lambda>k. if fst k = ?a then None else sto tb k) else sto tb)"
  have ok1: "sto_ok v A S tb1" and o1: "\<And>b. b \<noteq> ?a \<Longrightarrow> smap v S tb1 b = smap v S tb b" and f1: "frame v A tb tb1"
    using wipe_ok [OF ap a ok] ok frame_refl by (auto simp: tb1_def)
  have t1: "t_accounts tb1 = t_accounts tb" by (simp add: tb1_def wipe_def)
  have s1: "sto tb1 = m1" using wipe_sto ok by (auto simp: tb1_def m1_def sto_ok_def)
  show ?thesis
  proof (cases "sc_slots s = []")
    case True
    let ?roots = "if sc_wipe s then bt_insert ?a (cd_empty_root v) roots else roots"
    have "apply_storage v s (tb, roots) = Some (Inr (tb1, ?roots))" using True by (simp add: apply_storage_def tb1_def Let_def)
    moreover have "roots_ok v A S tb1 ?roots"
    proof (cases "sc_wipe s")
      case True
      then have "map_root v (smap v S tb1 ?a) (cd_empty_root v)" using wipe_ok(4) [OF ap a ok] map_root_empty by (simp add: tb1_def)
      then show ?thesis using r o1 True a by (auto simp: roots_ok_def bt_simps bt_wf_insert split: if_splits)
    qed (use r in \<open>simp add: tb1_def\<close>)
    moreover have "bt_has b ?roots \<longleftrightarrow> bt_has b roots \<or> touches s \<and> b = ?a" for b
      using True by (auto simp: touches_def bt_has_def bt_simps)
    ultimately show ?thesis using ok1 f1 s1 t1 True by (auto simp: sto_step_def m1_def)
  next
    case False
    have st: "stored v (t_trie_sto tb1 (hashed_address v ?a)) (smap v S tb1 ?a)" using ok1 a by (simp add: sto_ok_def)
    obtain root nodes where n: "trie_session (cd_keccak v) (cd_rlp v) (cd_empty_root v) (t_trie_sto tb1 (hashed_address v ?a))
          (map (slot_update v) (sc_slots s)) = Some (Inr (root, nodes))"
        "stored v nodes (update_map (map (slot_update v) (sc_slots s)) (smap v S tb1 ?a))"
        "map_root v (update_map (map (slot_update v) (sc_slots s)) (smap v S tb1 ?a)) root"
      using session_stored [OF cd st slots_updates_ok [OF cd]] by blast
    let ?m = "fold (put_slot ?a) (sc_slots s) (t_storage tb1)"
    let ?tb = "tb1\<lparr>t_storage := ?m, t_trie_sto := (t_trie_sto tb1)(hashed_address v ?a := nodes)\<rparr>"
    have wf: "bt_wf ?m" using ok1 put_slots_wf by (simp add: sto_ok_def)
    have get: "bt_get k ?m = fold (set_slot ?a) (sc_slots s) m1 k" for k
      using fun_cong [OF put_slots_get [of ?a "sc_slots s" "t_storage tb1"], of k] s1 by (simp add: sto_def [abs_def])
    have s2: "sto ?tb = fold (set_slot ?a) (sc_slots s) m1" by (rule ext) (simp add: sto_def get)
    have sm: "smap v S ?tb ?a = update_map (map (slot_update v) (sc_slots s)) (smap v S tb1 ?a)"
      unfolding smap_def s1 s2 by (rule update_slots [OF ap sl, symmetric])
    have o: "bt_get (b, k) ?m = sto tb1 (b, k)" if "b \<noteq> ?a" for b k
      using that set_slots_other [of b ?a] by (simp add: get s1)
    have v: "x \<noteq> 0 \<and> k \<in> S" if "bt_get (?a, k) ?m = Some x" for k x
      by (rule set_slots_value [OF sl]) (use that get ok1 s1 in \<open>auto simp: sto_ok_def\<close>)
    have "stored v nodes (smap v S ?tb ?a)" using n(2) sm by simp
    note c = sto_ok_change [OF ap a ok1 wf refl o v this]
    have "roots_ok v A S ?tb (bt_insert ?a root roots)"
      using r n(3) sm a c(2) o1 by (auto simp: roots_ok_def bt_simps bt_wf_insert split: if_splits)
    moreover have "apply_storage v s (tb, roots) = Some (Inr (?tb, bt_insert ?a root roots))"
      using False n(1) by (simp add: apply_storage_def Let_def tb1_def)
    moreover have "bt_has b (bt_insert ?a root roots) \<longleftrightarrow> bt_has b roots \<or> touches s \<and> b = ?a" for b
      using False by (auto simp: touches_def bt_has_def bt_simps)
    ultimately show ?thesis using c(1) frame_trans [OF f1 c(3)] s2 t1 by (auto simp: sto_step_def m1_def)
  qed
qed

lemma apply_storages_ok:
  assumes cd: "codec_ok v" and ap: "apart v A S"
  shows "\<forall>s \<in> set l. change_ok A S s \<Longrightarrow> sto_ok v A S tb \<Longrightarrow> roots_ok v A S tb roots \<Longrightarrow>
    \<exists>tb' roots'. try_fold (apply_storage v) l (tb, roots) = Some (Inr (tb', roots')) \<and> sto_ok v A S tb' \<and> roots_ok v A S tb' roots'
      \<and> sto tb' = fold sto_step l (sto tb) \<and> frame v A tb tb' \<and> t_accounts tb' = t_accounts tb
      \<and> (\<forall>a. bt_has a roots' \<longleftrightarrow> bt_has a roots \<or> (\<exists>s \<in> set l. touches s \<and> sc_address s = a))"
proof (induction l arbitrary: tb roots)
  case Nil
  then show ?case using frame_refl by auto
next
  case (Cons s l)
  have c: "change_ok A S s" "\<forall>s \<in> set l. change_ok A S s" using Cons.prems(1) by simp_all
  obtain tb1 roots1 where 1: "apply_storage v s (tb, roots) = Some (Inr (tb1, roots1))" "sto_ok v A S tb1" "roots_ok v A S tb1 roots1"
      "sto tb1 = sto_step s (sto tb)" "frame v A tb tb1" "t_accounts tb1 = t_accounts tb"
      "\<And>a. bt_has a roots1 \<longleftrightarrow> bt_has a roots \<or> touches s \<and> a = sc_address s"
    using apply_storage_ok [OF cd ap c(1) Cons.prems(2,3)] by blast
  obtain tb2 roots2 where 2: "try_fold (apply_storage v) l (tb1, roots1) = Some (Inr (tb2, roots2))" "sto_ok v A S tb2" "roots_ok v A S tb2 roots2"
      "sto tb2 = fold sto_step l (sto tb1)" "frame v A tb1 tb2" "t_accounts tb2 = t_accounts tb1"
      "\<And>a. bt_has a roots2 \<longleftrightarrow> bt_has a roots1 \<or> (\<exists>s \<in> set l. touches s \<and> sc_address s = a)"
    using Cons.IH [OF c(2) 1(2,3)] by blast
  have "bt_has a roots2 \<longleftrightarrow> bt_has a roots \<or> (\<exists>s' \<in> set (s # l). touches s' \<and> sc_address s' = a)" for a
    using 1(7) 2(7) by auto
  moreover have "try_fold (apply_storage v) (s # l) (tb, roots) = Some (Inr (tb2, roots2))" using 1(1) 2(1) by simp
  ultimately show ?case using 1 2 frame_trans [OF 1(5) 2(5)] by auto
qed

subsection \<open>Accounts\<close>

definition info_of :: "account \<Rightarrow> info" where
  "info_of acc = (acc_nonce acc, acc_balance acc, acc_code_hash acc)"

definition info_at :: "tables \<Rightarrow> address \<Rightarrow> info option" where
  "info_at tb a = map_option info_of (acct tb a)"

definition kept_info :: "codec \<Rightarrow> info option \<Rightarrow> info" where
  "kept_info v i = (case i of Some i \<Rightarrow> i | None \<Rightarrow> info_of (default_account v))"

lemma infos_ok:
  assumes ok: "accs_ok A tb"
  shows "bt_wf infos \<Longrightarrow> \<exists>infos'. try_fold (add_info v tb) as infos = Some (Inr infos') \<and> bt_wf infos'
    \<and> (\<forall>a. bt_get a infos' = (case bt_get a infos of Some i \<Rightarrow> Some i
         | None \<Rightarrow> if a \<in> set as then Some (Some (kept_info v (info_at tb a))) else None))"
proof (induction as arbitrary: infos)
  case (Cons b as)
  let ?i = "if bt_has b infos then infos else bt_insert b (Some (kept_info v (info_at tb b))) infos"
  have "add_info v tb b infos = Some (Inr ?i)"
    by (cases "acct tb b") (auto simp: add_info_def account_of_ok [OF ok] kept_info_def info_at_def info_of_def Let_def)
  moreover have "bt_wf ?i" using Cons.prems by (simp add: bt_wf_insert)
  moreover from Cons.IH [OF this] obtain infos' where "try_fold (add_info v tb) as ?i = Some (Inr infos')" "bt_wf infos'"
      "\<And>a. bt_get a infos' = (case bt_get a ?i of Some i \<Rightarrow> Some i
         | None \<Rightarrow> if a \<in> set as then Some (Some (kept_info v (info_at tb a))) else None)" by blast
  ultimately show ?case by (intro exI [of _ infos']) (auto simp: bt_has_def bt_simps split: option.splits)
qed (auto split: option.splits)

text \<open>The loop over the accounts: \<open>done\<close> are the addresses already written.\<close>

definition acc_inv ::
    "codec \<Rightarrow> address set \<Rightarrow> b256 set \<Rightarrow> (address, b256) btmap \<Rightarrow> node_source \<Rightarrow> address set \<Rightarrow> tables \<Rightarrow> dirty \<Rightarrow> bool" where
  "acc_inv v A S roots nodes done tb d \<longleftrightarrow> sto_ok v A S tb \<and> accs_ok A tb
     \<and> (\<exists>t. session (cd_keccak v) (cd_rlp v) nodes d t \<and> reps t (amap v A tb))
     \<and> (\<forall>a r. bt_get a roots = Some r \<and> a \<notin> done \<longrightarrow> map_root v (smap v S tb a) r)
     \<and> (\<forall>a acc. acct tb a = Some acc \<and> (a \<in> done \<or> \<not> bt_has a roots) \<longrightarrow> map_root v (smap v S tb a) (acc_storage_root acc))
     \<and> (\<forall>a s. acct tb a = None \<and> (a \<in> done \<or> \<not> bt_has a roots) \<longrightarrow> sto tb (a, s) = None)"

definition wiped :: "address \<Rightarrow> info option \<Rightarrow> (address \<times> b256 \<Rightarrow> u256 option) \<Rightarrow> address \<times> b256 \<Rightarrow> u256 option" where
  "wiped a i m = (if i = None then (\<lambda>k. if fst k = a then None else m k) else m)"

lemma acct_put: "acct (tb\<lparr>t_accounts := bt_insert a (acc_encode acc) (t_accounts tb)\<rparr>) = (acct tb)(a := Some acc)"
  by (rule ext) (simp add: acct_def bt_simps)

lemma acct_del: "acct (tb\<lparr>t_accounts := bt_remove a (t_accounts tb)\<rparr>) = (acct tb)(a := None)"
  by (rule ext) (simp add: acct_def bt_simps)

lemma amap_upd: "apart v A S \<Longrightarrow> a \<in> A \<Longrightarrow> acct tb' = (acct tb)(a := x) \<Longrightarrow> amap v A tb' = (amap v A tb)(hashed_address v a := map_option (trie_value v) x)"
proof -
  assume a: "apart v A S" "a \<in> A" "acct tb' = (acct tb)(a := x)"
  have "(\<lambda>b. map_option (trie_value v) (acct tb' b)) = (\<lambda>b. map_option (trie_value v) (acct tb b))(a := map_option (trie_value v) x)"
    by (rule ext) (simp add: a(3))
  then show ?thesis using hm_upd [of "hashed_address v" A a] a(1,2) by (simp add: amap_def apart_def)
qed

lemma acc_update_simps [simp]:
  "sto (tb\<lparr>t_accounts := x\<rparr>) = sto tb" "smap v S (tb\<lparr>t_accounts := x\<rparr>) = smap v S tb"
  "sto_ok v A S (tb\<lparr>t_accounts := x\<rparr>) = sto_ok v A S tb" "acct (wipe v a tb) = acct tb" "accs_ok A (wipe v a tb) = accs_ok A tb"
proof -
  show s: "sto (tb\<lparr>t_accounts := x\<rparr>) = sto tb" by (rule ext) (simp add: sto_def)
  then show m: "smap v S (tb\<lparr>t_accounts := x\<rparr>) = smap v S tb" by (rule_tac ext) (simp add: smap_def)
  show "sto_ok v A S (tb\<lparr>t_accounts := x\<rparr>) = sto_ok v A S tb" by (simp add: sto_ok_def s m)
  show "acct (wipe v a tb) = acct tb" by (rule ext) (simp add: acct_def wipe_def)
  show "accs_ok A (wipe v a tb) = accs_ok A tb" by (simp add: accs_ok_def wipe_def)
qed

lemma frame_acc: "frame v A tb (tb\<lparr>t_accounts := x\<rparr>)"
  unfolding frame_def
  by (intro conjI allI impI exI [of _ x] exI [of _ "t_storage tb"] exI [of _ "t_trie_sto tb"]) simp_all

lemma delete_account_ok:
  assumes cd: "codec_ok v" and ap: "apart v A S" and a: "a \<in> A" and inv: "acc_inv v A S roots nodes done tb d"
  shows "\<exists>tb' d'. apply_account v roots nodes (a, None) (tb, d) = Some (Inr (tb', d')) \<and> acc_inv v A S roots nodes (insert a done) tb' d'
    \<and> info_at tb' = (info_at tb)(a := None) \<and> sto tb' = wiped a None (sto tb) \<and> frame v A tb tb'"
proof -
  let ?tb = "tb\<lparr>t_accounts := bt_remove a (t_accounts tb)\<rparr>"
  let ?w = "wipe v a ?tb"
  have ok: "sto_ok v A S ?tb" and wf: "bt_wf (t_storage ?tb)" and accs: "accs_ok A tb" using inv by (simp_all add: acc_inv_def sto_ok_def)
  have acct: "acct ?w = (acct tb)(a := None)" by (simp add: acct_del)
  obtain t where t: "session (cd_keccak v) (cd_rlp v) nodes d t" "reps t (amap v A tb)" using inv by (auto simp: acc_inv_def)
  have R: "rlp_ok (cd_rlp v)" using cd by (simp add: codec_ok_def)
  obtain d' t' where d': "remove_key (cd_rlp v) nodes (hashed_address v a) d = Some (Inr d')" "session (cd_keccak v) (cd_rlp v) nodes d' t'"
      "\<And>r. looko t' r = (if r = to_nibbles (hashed_address v a) then None else looko t r)"
    using remove_session [OF R t(1)] by blast
  have "reps t' (amap v A ?w)" using reps_update [OF t(2) d'(3)] amap_upd [OF ap a acct] by simp
  then have "\<exists>t. session (cd_keccak v) (cd_rlp v) nodes d' t \<and> reps t (amap v A ?w)" using d'(2) by blast
  moreover have "accs_ok A ?tb" using accs by (auto simp: accs_ok_def bt_simps bt_wf_remove split: if_splits)
  then have "accs_ok A ?w" by simp
  moreover have "sto ?w (b, k) = (if b = a then None else sto tb (b, k))" for b k using wipe_sto [OF wf] by simp
  moreover have "smap v S ?w b = smap v S tb b" if "b \<noteq> a" for b using wipe_ok(2) [OF ap a ok that] by simp
  ultimately have "acc_inv v A S roots nodes (insert a done) ?w d'"
    using inv wipe_ok(1) [OF ap a ok] acct unfolding acc_inv_def by auto
  moreover have "info_at ?w = (info_at tb)(a := None)" using acct by (auto simp: info_at_def fun_eq_iff)
  moreover have "sto ?w = wiped a None (sto tb)" using wipe_sto [OF wf] by (simp add: wiped_def fun_eq_iff)
  moreover have "frame v A tb ?w" using frame_trans [OF frame_acc wipe_ok(3) [OF ap a ok]] .
  moreover have "apply_account v roots nodes (a, None) (tb, d) = Some (Inr (?w, d'))" using d'(1) by (simp add: apply_account_def)
  ultimately show ?thesis by blast
qed

lemma put_account_ok:
  assumes cd: "codec_ok v" and ap: "apart v A S" and a: "a \<in> A" "a \<notin> done" and inv: "acc_inv v A S roots nodes done tb d"
  shows "\<exists>tb' d'. apply_account v roots nodes (a, Some i) (tb, d) = Some (Inr (tb', d')) \<and> acc_inv v A S roots nodes (insert a done) tb' d'
    \<and> info_at tb' = (info_at tb)(a := Some i) \<and> sto tb' = sto tb \<and> frame v A tb tb'"
proof -
  obtain n b c where i: "i = (n, b, c)" using prod_cases3 by blast
  have accs: "accs_ok A tb" using inv by (simp add: acc_inv_def)
  define root where "root = (case bt_get a roots of Some r \<Rightarrow> r
      | None \<Rightarrow> (case acct tb a of Some acc \<Rightarrow> acc_storage_root acc | None \<Rightarrow> cd_empty_root v))"
  have root: "map_root v (smap v S tb a) root"
  proof (cases "bt_get a roots")
    case None
    then have h: "\<not> bt_has a roots" by (simp add: bt_has_def)
    show ?thesis
    proof (cases "acct tb a")
      case None
      then have "sto tb (a, s) = None" for s using inv h by (simp add: acc_inv_def)
      then have "smap v S tb a = Map.empty" by (simp add: smap_def)
      then show ?thesis using \<open>bt_get a roots = None\<close> None map_root_empty by (simp add: root_def)
    next
      case (Some acc)
      then show ?thesis using \<open>bt_get a roots = None\<close> inv h by (simp add: root_def acc_inv_def)
    qed
  next
    case (Some r)
    then show ?thesis using inv a by (simp add: root_def acc_inv_def)
  qed
  define acc where "acc = \<lparr>acc_nonce = n, acc_balance = b, acc_code_hash = c, acc_storage_root = root\<rparr>"
  let ?tb = "tb\<lparr>t_accounts := bt_insert a (acc_encode acc) (t_accounts tb)\<rparr>"
  have acct: "acct ?tb = (acct tb)(a := Some acc)" by (rule acct_put)
  obtain t where t: "session (cd_keccak v) (cd_rlp v) nodes d t" "reps t (amap v A tb)" using inv by (auto simp: acc_inv_def)
  have R: "rlp_ok (cd_rlp v)" and tv: "trie_value v acc \<noteq> []" "length (trie_value v acc) < 2 ^ 32"
    using cd by (simp_all add: codec_ok_def trie_value_def)
  obtain d' t' where d': "trie_insert (cd_rlp v) nodes (hashed_address v a) (trie_value v acc) d = Some (Inr d')"
      "session (cd_keccak v) (cd_rlp v) nodes d' t'"
      "\<And>r. looko t' r = (if r = to_nibbles (hashed_address v a) then Some (trie_value v acc) else looko t r)"
    using insert_session [OF R t(1) tv] by blast
  have "reps t' (amap v A ?tb)" using reps_update [OF t(2) d'(3)] amap_upd [OF ap a(1) acct] by simp
  then have "\<exists>t. session (cd_keccak v) (cd_rlp v) nodes d' t \<and> reps t (amap v A ?tb)" using d'(2) by blast
  moreover have "accs_ok A ?tb" using accs a by (auto simp: accs_ok_def bt_simps bt_wf_insert split: if_splits)
  ultimately have "acc_inv v A S roots nodes (insert a done) ?tb d'"
    using inv root acct unfolding acc_inv_def by (auto simp: acc_def)
  moreover have "info_at ?tb = (info_at tb)(a := Some i)" using acct
    by (auto simp: info_at_def fun_eq_iff info_of_def acc_def i)
  moreover have "apply_account v roots nodes (a, Some i) (tb, d) = Some (Inr (?tb, d'))"
    using d'(1) unfolding acc_def
    by (cases "bt_get a roots") (simp_all add: apply_account_def i account_of_ok [OF accs] root_def)
  ultimately show ?thesis using frame_acc by fastforce
qed

lemma apply_accounts_ok:
  assumes cd: "codec_ok v" and ap: "apart v A S"
  shows "distinct (map fst l) \<Longrightarrow> fst ` set l \<subseteq> A \<Longrightarrow> fst ` set l \<inter> done = {} \<Longrightarrow> acc_inv v A S roots nodes done tb d \<Longrightarrow>
    \<exists>tb' d'. try_fold (apply_account v roots nodes) l (tb, d) = Some (Inr (tb', d')) \<and> acc_inv v A S roots nodes (done \<union> fst ` set l) tb' d'
      \<and> info_at tb' = (\<lambda>a. case map_of l a of Some i \<Rightarrow> i | None \<Rightarrow> info_at tb a)
      \<and> sto tb' = (\<lambda>k. if map_of l (fst k) = Some None then None else sto tb k) \<and> frame v A tb tb'"
proof (induction l arbitrary: "done" tb d)
  case Nil
  then show ?case using frame_refl by auto
next
  case (Cons e l)
  obtain a i where e: "e = (a, i)" by fastforce
  have a: "a \<in> A" "a \<notin> done" and al: "map_of l a = None" using Cons.prems e by (auto simp: map_of_eq_None_iff)
  have "\<exists>tb' d'. apply_account v roots nodes (a, i) (tb, d) = Some (Inr (tb', d')) \<and> acc_inv v A S roots nodes (insert a done) tb' d'
      \<and> info_at tb' = (info_at tb)(a := i) \<and> sto tb' = wiped a i (sto tb) \<and> frame v A tb tb'"
  proof (cases i)
    case None
    then show ?thesis using delete_account_ok [OF cd ap a(1) Cons.prems(4)] by simp
  next
    case (Some j)
    then show ?thesis using put_account_ok [OF cd ap a Cons.prems(4), of j] by (simp add: wiped_def)
  qed
  then obtain tb1 d1 where 1: "apply_account v roots nodes e (tb, d) = Some (Inr (tb1, d1))" "acc_inv v A S roots nodes (insert a done) tb1 d1"
      "info_at tb1 = (info_at tb)(a := i)" "sto tb1 = wiped a i (sto tb)" "frame v A tb tb1" unfolding e by blast
  obtain tb2 d2 where 2: "try_fold (apply_account v roots nodes) l (tb1, d1) = Some (Inr (tb2, d2))"
      "acc_inv v A S roots nodes (insert a done \<union> fst ` set l) tb2 d2"
      "info_at tb2 = (\<lambda>a. case map_of l a of Some i \<Rightarrow> i | None \<Rightarrow> info_at tb1 a)"
      "sto tb2 = (\<lambda>k. if map_of l (fst k) = Some None then None else sto tb1 k)" "frame v A tb1 tb2"
    using Cons.IH [of "insert a done" tb1 d1] Cons.prems e 1(2) by auto
  have "info_at tb2 = (\<lambda>a. case map_of (e # l) a of Some i \<Rightarrow> i | None \<Rightarrow> info_at tb a)"
    by (rule ext) (auto simp: 2(3) 1(3) e al split: option.splits)
  moreover have "sto tb2 = (\<lambda>k. if map_of (e # l) (fst k) = Some None then None else sto tb k)"
    by (rule ext) (auto simp: 2(4) 1(4) e al wiped_def)
  moreover have "done \<union> fst ` set (e # l) = insert a done \<union> fst ` set l" using e by auto
  moreover have "try_fold (apply_account v roots nodes) (e # l) (tb, d) = Some (Inr (tb2, d2))" using 1(1) 2(1) by simp
  ultimately show ?case using 2(2) frame_trans [OF 1(5) 2(5)] by auto
qed

end
