(* ===== verification/State_Apply.thy ===== *)
theory State_Apply
  imports State_Inv
begin

text \<open>
  \<^verbatim>\<open>apply_changes\<close> as a whole: it succeeds on consistent tables, keeps them consistent, and what it leaves
  in them is a function of the changes. Tables are determined by what they say of accounts and slots.
\<close>

definition changes_ok :: "address set \<Rightarrow> b256 set \<Rightarrow> changeset \<Rightarrow> bool" where
  "changes_ok A S cs \<longleftrightarrow> fst ` set (cs_accounts cs) \<subseteq> A \<and> (\<forall>s \<in> set (cs_storage cs). change_ok A S s)"

definition touched :: "changeset \<Rightarrow> address \<Rightarrow> bool" where
  "touched cs a \<longleftrightarrow> (\<exists>s \<in> set (cs_storage cs). touches s \<and> sc_address s = a)"

definition last_info :: "changeset \<Rightarrow> address \<Rightarrow> info option option" where
  "last_info cs = map_of (rev (cs_accounts cs))"

definition new_info :: "codec \<Rightarrow> changeset \<Rightarrow> (address \<Rightarrow> info option) \<Rightarrow> address \<Rightarrow> info option" where
  "new_info v cs f a =
     (case last_info cs a of Some i \<Rightarrow> i | None \<Rightarrow> if touched cs a then Some (kept_info v (f a)) else f a)"

definition new_sto :: "changeset \<Rightarrow> (address \<times> b256 \<Rightarrow> u256 option) \<Rightarrow> address \<times> b256 \<Rightarrow> u256 option" where
  "new_sto cs m k = (if last_info cs (fst k) = Some None then None else fold sto_step (cs_storage cs) m k)"

definition same_rest :: "codec \<Rightarrow> address set \<Rightarrow> tables \<Rightarrow> tables \<Rightarrow> bool" where
  "same_rest v A tb tb' \<longleftrightarrow> t_acc_hist tb' = t_acc_hist tb \<and> t_sto_hist tb' = t_sto_hist tb \<and> t_hist_keys tb' = t_hist_keys tb
     \<and> t_head tb' = t_head tb \<and> t_base tb' = t_base tb \<and> (\<forall>k. k \<notin> hashed_address v ` A \<longrightarrow> t_trie_sto tb' k = t_trie_sto tb k)"

lemma frame_rest: "frame v A tb tb' \<Longrightarrow> same_rest v A tb tb' \<and> t_codes tb' = t_codes tb \<and> t_trie_acc tb' = t_trie_acc tb"
  unfolding frame_def same_rest_def by auto

lemma state_ok_cong:
  assumes "t_accounts tb' = t_accounts tb" "t_storage tb' = t_storage tb" "t_trie_acc tb' = t_trie_acc tb" "t_trie_sto tb' = t_trie_sto tb"
  shows "state_ok v A S tb' = state_ok v A S tb" "info_at tb' = info_at tb" "sto tb' = sto tb" "amap v A tb' = amap v A tb"
proof -
  have a: "acct tb' = acct tb" by (rule ext) (simp add: acct_def assms)
  show i: "info_at tb' = info_at tb" by (rule ext) (simp add: info_at_def a)
  show s: "sto tb' = sto tb" by (rule ext) (simp add: sto_def assms)
  show m: "amap v A tb' = amap v A tb" by (simp add: amap_def a)
  have "smap v S tb' = smap v S tb" by (rule ext) (simp add: smap_def s)
  then show "state_ok v A S tb' = state_ok v A S tb" by (simp add: state_ok_def sto_ok_def accs_ok_def s a m assms)
qed

lemma accs_at_start:
  assumes ok: "state_ok v A S tb" and st: "sto_ok v A S tb'" "roots_ok v A S tb' roots" "t_accounts tb' = t_accounts tb"
    "t_trie_acc tb' = t_trie_acc tb" and same: "\<And>a s. \<not> bt_has a roots \<Longrightarrow> sto tb' (a, s) = sto tb (a, s)"
  shows "acc_inv v A S roots (t_trie_acc tb) {} tb' []"
proof -
  have a: "acct tb' = acct tb" by (rule ext) (simp add: acct_def st)
  have m: "amap v A tb' = amap v A tb" by (simp add: amap_def a)
  obtain t where t: "holds (cd_keccak v) (cd_rlp v) (t_trie_acc tb) t" "twfo t" "reps t (amap v A tb)"
    using ok by (auto simp: state_ok_def trie_store_def)
  have "session (cd_keccak v) (cd_rlp v) (t_trie_acc tb) [] t" by (rule holds_session [OF t(1,2)])
  moreover have "smap v S tb' b = smap v S tb b" if "\<not> bt_has b roots" for b
    unfolding smap_def by (rule hm_cong) (simp add: same [OF that])
  moreover have "accs_ok A tb'" using ok by (simp add: state_ok_def accs_ok_def st)
  ultimately show ?thesis unfolding acc_inv_def m a
    using ok st t(3) same by (auto simp: state_ok_def roots_ok_def)
qed

lemma fold_sto_other: "(\<And>s. s \<in> set l \<Longrightarrow> touches s \<Longrightarrow> sc_address s \<noteq> fst k) \<Longrightarrow> fold sto_step l m k = m k"
proof (induction l arbitrary: m)
  case (Cons s l)
  have "sto_step s m k = m k"
  proof (cases "touches s")
    case True
    then show ?thesis using Cons.prems [of s] sto_step_other [of "fst k" s m "snd k"] by auto
  qed (simp add: touches_def sto_step_def)
  then show ?case using Cons by simp
qed simp

lemma changed_infos:
  assumes ok: "accs_ok A tb" and cs: "changes_ok A S cs" and roots: "\<And>a. bt_has a roots \<longleftrightarrow> touched cs a"
  shows "\<exists>infos. try_fold (add_info v tb) (map fst roots) (fold (\<lambda>(a, i). bt_insert a i) (cs_accounts cs) []) = Some (Inr infos)
    \<and> distinct (map fst infos) \<and> fst ` set infos \<subseteq> A
    \<and> (\<forall>a. map_of infos a = (case last_info cs a of Some i \<Rightarrow> Some i
         | None \<Rightarrow> if touched cs a then Some (Some (kept_info v (info_at tb a))) else None))"
proof -
  let ?init = "fold (\<lambda>(a, i). bt_insert a i) (cs_accounts cs) []"
  have "bt_wf ?init" by (rule bt_wf_fold_insert) (simp add: bt_wf_def)
  from infos_ok [OF ok this, of v "map fst roots"] obtain infos where
      i: "try_fold (add_info v tb) (map fst roots) ?init = Some (Inr infos)" "bt_wf infos"
      "\<And>a. bt_get a infos = (case bt_get a ?init of Some i \<Rightarrow> Some i
         | None \<Rightarrow> if a \<in> set (map fst roots) then Some (Some (kept_info v (info_at tb a))) else None)" by blast
  have init: "bt_get a ?init = last_info cs a" for a
    unfolding bt_get_fold_insert last_info_def by (auto simp: bt_simps split: option.splits)
  have keys: "a \<in> set (map fst roots) \<longleftrightarrow> touched cs a" for a using bt_keys [of a roots] roots by (simp add: bt_has_def)
  have get: "map_of infos a = (case last_info cs a of Some i \<Rightarrow> Some i
      | None \<Rightarrow> if touched cs a then Some (Some (kept_info v (info_at tb a))) else None)" for a
    using i(3) [of a] unfolding init keys by (simp add: bt_get_def)
  have "fst ` set infos \<subseteq> A"
  proof
    fix a assume "a \<in> fst ` set infos"
    then have "map_of infos a \<noteq> None" by (simp add: map_of_eq_None_iff)
    then have "last_info cs a \<noteq> None \<or> touched cs a" unfolding get by (auto split: option.splits if_splits)
    then show "a \<in> A" using cs by (auto simp: last_info_def map_of_eq_None_iff touched_def changes_ok_def change_ok_def)
  qed
  moreover have "distinct (map fst infos)" using i(2) by (simp add: bt_wf_def strict_sorted_iff)
  ultimately show ?thesis using i(1) get by blast
qed

lemma commit_accounts:
  assumes cd: "codec_ok v" and inv: "acc_inv v A S roots nodes D tb d" and all: "\<And>a. a \<in> D \<or> \<not> bt_has a roots"
  shows "\<exists>root w. trie_commit (cd_keccak v) (cd_rlp v) (cd_empty_root v) nodes d = Some (Inr (root, w))
    \<and> state_ok v A S (tb\<lparr>t_trie_acc := apply_writes w nodes\<rparr>) \<and> map_root v (amap v A tb) root"
proof -
  obtain t where t: "session (cd_keccak v) (cd_rlp v) nodes d t" "reps t (amap v A tb)" using inv by (auto simp: acc_inv_def)
  have R: "rlp_ok (cd_rlp v)" using cd by (simp add: codec_ok_def)
  let ?root = "root_of (cd_keccak v) (cd_rlp v) (cd_empty_root v) t"
  obtain w where w: "trie_commit (cd_keccak v) (cd_rlp v) (cd_empty_root v) nodes d = Some (Inr (?root, w))"
      "holds (cd_keccak v) (cd_rlp v) (apply_writes w nodes) t"
    using commit_ok [OF R t(1)] by blast
  define tb' where "tb' = tb\<lparr>t_trie_acc := apply_writes w nodes\<rparr>"
  have s: "sto tb' = sto tb" by (rule ext) (simp add: sto_def tb'_def)
  have a: "acct tb' = acct tb" by (rule ext) (simp add: acct_def tb'_def)
  have m: "amap v A tb' = amap v A tb" by (simp add: amap_def a)
  have sm: "smap v S tb' = smap v S tb" by (rule ext) (simp add: smap_def s)
  have tw: "twfo t" using t(1) by (simp add: session_def)
  have "stored v (t_trie_acc tb') (amap v A tb')" unfolding trie_store_def m using w(2) tw t(2) by (auto simp: tb'_def)
  then have "state_ok v A S tb'"
    using inv all unfolding state_ok_def acc_inv_def sto_ok_def accs_ok_def s sm a by (auto simp: tb'_def)
  moreover have "map_root v (amap v A tb) ?root" unfolding map_root_def using tw t(2) by blast
  ultimately show ?thesis using w(1) unfolding tb'_def by blast
qed

lemma apply_changes_ok:
  assumes cd: "codec_ok v" and ap: "apart v A S" and cs: "changes_ok A S cs" and ok: "state_ok v A S tb"
  shows "\<exists>root tb'. apply_changes v cs tb = Some (Inr (root, tb')) \<and> state_ok v A S tb' \<and> map_root v (amap v A tb') root
    \<and> info_at tb' = new_info v cs (info_at tb) \<and> sto tb' = new_sto cs (sto tb) \<and> same_rest v A tb tb'
    \<and> t_codes tb' = fold (\<lambda>(h, c). bt_insert h c) (cs_contracts cs) (t_codes tb)"
proof -
  define tb0 where "tb0 = tb\<lparr>t_codes := fold (\<lambda>(h, c). bt_insert h c) (cs_contracts cs) (t_codes tb)\<rparr>"
  have c0: "t_accounts tb0 = t_accounts tb" "t_storage tb0 = t_storage tb" "t_trie_acc tb0 = t_trie_acc tb" "t_trie_sto tb0 = t_trie_sto tb"
    by (simp_all add: tb0_def)
  have ok0: "state_ok v A S tb0" and i0: "info_at tb0 = info_at tb" and s0: "sto tb0 = sto tb"
    using state_ok_cong [OF c0] ok by simp_all
  have "sto_ok v A S tb0" "roots_ok v A S tb0 []" using ok0 by (simp_all add: state_ok_def roots_ok_def bt_simps bt_wf_def)
  then obtain tb1 roots where 1: "try_fold (apply_storage v) (cs_storage cs) (tb0, []) = Some (Inr (tb1, roots))"
      "sto_ok v A S tb1" "roots_ok v A S tb1 roots" "sto tb1 = fold sto_step (cs_storage cs) (sto tb0)" "frame v A tb0 tb1"
      "t_accounts tb1 = t_accounts tb0" "\<And>a. bt_has a roots \<longleftrightarrow> touched cs a"
    using apply_storages_ok [OF cd ap, of "cs_storage cs" tb0 "[]"] cs by (auto simp: changes_ok_def touched_def bt_has_def bt_simps)
  have f1: "same_rest v A tb0 tb1" "t_codes tb1 = t_codes tb0" "t_trie_acc tb1 = t_trie_acc tb0" using frame_rest [OF 1(5)] by simp_all
  have "acct tb1 = acct tb0" by (rule ext) (simp add: acct_def 1(6))
  then have i1: "info_at tb1 = info_at tb" using i0 by (simp add: info_at_def fun_eq_iff)
  have accs1: "accs_ok A tb1" using ok0 by (simp add: state_ok_def accs_ok_def 1(6))
  have inv: "acc_inv v A S roots (t_trie_acc tb0) {} tb1 []"
  proof (rule accs_at_start [OF ok0 1(2,3,6) f1(3)])
    fix a s assume "\<not> bt_has a roots"
    then show "sto tb1 (a, s) = sto tb0 (a, s)" unfolding 1(4) 1(7) touched_def by (intro fold_sto_other) auto
  qed
  obtain infos where i: "try_fold (add_info v tb1) (map fst roots) (fold (\<lambda>(a, i). bt_insert a i) (cs_accounts cs) []) = Some (Inr infos)"
      "distinct (map fst infos)" "fst ` set infos \<subseteq> A"
    and get: "\<And>a. map_of infos a = (case last_info cs a of Some i \<Rightarrow> Some i
         | None \<Rightarrow> if touched cs a then Some (Some (kept_info v (info_at tb a))) else None)"
    using changed_infos [OF accs1 cs 1(7)] unfolding i1 by blast
  obtain tb2 d where 2: "try_fold (apply_account v roots (t_trie_acc tb0)) infos (tb1, []) = Some (Inr (tb2, d))"
      "acc_inv v A S roots (t_trie_acc tb0) (fst ` set infos) tb2 d"
      "info_at tb2 = (\<lambda>a. case map_of infos a of Some i \<Rightarrow> i | None \<Rightarrow> info_at tb1 a)"
      "sto tb2 = (\<lambda>k. if map_of infos (fst k) = Some None then None else sto tb1 k)" "frame v A tb1 tb2"
    using apply_accounts_ok [OF cd ap i(2,3), of "{}" roots "t_trie_acc tb0" tb1 "[]"] inv by auto
  have f2: "same_rest v A tb1 tb2" "t_codes tb2 = t_codes tb1" using frame_rest [OF 2(5)] by simp_all
  have "a \<in> fst ` set infos \<or> \<not> bt_has a roots" for a
    using get [of a] 1(7) [of a] map_of_eq_None_iff [of infos a] by (auto split: option.splits)
  then obtain root w where w: "trie_commit (cd_keccak v) (cd_rlp v) (cd_empty_root v) (t_trie_acc tb0) d = Some (Inr (root, w))"
      "state_ok v A S (tb2\<lparr>t_trie_acc := apply_writes w (t_trie_acc tb0)\<rparr>)" "map_root v (amap v A tb2) root"
    using commit_accounts [OF cd 2(2)] by blast
  define tb3 where "tb3 = tb2\<lparr>t_trie_acc := apply_writes w (t_trie_acc tb0)\<rparr>"
  have s3: "sto tb3 = sto tb2" by (rule ext) (simp add: sto_def tb3_def)
  have a3: "acct tb3 = acct tb2" by (rule ext) (simp add: acct_def tb3_def)
  have "map_root v (amap v A tb3) root" using w(3) by (simp add: amap_def a3)
  moreover have "info_at tb3 = new_info v cs (info_at tb)"
  proof (rule ext)
    fix a show "info_at tb3 a = new_info v cs (info_at tb) a"
      using fun_cong [OF 2(3), of a] unfolding get i1 by (auto simp: info_at_def a3 new_info_def split: option.splits)
  qed
  moreover have "sto tb3 = new_sto cs (sto tb)"
  proof (rule ext)
    fix k show "sto tb3 k = new_sto cs (sto tb) k"
      using fun_cong [OF 2(4), of k] unfolding get 1(4) s0 s3 by (auto simp: new_sto_def split: option.splits if_splits)
  qed
  moreover have "same_rest v A tb tb3" using f1(1) f2(1) by (simp add: same_rest_def tb3_def tb0_def)
  moreover have "t_codes tb3 = fold (\<lambda>(h, c). bt_insert h c) (cs_contracts cs) (t_codes tb)"
    using f1(2) f2(2) by (simp add: tb3_def tb0_def)
  moreover have "apply_changes v cs tb = Some (Inr (root, tb3))"
    unfolding apply_changes_def Let_def tb0_def [symmetric] 1(1) try_bind_simps prod.case i(1) f1(3) 2(1) w(1) from_trie_simps tb3_def ..
  ultimately show ?thesis using w(2) unfolding tb3_def [symmetric] by blast
qed

end
