(* ===== verification/State_History.thy ===== *)
theory State_History
  imports State_Apply
begin

text \<open>
  The history tables and their index agree, and every entry decodes; so undoing a block never finds
  a corrupt table. Writing the history of a block and then undoing it restores every table.
\<close>

subsection \<open>Tables from what they say\<close>

lemma state_ext:
  assumes ok: "state_ok v A S tb" "state_ok v A S tb'" and i: "info_at tb' = info_at tb" and s: "sto tb' = sto tb"
    and r: "same_rest v A tb tb'"
  shows "tb' = tb\<lparr>t_codes := t_codes tb'\<rparr>" "map_root v (amap v A tb) root \<Longrightarrow> map_root v (amap v A tb') root' \<Longrightarrow> root' = root"
proof -
  have sm: "smap v S tb' = smap v S tb" by (rule ext) (simp add: smap_def s)
  have acct: "acct tb' a = acct tb a" for a
  proof (cases "acct tb a")
    case None
    then show ?thesis using fun_cong [OF i, of a] by (simp add: info_at_def)
  next
    case (Some acc)
    then obtain acc' where a': "acct tb' a = Some acc'" "info_of acc' = info_of acc" using fun_cong [OF i, of a] by (auto simp: info_at_def)
    then have "acc_storage_root acc' = acc_storage_root acc"
      by (intro map_root_unique [of v "smap v S tb a"]) (use ok Some sm in \<open>simp_all add: state_ok_def\<close>)
    then show ?thesis using Some a' by (simp add: info_of_def)
  qed
  then have acct': "acct tb' = acct tb" ..
  have am: "amap v A tb' = amap v A tb" by (simp add: amap_def acct)
  then show "map_root v (amap v A tb) root \<Longrightarrow> map_root v (amap v A tb') root' \<Longrightarrow> root' = root" using map_root_unique by simp
  have accs: "accs_ok A tb" "accs_ok A tb'" using ok by (simp_all add: state_ok_def)
  have "t_accounts tb' = t_accounts tb"
    by (rule bt_ext) (use accs in \<open>simp_all add: accs_ok_def acct_get [OF accs(1)] acct_get [OF accs(2)] acct\<close>)
  moreover have "t_storage tb' = t_storage tb"
    by (rule bt_ext) (use ok fun_cong [OF s] in \<open>auto simp: state_ok_def sto_ok_def sto_def\<close>)
  moreover have "t_trie_acc tb' = t_trie_acc tb" 
    by (rule stored_unique [of v _ "amap v A tb"]) (use ok am in \<open>simp_all add: state_ok_def\<close>)
  moreover have "t_trie_sto tb' = t_trie_sto tb"
  proof (rule ext)
    fix k show "t_trie_sto tb' k = t_trie_sto tb k"
    proof (cases "k \<in> hashed_address v ` A")
      case True
      then obtain a where a: "a \<in> A" "k = hashed_address v a" by blast
      then have "stored v (t_trie_sto tb' k) (smap v S tb a)" "stored v (t_trie_sto tb k) (smap v S tb a)"
        using ok unfolding state_ok_def sto_ok_def by (simp_all add: sm)
      then show ?thesis by (rule stored_unique)
    qed (use r in \<open>simp add: same_rest_def\<close>)
  qed
  ultimately show "tb' = tb\<lparr>t_codes := t_codes tb'\<rparr>" using r unfolding same_rest_def by (intro tables.equality) simp_all
qed

subsection \<open>Dropping history entries\<close>

definition same_state :: "tables \<Rightarrow> tables \<Rightarrow> bool" where
  "same_state tb tb' \<longleftrightarrow> (\<exists>x y z. tb' = tb\<lparr>t_acc_hist := x, t_sto_hist := y, t_hist_keys := z\<rparr>)"

lemma same_state_trans: "same_state tb tb1 \<Longrightarrow> same_state tb1 tb2 \<Longrightarrow> same_state tb tb2"
  unfolding same_state_def by fastforce

lemma same_state_refl: "same_state tb tb"
  unfolding same_state_def by (intro exI [of _ "t_acc_hist tb"] exI [of _ "t_sto_hist tb"] exI [of _ "t_hist_keys tb"]) simp

lemma same_state_ok:
  assumes "same_state tb tb'"
  shows "state_ok v A S tb' = state_ok v A S tb" "info_at tb' = info_at tb" "sto tb' = sto tb" "amap v A tb' = amap v A tb"
    "t_codes tb' = t_codes tb" "t_head tb' = t_head tb" "t_base tb' = t_base tb"
  using assms state_ok_cong [of tb' tb] by (auto simp: same_state_def)

definition hist_wf :: "tables \<Rightarrow> bool" where
  "hist_wf tb \<longleftrightarrow> bt_wf (t_acc_hist tb) \<and> bt_wf (t_sto_hist tb) \<and> bt_wf (t_hist_keys tb)"

lemma drop_keys:
  shows "bt_get (a, j) (t_acc_hist (fold drop_key l tb)) = (if (j, Acc_Key a) \<in> set l then None else bt_get (a, j) (t_acc_hist tb))" (is ?acc)
    and "bt_get ((a, s), j) (t_sto_hist (fold drop_key l tb)) = (if (j, Sto_Key a s) \<in> set l then None else bt_get ((a, s), j) (t_sto_hist tb))" (is ?sto)
    and "bt_get k (t_hist_keys (fold drop_key l tb)) = (if k \<in> set l then None else bt_get k (t_hist_keys tb))" (is ?keys)
    and "hist_wf tb \<Longrightarrow> hist_wf (fold drop_key l tb)" and "same_state tb (fold drop_key l tb)"
proof -
  have "?acc \<and> ?sto \<and> ?keys" for a s j k
  proof (induction l arbitrary: tb)
    case (Cons e l)
    obtain n h where "e = (n, h)" by fastforce
    then show ?case using Cons by (cases h) (auto simp: drop_key_def bt_simps)
  qed simp
  then show ?acc ?sto ?keys by blast+
  show "hist_wf tb \<Longrightarrow> hist_wf (fold drop_key l tb)"
  proof (induction l arbitrary: tb)
    case (Cons e l)
    have "hist_wf (drop_key e tb)" using Cons.prems by (auto simp: drop_key_def hist_wf_def bt_wf_remove split: prod.splits hist_key.splits)
    then show ?case using Cons.IH by simp
  qed simp
  show "same_state tb (fold drop_key l tb)"
  proof (induction l arbitrary: tb)
    case (Cons e l)
    obtain n h where e: "e = (n, h)" by fastforce
    have "same_state tb (drop_key e tb)" unfolding same_state_def
      by (intro exI [of _ "t_acc_hist (drop_key e tb)"] exI [of _ "t_sto_hist (drop_key e tb)"] exI [of _ "t_hist_keys (drop_key e tb)"])
        (cases h, simp_all add: drop_key_def e)
    then show ?case using Cons.IH [of "drop_key e tb"] same_state_trans by simp
  qed (simp add: same_state_refl)
qed

subsection \<open>Writing the history of a block\<close>

definition revert_slots :: "reverts \<Rightarrow> ((address \<times> b256) \<times> u256) list" where
  "revert_slots rv = concat (map (\<lambda>s. map (\<lambda>(slot, r). ((sr_address s, slot), prior_value r)) (sr_slots s)) (concat (rv_storage rv)))"

definition revert_accounts :: "reverts \<Rightarrow> (address \<times> info option) list" where
  "revert_accounts rv = concat (rv_accounts rv)"

definition put_hist_slot :: "u64 \<Rightarrow> (address \<times> b256) \<times> u256 \<Rightarrow> tables \<Rightarrow> tables" where
  "put_hist_slot n e tb =
     tb\<lparr>t_sto_hist := bt_insert (fst e, n) (snd e) (t_sto_hist tb), t_hist_keys := bt_insert (n, Sto_Key (fst (fst e)) (snd (fst e))) () (t_hist_keys tb)\<rparr>"

lemma hist_slots: "fold (hist_slot n a) l tb = fold (put_hist_slot n) (map (\<lambda>(slot, r). ((a, slot), prior_value r)) l) tb"
  by (induction l arbitrary: tb) (auto simp: hist_slot_def put_hist_slot_def)

lemma write_history_eq: "write_history n rv tb = fold (put_hist_slot n) (revert_slots rv) (fold (hist_account n) (revert_accounts rv) tb)"
proof -
  have "fold (\<lambda>s. fold (hist_slot n (sr_address s)) (sr_slots s)) l tb =
      fold (put_hist_slot n) (concat (map (\<lambda>s. map (\<lambda>(slot, r). ((sr_address s, slot), prior_value r)) (sr_slots s)) l)) tb" for l tb
    by (induction l arbitrary: tb) (simp_all add: hist_slots)
  then show ?thesis by (simp add: write_history_def revert_slots_def revert_accounts_def)
qed

lemma write_accounts:
  shows "bt_get (a, j) (t_acc_hist (fold (hist_account n) l tb)) = (if j = n \<and> a \<in> fst ` set l
      then map_option encode_hist_info (map_of (rev l) a) else bt_get (a, j) (t_acc_hist tb))"
    and "bt_get (j, k) (t_hist_keys (fold (hist_account n) l tb)) = (if j = n \<and> k \<in> Acc_Key ` fst ` set l
      then Some () else bt_get (j, k) (t_hist_keys tb))"
    and "t_sto_hist (fold (hist_account n) l tb) = t_sto_hist tb"
    and "hist_wf tb \<Longrightarrow> hist_wf (fold (hist_account n) l tb)" and "same_state tb (fold (hist_account n) l tb)"
proof (induction l rule: rev_induct)
  case (snoc e l)
  note IH = snoc
  obtain b i where e: "e = (b, i)" by fastforce
  let ?t = "fold (hist_account n) l tb"
  {
    case 1 show ?case using IH(1) by (cases "j = n") (simp_all add: e hist_account_def bt_simps)
  next
    case 2
    have "bt_get (j, k) (t_hist_keys (hist_account n e ?t)) = (if (j, k) = (n, Acc_Key b) then Some () else bt_get (j, k) (t_hist_keys ?t))"
      by (simp add: e hist_account_def bt_simps)
    then show ?case unfolding fold_append comp_apply fold_simps id_apply IH(2) by (cases "j = n") (simp_all add: e)
  next
    case 3 show ?case using IH(3) by (simp add: e hist_account_def)
  next
    case 4 then show ?case using IH(4) by (simp add: e hist_account_def hist_wf_def bt_wf_insert)
  next
    case 5
    have "same_state ?t (hist_account n e ?t)" unfolding same_state_def
      by (intro exI [of _ "t_acc_hist (hist_account n e ?t)"] exI [of _ "t_sto_hist ?t"] exI [of _ "t_hist_keys (hist_account n e ?t)"])
        (simp add: e hist_account_def)
    then show ?case using same_state_trans [OF IH(5)] by simp
  }
qed (simp_all add: same_state_refl)

lemma write_slots:
  shows "bt_get (k, j) (t_sto_hist (fold (put_hist_slot n) l tb)) = (if j = n \<and> k \<in> fst ` set l
      then map_of (rev l) k else bt_get (k, j) (t_sto_hist tb))"
    and "bt_get (j, h) (t_hist_keys (fold (put_hist_slot n) l tb)) = (if j = n \<and> h \<in> (\<lambda>(a, s). Sto_Key a s) ` fst ` set l
      then Some () else bt_get (j, h) (t_hist_keys tb))"
    and "t_acc_hist (fold (put_hist_slot n) l tb) = t_acc_hist tb"
    and "hist_wf tb \<Longrightarrow> hist_wf (fold (put_hist_slot n) l tb)" and "same_state tb (fold (put_hist_slot n) l tb)"
proof (induction l rule: rev_induct)
  case (snoc e l)
  note IH = snoc
  obtain a s x where e: "e = ((a, s), x)" by (metis prod.exhaust)
  let ?t = "fold (put_hist_slot n) l tb"
  {
    case 1 show ?case using IH(1) by (cases "j = n") (simp_all add: e put_hist_slot_def bt_simps)
  next
    case 2
    have "bt_get (j, h) (t_hist_keys (put_hist_slot n e ?t)) = (if (j, h) = (n, Sto_Key a s) then Some () else bt_get (j, h) (t_hist_keys ?t))"
      by (simp add: e put_hist_slot_def bt_simps)
    then show ?case unfolding fold_append comp_apply fold_simps id_apply IH(2) by (cases "j = n") (simp_all add: e)
  next
    case 3 show ?case using IH(3) by (simp add: e put_hist_slot_def)
  next
    case 4 then show ?case using IH(4) by (simp add: e put_hist_slot_def hist_wf_def bt_wf_insert)
  next
    case 5
    have "same_state ?t (put_hist_slot n e ?t)" unfolding same_state_def
      by (intro exI [of _ "t_acc_hist ?t"] exI [of _ "t_sto_hist (put_hist_slot n e ?t)"] exI [of _ "t_hist_keys (put_hist_slot n e ?t)"])
        (simp add: e put_hist_slot_def)
    then show ?case using same_state_trans [OF IH(5)] by simp
  }
qed (simp_all add: same_state_refl)

lemma write_history_get:
  shows "bt_get (a, j) (t_acc_hist (write_history n rv tb)) = (if j = n \<and> a \<in> fst ` set (revert_accounts rv)
      then map_option encode_hist_info (map_of (rev (revert_accounts rv)) a) else bt_get (a, j) (t_acc_hist tb))"
    and "bt_get (k, j) (t_sto_hist (write_history n rv tb)) = (if j = n \<and> k \<in> fst ` set (revert_slots rv)
      then map_of (rev (revert_slots rv)) k else bt_get (k, j) (t_sto_hist tb))"
    and "bt_get (j, h) (t_hist_keys (write_history n rv tb)) =
      (if j = n \<and> (h \<in> Acc_Key ` fst ` set (revert_accounts rv) \<or> h \<in> (\<lambda>(a, s). Sto_Key a s) ` fst ` set (revert_slots rv))
       then Some () else bt_get (j, h) (t_hist_keys tb))"
    and "hist_wf tb \<Longrightarrow> hist_wf (write_history n rv tb)" and "same_state tb (write_history n rv tb)"
  unfolding write_history_eq
  by (simp_all only: write_slots(1,2,3) write_accounts(1,2,3) write_slots(4) [OF write_accounts(4)] same_state_trans [OF write_accounts(5) write_slots(5)])
    auto

text \<open>The index holds exactly the entries of the two history tables, and every entry decodes.\<close>

definition hist_ok :: "address set \<Rightarrow> b256 set \<Rightarrow> tables \<Rightarrow> bool" where
  "hist_ok A S tb \<longleftrightarrow> hist_wf tb
     \<and> (\<forall>a n. bt_has (n, Acc_Key a) (t_hist_keys tb) \<longleftrightarrow> bt_has (a, n) (t_acc_hist tb))
     \<and> (\<forall>a s n. bt_has (n, Sto_Key a s) (t_hist_keys tb) \<longleftrightarrow> bt_has ((a, s), n) (t_sto_hist tb))
     \<and> (\<forall>a n b. bt_get (a, n) (t_acc_hist tb) = Some b \<longrightarrow> a \<in> A \<and> (\<exists>i. b = encode_hist_info i))
     \<and> (\<forall>a s n x. bt_get ((a, s), n) (t_sto_hist tb) = Some x \<longrightarrow> a \<in> A \<and> s \<in> S)"

lemma hist_ok_acc: "hist_ok A S tb \<Longrightarrow> bt_get (a, n) (t_acc_hist tb) = Some b \<Longrightarrow> a \<in> A \<and> (\<exists>i. b = encode_hist_info i)"
  unfolding hist_ok_def by blast

lemma hist_ok_slot: "hist_ok A S tb \<Longrightarrow> bt_get ((a, s), n) (t_sto_hist tb) = Some x \<Longrightarrow> a \<in> A \<and> s \<in> S"
  unfolding hist_ok_def by blast

definition reverts_in :: "address set \<Rightarrow> b256 set \<Rightarrow> reverts \<Rightarrow> bool" where
  "reverts_in A S rv \<longleftrightarrow> fst ` set (revert_accounts rv) \<subseteq> A \<and> fst ` set (revert_slots rv) \<subseteq> A \<times> S"

lemma hist_ok_write:
  assumes ok: "hist_ok A S tb" and rv: "reverts_in A S rv" shows "hist_ok A S (write_history n rv tb)"
proof -
  have acc: "\<exists>i. map_of (rev (revert_accounts rv)) a = Some i" if "a \<in> fst ` set (revert_accounts rv)" for a
    using that map_of_eq_None_iff [of "rev (revert_accounts rv)" a] by (cases "map_of (rev (revert_accounts rv)) a") auto
  have slot: "\<exists>x. map_of (rev (revert_slots rv)) k = Some x" if "k \<in> fst ` set (revert_slots rv)" for k
    using that map_of_eq_None_iff [of "rev (revert_slots rv)" k] by (cases "map_of (rev (revert_slots rv)) k") auto
  have key: "Sto_Key a s \<in> (\<lambda>(a, s). Sto_Key a s) ` X \<longleftrightarrow> (a, s) \<in> X" "Acc_Key a \<notin> (\<lambda>(a, s). Sto_Key a s) ` X"
    "Acc_Key a \<in> Acc_Key ` Y \<longleftrightarrow> a \<in> Y" "Sto_Key a s \<notin> Acc_Key ` Y" for a s X Y by auto
  have "hist_wf (write_history n rv tb)" using ok write_history_get(4) by (simp add: hist_ok_def)
  moreover have "bt_has (j, Acc_Key a) (t_hist_keys (write_history n rv tb)) \<longleftrightarrow> bt_has (a, j) (t_acc_hist (write_history n rv tb))" for a j
    using ok acc [of a] unfolding bt_has_def write_history_get key hist_ok_def by auto
  moreover have "bt_has (j, Sto_Key a s) (t_hist_keys (write_history n rv tb)) \<longleftrightarrow> bt_has ((a, s), j) (t_sto_hist (write_history n rv tb))" for a s j
    using ok slot [of "(a, s)"] unfolding bt_has_def write_history_get key hist_ok_def by auto
  moreover have "a \<in> A \<and> (\<exists>i. b = encode_hist_info i)" if "bt_get (a, j) (t_acc_hist (write_history n rv tb)) = Some b" for a j b
    using that hist_ok_acc [OF ok, of a j b] rv unfolding write_history_get reverts_in_def by (auto split: if_splits)
  moreover have "a \<in> A \<and> s \<in> S" if "bt_get ((a, s), j) (t_sto_hist (write_history n rv tb)) = Some x" for a s j x
    using that hist_ok_slot [OF ok, of a s j x] rv unfolding write_history_get reverts_in_def by (auto split: if_splits)
  ultimately show ?thesis unfolding hist_ok_def by blast
qed

lemma hist_ok_drop:
  assumes ok: "hist_ok A S tb" shows "hist_ok A S (fold drop_key l tb)"
proof -
  have "hist_wf (fold drop_key l tb)" using ok drop_keys(4) by (simp add: hist_ok_def)
  moreover have "a \<in> A \<and> s \<in> S" if "bt_get ((a, s), j) (t_sto_hist (fold drop_key l tb)) = Some x" for a s j x
    using that hist_ok_slot [OF ok, of a s j x] unfolding drop_keys by (simp split: if_splits)
  moreover have "a \<in> A \<and> (\<exists>i. b = encode_hist_info i)" if "bt_get (a, j) (t_acc_hist (fold drop_key l tb)) = Some b" for a j b
    using that hist_ok_acc [OF ok, of a j b] unfolding drop_keys by (simp split: if_splits)
  moreover have "bt_has (j, Acc_Key a) (t_hist_keys (fold drop_key l tb)) \<longleftrightarrow> bt_has (a, j) (t_acc_hist (fold drop_key l tb))"
    "bt_has (j, Sto_Key a s) (t_hist_keys (fold drop_key l tb)) \<longleftrightarrow> bt_has ((a, s), j) (t_sto_hist (fold drop_key l tb))" for a s j
    using ok unfolding bt_has_def drop_keys hist_ok_def by simp_all
  ultimately show ?thesis unfolding hist_ok_def by blast
qed

subsection \<open>The keys of one block\<close>

lemma run_of_key:
  fixes l :: "('a::linorder \<times> 'b::linorder) list"
  shows "sorted_wrt (<) l \<Longrightarrow> takeWhile (\<lambda>k. fst k = n) (dropWhile (\<lambda>k. fst k < n) l) = filter (\<lambda>k. fst k = n) l"
proof (induction l)
  case (Cons x l)
  have le: "fst x \<le> fst y" if "y \<in> set l" for y using Cons.prems that by (auto simp: less_prod_def)
  show ?case
  proof (cases "fst x < n")
    case False
    have "takeWhile (\<lambda>k. fst k = n) l = filter (\<lambda>k. fst k = n) l" if "fst x = n"
    proof -
      have "dropWhile (\<lambda>k. fst k < n) l = l" using le that by (cases l) (auto simp: not_less [symmetric] simp del: not_less)
      then show ?thesis using Cons by simp
    qed
    moreover have "filter (\<lambda>k. fst k = n) l = []" if "fst x \<noteq> n" using le that False by (force simp: filter_empty_conv)
    ultimately show ?thesis using False by simp
  qed (use Cons in simp)
qed simp

lemma keys_filter: "hist_wf tb \<Longrightarrow> hist_keys_of n tb = map snd (filter (\<lambda>k. fst k = n) (map fst (t_hist_keys tb)))"
  unfolding hist_keys_of_def by (subst run_of_key) (simp_all add: hist_wf_def bt_wf_def)

lemma keys_of_block:
  assumes "hist_wf tb"
  shows "set (hist_keys_of n tb) = {k. bt_has (n, k) (t_hist_keys tb)}" "distinct (hist_keys_of n tb)"
proof -
  have s: "sorted_wrt (<) (map fst (t_hist_keys tb))" using assms by (simp add: hist_wf_def bt_wf_def)
  note e = keys_filter [OF assms]
  show "set (hist_keys_of n tb) = {k. bt_has (n, k) (t_hist_keys tb)}"
    unfolding e bt_has_def using bt_keys [of _ "t_hist_keys tb"] by (force simp: image_iff)
  have "distinct (map fst (t_hist_keys tb))" using s by (simp add: strict_sorted_iff)
  then show "distinct (hist_keys_of n tb)" unfolding e by (auto simp: distinct_map inj_on_def)
qed

end
