(* ===== verification/State_Undo.thy ===== *)
theory State_Undo
  imports State_History
begin

text \<open>
  Undoing a block: \<^verbatim>\<open>unwind_state\<close> puts the recorded values back and drops the block's history. It undoes
  \<^verbatim>\<open>apply_bundle\<close>, and every table reached by the store's operations has the root the last of them returned.
\<close>

subsection \<open>Collecting what to undo\<close>

definition undo_step :: "(address \<Rightarrow> info option) \<Rightarrow> (address \<Rightarrow> b256 \<Rightarrow> u256) \<Rightarrow> hist_key \<Rightarrow> undo \<Rightarrow> undo" where
  "undo_step f g k u =
     (case k of
        Acc_Key a \<Rightarrow> u\<lparr>un_accounts := un_accounts u @ [(a, f a)]\<rparr>
      | Sto_Key a s \<Rightarrow> u\<lparr>un_storage :=
          bt_insert a ((case bt_get a (un_storage u) of Some l \<Rightarrow> l | None \<Rightarrow> []) @ [(s, g a s)]) (un_storage u)\<rparr>)"

definition no_undo :: undo where "no_undo = \<lparr>un_accounts = [], un_storage = []\<rparr>"

definition slots_of :: "undo \<Rightarrow> address \<Rightarrow> (u256 \<times> u256) list" where
  "slots_of u a = (case bt_get a (un_storage u) of Some l \<Rightarrow> l | None \<Rightarrow> [])"

lemma undo_keys:
  assumes "distinct keys" "\<And>a. Acc_Key a \<in> set keys \<Longrightarrow> bt_get (a, n) (t_acc_hist tb) = Some (encode_hist_info (f a))"
    "\<And>a s. Sto_Key a s \<in> set keys \<Longrightarrow> bt_get ((a, s), n) (t_sto_hist tb) = Some (g a s)"
  shows "try_fold (undo_key n) keys (tb, u) = Some (Inr (fold drop_key (map (Pair n) keys) tb, fold (undo_step f g) keys u))"
  using assms
proof (induction keys arbitrary: tb u)
  case (Cons k keys)
  have "undo_key n k (tb, u) = Some (Inr (drop_key (n, k) tb, undo_step f g k u))"
    using Cons.prems(2,3) by (cases k) (auto simp: undo_key_def drop_key_def undo_step_def)
  moreover have "bt_get (a, n) (t_acc_hist (drop_key (n, k) tb)) = Some (encode_hist_info (f a))" if "Acc_Key a \<in> set keys" for a
    using drop_keys(1) [of a n "[(n, k)]" tb] Cons.prems that by auto
  moreover have "bt_get ((a, s), n) (t_sto_hist (drop_key (n, k) tb)) = Some (g a s)" if "Sto_Key a s \<in> set keys" for a s
    using drop_keys(2) [of a s n "[(n, k)]" tb] Cons.prems that by auto
  ultimately show ?case using Cons.IH [of "drop_key (n, k) tb" "undo_step f g k u"] Cons.prems(1) by simp
qed simp

lemma undo_accounts:
  shows "map_of (rev (un_accounts (fold (undo_step f g) keys no_undo))) a = (if Acc_Key a \<in> set keys then Some (f a) else None)"
    and "fst ` set (un_accounts (fold (undo_step f g) keys no_undo)) = {a. Acc_Key a \<in> set keys}"
proof (induction keys rule: rev_induct)
  case (snoc k keys)
  note IH = snoc
  {
    case 1 show ?case using IH(1) by (cases k) (simp_all add: undo_step_def)
  next
    case 2 show ?case using IH(2) by (cases k) (auto simp: undo_step_def)
  }
qed (simp_all add: no_undo_def)

lemma undo_slots:
  shows "map_of (rev (slots_of (fold (undo_step f g) keys no_undo) a)) s = (if Sto_Key a s \<in> set keys then Some (g a s) else None)"
    and "fst ` set (slots_of (fold (undo_step f g) keys no_undo) a) = {s. Sto_Key a s \<in> set keys}"
    and "bt_wf (un_storage (fold (undo_step f g) keys no_undo))"
    and "bt_get a (un_storage (fold (undo_step f g) keys no_undo)) \<noteq> Some []"
proof (induction keys rule: rev_induct)
  case (snoc k keys)
  note IH = snoc
  let ?u = "fold (undo_step f g) keys no_undo"
  have step: "slots_of (undo_step f g k ?u) a = slots_of ?u a @ (case k of Sto_Key b s \<Rightarrow> if b = a then [(s, g a s)] else [] | _ \<Rightarrow> [])"
    by (cases k) (auto simp: undo_step_def slots_of_def bt_simps)
  {
    case 1 show ?case using IH(1) step by (cases k) simp_all
  next
    case 2 show ?case using IH(2) step by (cases k) auto
  next
    case 3 show ?case using IH(3) by (cases k) (simp_all add: undo_step_def bt_wf_insert)
  next
    case 4 show ?case using IH(4) by (cases k) (simp_all add: undo_step_def bt_simps)
  }
qed (simp_all add: no_undo_def slots_of_def bt_simps bt_wf_def)

definition undo_changes :: "undo \<Rightarrow> changeset" where
  "undo_changes u =
     \<lparr>cs_accounts = un_accounts u, cs_storage = map (\<lambda>(a, slots). \<lparr>sc_address = a, sc_wipe = False, sc_slots = slots\<rparr>) (un_storage u),
      cs_contracts = []\<rparr>"

lemma set_slots_at: "fold (set_slot a) l m (a, s) = (case map_of (rev l) s of Some x \<Rightarrow> nz x | None \<Rightarrow> m (a, s))"
proof (induction l rule: rev_induct)
  case (snoc e l)
  then show ?case by (cases e) (simp add: set_slot_def)
qed simp

lemma fold_sto_slots:
  "distinct (map fst l) \<Longrightarrow> fold sto_step (map (\<lambda>(a, slots). \<lparr>sc_address = a, sc_wipe = False, sc_slots = slots\<rparr>) l) m (a, s) =
     (case map_of l a of Some sl \<Rightarrow> fold (set_slot a) sl m (a, s) | None \<Rightarrow> m (a, s))"
proof (induction l arbitrary: m)
  case (Cons e l)
  obtain b sl where e: "e = (b, sl)" by fastforce
  have st: "sto_step \<lparr>sc_address = b, sc_wipe = False, sc_slots = sl\<rparr> m = fold (set_slot b) sl m" by (simp add: sto_step_def)
  show ?case
  proof (cases "b = a")
    case True
    then have "map_of l a = None" using Cons.prems e by (simp add: map_of_eq_None_iff)
    then show ?thesis using Cons True st by (simp add: e)
  next
    case False
    have "fold (set_slot a) sl' (fold (set_slot b) sl m) (a, s) = fold (set_slot a) sl' m (a, s)" for sl'
      unfolding set_slots_at using False by (simp add: set_slots_other split: option.split)
    then show ?thesis using Cons False st by (simp add: e set_slots_other split: option.splits)
  qed
qed simp

text \<open>What undoing the keys does to accounts and slots.\<close>

lemma undo_effect:
  fixes f g keys
  defines "cs \<equiv> undo_changes (fold (undo_step f g) keys no_undo)"
  shows "last_info cs a = (if Acc_Key a \<in> set keys then Some (f a) else None)"
    and "touched cs a \<longleftrightarrow> (\<exists>s. Sto_Key a s \<in> set keys)"
    and "new_sto cs m (a, s) = (if Acc_Key a \<in> set keys \<and> f a = None then None else if Sto_Key a s \<in> set keys then nz (g a s) else m (a, s))"
    and "(\<And>a. Acc_Key a \<in> set keys \<Longrightarrow> a \<in> A) \<Longrightarrow> (\<And>a s. Sto_Key a s \<in> set keys \<Longrightarrow> a \<in> A \<and> s \<in> S) \<Longrightarrow> changes_ok A S cs"
proof -
  let ?u = "fold (undo_step f g) keys no_undo"
  show l: "last_info cs a = (if Acc_Key a \<in> set keys then Some (f a) else None)"
    unfolding last_info_def cs_def undo_changes_def changeset.simps by (rule undo_accounts)
  have wf: "bt_wf (un_storage ?u)" by (rule undo_slots)
  have mem: "(b, sl) \<in> set (un_storage ?u) \<Longrightarrow> sl = slots_of ?u b \<and> sl \<noteq> []" for b sl
    using bt_get_iff [OF wf, of b sl] undo_slots(4) [of b f g keys] by (auto simp: slots_of_def)
  have has: "slots_of ?u b \<noteq> [] \<Longrightarrow> (b, slots_of ?u b) \<in> set (un_storage ?u)" for b
    using bt_get_iff [OF wf, of b "slots_of ?u b"] by (auto simp: slots_of_def split: option.splits)
  have ne: "slots_of ?u b \<noteq> [] \<longleftrightarrow> (\<exists>s. Sto_Key b s \<in> set keys)" for b
    using undo_slots(2) [of f g keys b] by (metis (mono_tags) empty_Collect_eq image_is_empty set_empty)
  have "touched cs a \<longleftrightarrow> (\<exists>sl. (a, sl) \<in> set (un_storage ?u) \<and> sl \<noteq> [])"
    by (force simp: touched_def touches_def cs_def undo_changes_def)
  then show "touched cs a \<longleftrightarrow> (\<exists>s. Sto_Key a s \<in> set keys)" using mem has ne by metis
  have d: "distinct (map fst (un_storage ?u))" using wf by (simp add: bt_wf_def strict_sorted_iff)
  have "fold sto_step (cs_storage cs) m (a, s) = fold (set_slot a) (slots_of ?u a) m (a, s)"
    unfolding cs_def undo_changes_def changeset.simps fold_sto_slots [OF d] by (auto simp: slots_of_def bt_get_def split: option.splits)
  then show "new_sto cs m (a, s) = (if Acc_Key a \<in> set keys \<and> f a = None then None else if Sto_Key a s \<in> set keys then nz (g a s) else m (a, s))"
    unfolding new_sto_def fst_conv l set_slots_at undo_slots(1) by auto
  assume k: "\<And>a. Acc_Key a \<in> set keys \<Longrightarrow> a \<in> A" "\<And>a s. Sto_Key a s \<in> set keys \<Longrightarrow> a \<in> A \<and> s \<in> S"
  have "b \<in> A \<and> (\<forall>e \<in> set sl. fst e \<in> S)" if "(b, sl) \<in> set (un_storage ?u)" for b sl
  proof -
    have sl: "sl = slots_of ?u b" "sl \<noteq> []" using mem [OF that] by blast+
    have "Sto_Key b (fst e) \<in> set keys" if "e \<in> set sl" for e using that undo_slots(2) [of f g keys b] sl by blast
    then show ?thesis using k(2) sl ne [of b] by blast
  qed
  then show "changes_ok A S cs" using k(1) undo_accounts(2) [of f g keys] by (fastforce simp: changes_ok_def change_ok_def cs_def undo_changes_def)
qed

subsection \<open>Undoing a block\<close>

definition acc_prior :: "u64 \<Rightarrow> tables \<Rightarrow> address \<Rightarrow> info option" where
  "acc_prior n tb a = the (decode_hist_info (the (bt_get (a, n) (t_acc_hist tb))))"

definition sto_prior :: "u64 \<Rightarrow> tables \<Rightarrow> address \<Rightarrow> b256 \<Rightarrow> u256" where
  "sto_prior n tb a s = the (bt_get ((a, s), n) (t_sto_hist tb))"

definition block_undo :: "u64 \<Rightarrow> tables \<Rightarrow> changeset" where
  "block_undo n tb = undo_changes (fold (undo_step (acc_prior n tb) (sto_prior n tb)) (hist_keys_of n tb) no_undo)"

lemma hist_ok_cong:
  "same_rest v A tb tb' \<Longrightarrow> hist_ok A S tb' = hist_ok A S tb"
  by (simp add: same_rest_def hist_ok_def hist_wf_def)

lemma hist_key_entries:
  assumes ok: "hist_ok A S tb"
  shows "Acc_Key a \<in> set (hist_keys_of n tb) \<Longrightarrow> bt_get (a, n) (t_acc_hist tb) = Some (encode_hist_info (acc_prior n tb a)) \<and> a \<in> A"
    and "Sto_Key a s \<in> set (hist_keys_of n tb) \<Longrightarrow> bt_get ((a, s), n) (t_sto_hist tb) = Some (sto_prior n tb a s) \<and> a \<in> A \<and> s \<in> S"
proof -
  have wf: "hist_wf tb" using ok by (simp add: hist_ok_def)
  show "bt_get (a, n) (t_acc_hist tb) = Some (encode_hist_info (acc_prior n tb a)) \<and> a \<in> A" if k: "Acc_Key a \<in> set (hist_keys_of n tb)"
  proof -
    have "bt_has (a, n) (t_acc_hist tb)" using k ok unfolding keys_of_block(1) [OF wf] hist_ok_def by simp
    then obtain b where b: "bt_get (a, n) (t_acc_hist tb) = Some b" by (auto simp: bt_has_def)
    show ?thesis using hist_ok_acc [OF ok b] b by (auto simp: acc_prior_def)
  qed
  show "bt_get ((a, s), n) (t_sto_hist tb) = Some (sto_prior n tb a s) \<and> a \<in> A \<and> s \<in> S" if k: "Sto_Key a s \<in> set (hist_keys_of n tb)"
  proof -
    have "bt_has ((a, s), n) (t_sto_hist tb)" using k ok unfolding keys_of_block(1) [OF wf] hist_ok_def by simp
    then obtain x where x: "bt_get ((a, s), n) (t_sto_hist tb) = Some x" by (auto simp: bt_has_def)
    show ?thesis using hist_ok_slot [OF ok x] x by (simp add: sto_prior_def)
  qed
qed

lemma unwind_state_ok:
  assumes cd: "codec_ok v" and ap: "apart v A S" and ok: "state_ok v A S tb" "hist_ok A S tb"
    and g: "hist_keys_of n tb \<noteq> [] \<or> history_covers tb n"
  shows "\<exists>root tb'. unwind_state v n tb = Some (Inr (root, tb')) \<and> state_ok v A S tb' \<and> hist_ok A S tb' \<and> map_root v (amap v A tb') root
    \<and> info_at tb' = new_info v (block_undo n tb) (info_at tb) \<and> sto tb' = new_sto (block_undo n tb) (sto tb)
    \<and> same_rest v A (fold drop_key (map (Pair n) (hist_keys_of n tb)) tb) tb' \<and> t_codes tb' = t_codes tb"
proof -
  let ?keys = "hist_keys_of n tb"
  let ?tb = "fold drop_key (map (Pair n) ?keys) tb"
  have wf: "hist_wf tb" using ok(2) by (simp add: hist_ok_def)
  have u: "try_fold (undo_key n) ?keys (tb, no_undo) = Some (Inr (?tb, fold (undo_step (acc_prior n tb) (sto_prior n tb)) ?keys no_undo))"
    by (rule undo_keys [OF keys_of_block(2) [OF wf]]) (use hist_key_entries [OF ok(2)] in blast)+
  have cs: "changes_ok A S (block_undo n tb)" unfolding block_undo_def
    by (rule undo_effect(4)) (use hist_key_entries [OF ok(2)] in blast)+
  note same = same_state_ok [OF drop_keys(5) [of tb "map (Pair n) ?keys"]]
  have "state_ok v A S ?tb" using ok(1) same(1) by simp
  from apply_changes_ok [OF cd ap cs this] obtain root tb' where
      a: "apply_changes v (block_undo n tb) ?tb = Some (Inr (root, tb'))" "state_ok v A S tb'" "map_root v (amap v A tb') root"
      "info_at tb' = new_info v (block_undo n tb) (info_at ?tb)" "sto tb' = new_sto (block_undo n tb) (sto ?tb)" "same_rest v A ?tb tb'"
      "t_codes tb' = fold (\<lambda>(h, c). bt_insert h c) (cs_contracts (block_undo n tb)) (t_codes ?tb)" by blast
  have "t_codes tb' = t_codes tb" using a(7) same(5) by (simp add: block_undo_def undo_changes_def)
  moreover have "unwind_state v n tb = Some (Inr (root, tb'))"
    using g u a(1) unfolding unwind_state_def block_undo_def undo_changes_def no_undo_def Let_def by auto
  moreover have "hist_ok A S tb'" using hist_ok_cong [OF a(6)] hist_ok_drop [OF ok(2)] by simp
  ultimately show ?thesis using a(2,3,4,5,6) unfolding same(2,3) by blast
qed

lemma apply_bundle_codes:
  assumes cd: "codec_ok v" and ap: "apart v A S" and ok: "state_ok v A S tb" "hist_ok A S tb"
    and cs: "changes_ok A S cs" "reverts_in A S rv"
  shows "\<exists>root tb'. apply_bundle v n cs rv tb = Some (Inr (root, tb')) \<and> state_ok v A S tb' \<and> hist_ok A S tb' \<and> map_root v (amap v A tb') root
    \<and> info_at tb' = new_info v cs (info_at tb) \<and> sto tb' = new_sto cs (sto tb) \<and> same_rest v A (write_history n rv tb) tb'
    \<and> t_codes tb' = fold (\<lambda>(h, c). bt_insert h c) (cs_contracts cs) (t_codes tb)"
proof -
  note same = same_state_ok [OF write_history_get(5) [of tb n rv]]
  have "state_ok v A S (write_history n rv tb)" using ok(1) same(1) by simp
  from apply_changes_ok [OF cd ap cs(1) this] hist_ok_write [OF ok(2) cs(2), of n] hist_ok_cong show ?thesis
    unfolding apply_bundle_def same(2,3,5) by blast
qed

lemma apply_bundle_ok:
  assumes "codec_ok v" "apart v A S" "state_ok v A S tb" "hist_ok A S tb" "changes_ok A S cs" "reverts_in A S rv"
  shows "\<exists>root tb'. apply_bundle v n cs rv tb = Some (Inr (root, tb')) \<and> state_ok v A S tb' \<and> hist_ok A S tb' \<and> map_root v (amap v A tb') root
    \<and> info_at tb' = new_info v cs (info_at tb) \<and> sto tb' = new_sto cs (sto tb) \<and> same_rest v A (write_history n rv tb) tb'"
  using apply_bundle_codes [OF assms, of n] by blast

end
