(* ===== verification/State_Root.thy ===== *)
theory State_Root
  imports State_Undo
begin

text \<open>
  The properties of the state store: the root kept block by block is the root of the whole flat state,
  no operation finds a corrupt table, a block undone leaves what was before it, and the past is read
  from the history as it was.
\<close>

subsection \<open>The root from scratch\<close>

text \<open>
  What \<^verbatim>\<open>alloy_trie\<close> documents of its two functions: the root of the trie of the given entries under hashed
  keys.
\<close>

definition alloy_ok :: "codec \<Rightarrow> address set \<Rightarrow> b256 set \<Rightarrow> ((b256 \<times> u256) list \<Rightarrow> b256) \<Rightarrow> ((address \<times> account) list \<Rightarrow> b256) \<Rightarrow> bool" where
  "alloy_ok v A S sroot aroot \<longleftrightarrow>
     (\<forall>l. distinct (map fst l) \<and> fst ` set l \<subseteq> S \<and> 0 \<notin> snd ` set l \<longrightarrow>
        map_root v (hm (hashed_slot v) S (\<lambda>s. map_option (cd_u256 v) (map_of l s))) (sroot l))
     \<and> (\<forall>l. distinct (map fst l) \<and> fst ` set l \<subseteq> A \<longrightarrow>
        map_root v (hm (hashed_address v) A (\<lambda>a. map_option (trie_value v) (map_of l a))) (aroot l))"

definition account_slots :: "tables \<Rightarrow> address \<Rightarrow> (b256 \<times> u256) list" where
  "account_slots tb a = map (\<lambda>((_, s), x). (s, x)) (filter (\<lambda>((a', _), _). a' = a) (t_storage tb))"

lemma account_slots_ok:
  assumes ok: "sto_ok v A S tb"
  shows "distinct (map fst (account_slots tb a))" "map_of (account_slots tb a) s = sto tb (a, s)"
    "fst ` set (account_slots tb a) \<subseteq> S" "0 \<notin> snd ` set (account_slots tb a)"
proof -
  have wf: "bt_wf (t_storage tb)" using ok by (simp add: sto_ok_def)
  have d: "distinct (map fst (t_storage tb))" using wf by (simp add: bt_wf_def strict_sorted_iff)
  have mem: "(s, x) \<in> set (account_slots tb a) \<longleftrightarrow> sto tb (a, s) = Some x" for s x
    using bt_get_iff [OF wf, of "(a, s)" x] by (force simp: account_slots_def sto_def)
  have "distinct (map fst l) \<Longrightarrow> distinct (map fst (map (\<lambda>((_, s), x). (s, x)) (filter (\<lambda>((a', _), _). a' = a) l)))"
    for l :: "((address \<times> b256) \<times> u256) list"
  proof (induction l)
    case (Cons e l)
    obtain b s x where e: "e = ((b, s), x)" by (metis prod.exhaust)
    have "s \<notin> fst ` set (map (\<lambda>((_, s), x). (s, x)) (filter (\<lambda>((a', _), _). a' = a) l))" if "b = a"
      using Cons.prems that by (force simp: e)
    then show ?case using Cons by (force simp: e)
  qed simp
  then show d': "distinct (map fst (account_slots tb a))" unfolding account_slots_def using d by blast
  show "map_of (account_slots tb a) s = sto tb (a, s)"
    using map_of_eq_Some_iff [OF d', of s] mem [of s] by (cases "sto tb (a, s)") (auto simp: map_of_eq_None_iff)
  have v: "x \<noteq> 0 \<and> s \<in> S" if "(s, x) \<in> set (account_slots tb a)" for s x using that ok unfolding mem sto_ok_def by blast
  then show "fst ` set (account_slots tb a) \<subseteq> S" "0 \<notin> snd ` set (account_slots tb a)" by fastforce+
qed

lemma full_accounts:
  assumes "\<And>a raw. (a, raw) \<in> set l \<Longrightarrow> \<exists>acc. acc_decode raw = Some acc \<and> sroot (account_slots tb a) = acc_storage_root acc"
  shows "try_fold (collect_account sroot tb) l out = Some (Inr (out @ map (\<lambda>(a, raw). (a, the (acc_decode raw))) l))"
  using assms
proof (induction l arbitrary: out)
  case (Cons e l)
  obtain a raw where e: "e = (a, raw)" by fastforce
  obtain acc where acc: "acc_decode raw = Some acc" "sroot (account_slots tb a) = acc_storage_root acc" using Cons.prems [of a raw] e by auto
  show ?case using Cons.IH [of "out @ [(a, acc)]"] Cons.prems acc by (simp add: e collect_account_def account_slots_def Let_def)
qed simp

lemma full_state_root_ok:
  assumes ok: "state_ok v A S tb" and al: "alloy_ok v A S sroot aroot"
  shows "\<exists>r. full_state_root sroot aroot tb = Some (Inr r) \<and> map_root v (amap v A tb) r"
proof -
  have accs: "accs_ok A tb" and st: "sto_ok v A S tb" using ok by (simp_all add: state_ok_def)
  have wf: "bt_wf (t_accounts tb)" using accs by (simp add: accs_ok_def)
  have acc: "acc_decode raw = acct tb a \<and> (\<exists>acc. acct tb a = Some acc)" if "(a, raw) \<in> set (t_accounts tb)" for a raw
  proof -
    have "bt_get a (t_accounts tb) = Some raw" using that bt_get_iff [OF wf] by blast
    then show ?thesis using accs unfolding accs_ok_def acct_def by fastforce
  qed
  have root: "\<exists>acc. acc_decode raw = Some acc \<and> sroot (account_slots tb a) = acc_storage_root acc" if m: "(a, raw) \<in> set (t_accounts tb)" for a raw
  proof -
    obtain acc where a: "acc_decode raw = Some acc" "acct tb a = Some acc" using acc [OF m] by auto
    have "map_root v (hm (hashed_slot v) S (\<lambda>s. map_option (cd_u256 v) (map_of (account_slots tb a) s))) (sroot (account_slots tb a))"
      using al account_slots_ok(1,3,4) [OF st, of a] unfolding alloy_ok_def by blast
    then have "map_root v (smap v S tb a) (sroot (account_slots tb a))" by (simp add: smap_def account_slots_ok(2) [OF st])
    then show ?thesis using ok a map_root_unique unfolding state_ok_def by blast
  qed
  let ?l = "map (\<lambda>(a, raw). (a, the (acc_decode raw))) (t_accounts tb)"
  have "try_fold (collect_account sroot tb) (t_accounts tb) [] = Some (Inr ([] @ ?l))" by (rule full_accounts) (rule root)
  then have f: "full_state_root sroot aroot tb = Some (Inr (aroot ?l))" by (simp add: full_state_root_def)
  have fst: "map fst ?l = map fst (t_accounts tb)" by (simp add: case_prod_beta comp_def)
  have d: "distinct (map fst ?l)" using wf unfolding fst by (simp add: bt_wf_def strict_sorted_iff)
  have sub: "fst ` set ?l \<subseteq> A" using acc acct_in [OF accs] by fastforce
  have "map_of ?l a = acct tb a" for a
  proof (cases "bt_get a (t_accounts tb)")
    case None
    then have "a \<notin> fst ` set ?l" using bt_keys [of a "t_accounts tb"] by force
    then show ?thesis using None by (simp add: acct_def map_of_eq_None_iff del: set_map)
  next
    case (Some raw)
    then have "(a, raw) \<in> set (t_accounts tb)" using bt_get_iff [OF wf] by blast
    then have "(a, the (acct tb a)) \<in> set ?l" "acct tb a \<noteq> None" using acc by force+
    then show ?thesis using map_of_is_SomeI [OF d] by auto
  qed
  then have am: "amap v A tb = hm (hashed_address v) A (\<lambda>a. map_option (trie_value v) (map_of ?l a))" by (simp add: amap_def)
  have "map_root v (amap v A tb) (aroot ?l)" unfolding am using al d sub unfolding alloy_ok_def by blast
  then show ?thesis using f by blast
qed

subsection \<open>Reachable tables\<close>

definition empty_tables :: tables where
  "empty_tables = \<lparr>t_accounts = [], t_storage = [], t_codes = [], t_trie_acc = (\<lambda>_. None), t_trie_sto = (\<lambda>_ _. None),
     t_acc_hist = [], t_sto_hist = [], t_hist_keys = [], t_head = None, t_base = None\<rparr>"

definition alloc_in :: "address set \<Rightarrow> b256 set \<Rightarrow> (address, init_account) btmap \<Rightarrow> bool" where
  "alloc_in A S alloc \<longleftrightarrow> (\<forall>(a, acc) \<in> set alloc. a \<in> A \<and> fst ` set (ia_storage acc) \<subseteq> S)"

text \<open>
  Tables and the last root returned: genesis, then blocks, undone blocks, pruning, and moves of the head and
  the base, which the block tables make.
\<close>

inductive reached :: "codec \<Rightarrow> address set \<Rightarrow> b256 set \<Rightarrow> tables \<Rightarrow> b256 \<Rightarrow> bool" for v A S where
  genesis: "alloc_in A S alloc \<Longrightarrow> init_state v alloc empty_tables = Some (Inr (r, tb)) \<Longrightarrow> reached v A S tb r"
| block: "reached v A S tb r \<Longrightarrow> changes_ok A S cs \<Longrightarrow> reverts_in A S rv \<Longrightarrow> apply_bundle v n cs rv tb = Some (Inr (r', tb')) \<Longrightarrow>
    reached v A S tb' r'"
| unwind: "reached v A S tb r \<Longrightarrow> unwind_state v n tb = Some (Inr (r', tb')) \<Longrightarrow> reached v A S tb' r'"
| prune: "reached v A S tb r \<Longrightarrow> reached v A S (snd (prune_history head tb)) r"
| head: "reached v A S tb r \<Longrightarrow> reached v A S (tb\<lparr>t_head := h, t_base := b\<rparr>) r"

lemma empty_tables_ok: "state_ok v A S empty_tables" "hist_ok A S empty_tables"
proof -
  have a: "acct empty_tables = (\<lambda>_. None)" and s: "sto empty_tables = (\<lambda>_. None)"
    by (auto simp: acct_def sto_def empty_tables_def bt_simps)
  have "stored v (t_trie_acc empty_tables) (amap v A empty_tables)" unfolding amap_def a using stored_empty by (simp add: empty_tables_def)
  moreover have "stored v (t_trie_sto empty_tables k) (smap v S empty_tables b)" for k b
    unfolding smap_def s using stored_empty by (simp add: empty_tables_def)
  ultimately show "state_ok v A S empty_tables" unfolding state_ok_def sto_ok_def accs_ok_def a s
    by (simp add: empty_tables_def bt_simps bt_wf_def)
  show "hist_ok A S empty_tables" by (simp add: hist_ok_def hist_wf_def empty_tables_def bt_simps bt_wf_def bt_has_def)
qed

lemma genesis_changes_ok:
  assumes "genesis_changes v alloc = Some cs" "alloc_in A S alloc"
  shows "changes_ok A S cs"
proof (rule for_each_inv [OF assms(1) [unfolded genesis_changes_def]])
  fix e cs cs'
  assume e: "e \<in> set alloc" and cs: "changes_ok A S cs" and g: "genesis_account v e cs = Some cs'"
  obtain a acc where "e = (a, acc)" by fastforce
  moreover from this g obtain x new where "cs' = \<lparr>cs_accounts = cs_accounts cs @ [(a, x)],
      cs_storage = cs_storage cs @ [\<lparr>sc_address = a, sc_wipe = False, sc_slots = ia_storage acc\<rparr>],
      cs_contracts = cs_contracts cs @ new\<rparr>"
    by (auto simp: genesis_account_def bind_eq_Some_conv)
  moreover have "a \<in> A" "fst ` set (ia_storage acc) \<subseteq> S" if "e = (a, acc)"
    using assms(2) e that by (fastforce simp: alloc_in_def)+
  ultimately show "changes_ok A S cs'" using cs by (auto simp: changes_ok_def change_ok_def)
qed (simp add: changes_ok_def)

lemma init_state_ok:
  assumes "codec_ok v" "apart v A S" "alloc_in A S alloc" "genesis_changes v alloc = Some cs"
  shows "\<exists>r tb. init_state v alloc empty_tables = Some (Inr (r, tb)) \<and> state_ok v A S tb \<and> hist_ok A S tb \<and> map_root v (amap v A tb) r
    \<and> info_at tb = new_info v cs (\<lambda>_. None) \<and> sto tb = new_sto cs (\<lambda>_. None)
    \<and> same_rest v A empty_tables tb"
proof -
  have e: "info_at empty_tables = (\<lambda>_. None)" "sto empty_tables = (\<lambda>_. None)"
    by (auto simp: info_at_def acct_def sto_def empty_tables_def bt_simps)
  have "init_state v alloc empty_tables = apply_changes v cs empty_tables" by (simp add: init_state_def assms(4))
  with apply_changes_ok [OF assms(1,2) genesis_changes_ok [OF assms(4,3)] empty_tables_ok(1)] hist_ok_cong empty_tables_ok(2)
  show ?thesis unfolding e by auto
qed

lemma prune_state:
  shows "same_state tb (snd (prune_history head tb))" "hist_ok A S tb \<Longrightarrow> hist_ok A S (snd (prune_history head tb))"
  unfolding prune_history_def Let_def using drop_keys(5) hist_ok_drop same_state_refl by (simp_all split: if_splits)

lemma unwind_guard: "unwind_state v n tb = Some (Inr x) \<Longrightarrow> hist_keys_of n tb \<noteq> [] \<or> history_covers tb n"
  by (auto simp: unwind_state_def Let_def split: if_splits)

lemma reached_ok:
  assumes cd: "codec_ok v" and ap: "apart v A S"
  shows "reached v A S tb r \<Longrightarrow> state_ok v A S tb \<and> hist_ok A S tb \<and> map_root v (amap v A tb) r"
proof (induction rule: reached.induct)
  case (genesis alloc r tb)
  then obtain cs where "genesis_changes v alloc = Some cs" by (auto simp: init_state_def bind_eq_Some_conv)
  then show ?case using init_state_ok [OF cd ap genesis(1)] genesis(2) by auto
next
  case (block tb r cs rv n r' tb')
  then show ?case using apply_bundle_ok [OF cd ap, of tb cs rv n] by auto
next
  case (unwind tb r n r' tb')
  then show ?case using unwind_state_ok [OF cd ap, of tb n] unwind_guard by fastforce
next
  case (prune tb r head)
  then show ?case using same_state_ok(1,4) [OF prune_state(1)] prune_state(2) by simp
next
  case (head tb r b h)
  then show ?case using state_ok_cong(1,4) [of "tb\<lparr>t_head := h, t_base := b\<rparr>" tb] by (simp add: hist_ok_def hist_wf_def)
qed

subsection \<open>Undoing the last block\<close>

text \<open>
  What \<^verbatim>\<open>revm\<close> gives as the reverts of a block: the prior values of at least every account and slot that the
  changes alter. A slot is only recorded for an account that is recorded too or was there before.
\<close>

definition reverts_of :: "codec \<Rightarrow> tables \<Rightarrow> changeset \<Rightarrow> reverts \<Rightarrow> bool" where
  "reverts_of v tb cs rv \<longleftrightarrow>
     (\<forall>(a, i) \<in> set (revert_accounts rv). i = info_at tb a)
     \<and> (\<forall>((a, s), x) \<in> set (revert_slots rv). x = storage_of tb a s \<and> (a \<in> fst ` set (revert_accounts rv) \<or> info_at tb a \<noteq> None))
     \<and> (\<forall>a. new_info v cs (info_at tb) a \<noteq> info_at tb a \<longrightarrow> a \<in> fst ` set (revert_accounts rv))
     \<and> (\<forall>k. new_sto cs (sto tb) k \<noteq> sto tb k \<longrightarrow> k \<in> fst ` set (revert_slots rv))"

lemma no_history:
  assumes ok: "hist_ok A S tb" and none: "hist_keys_of n tb = []"
  shows "bt_get (n, k) (t_hist_keys tb) = None" "bt_get (a, n) (t_acc_hist tb) = None" "bt_get (l, n) (t_sto_hist tb) = None"
proof -
  have "hist_wf tb" using ok by (simp add: hist_ok_def)
  then have k: "\<not> bt_has (n, k) (t_hist_keys tb)" for k using keys_of_block(1) [of tb n] none by auto
  then show "bt_get (n, k) (t_hist_keys tb) = None" by (simp add: bt_has_def not_Some_eq [symmetric] del: not_Some_eq)
  show "bt_get (a, n) (t_acc_hist tb) = None" using k [of "Acc_Key a"] ok by (simp add: hist_ok_def bt_has_def)
  show "bt_get (l, n) (t_sto_hist tb) = None" using k [of "Sto_Key (fst l) (snd l)"] ok by (cases l) (simp add: hist_ok_def bt_has_def)
qed

lemma keys_written:
  assumes ok: "hist_ok A S tb" and none: "hist_keys_of n tb = []" and w: "t_hist_keys tb' = t_hist_keys (write_history n rv tb)"
  shows "Acc_Key a \<in> set (hist_keys_of n tb') \<longleftrightarrow> a \<in> fst ` set (revert_accounts rv)"
    "Sto_Key a s \<in> set (hist_keys_of n tb') \<longleftrightarrow> (a, s) \<in> fst ` set (revert_slots rv)"
proof -
  have "hist_wf (write_history n rv tb)" using ok write_history_get(4) by (simp add: hist_ok_def)
  moreover have "hist_keys_of n tb' = hist_keys_of n (write_history n rv tb)" by (simp add: hist_keys_of_def w)
  ultimately have k: "set (hist_keys_of n tb') = {k. bt_get (n, k) (t_hist_keys (write_history n rv tb)) \<noteq> None}"
    using keys_of_block(1) by (simp add: bt_has_def)
  show "Acc_Key a \<in> set (hist_keys_of n tb') \<longleftrightarrow> a \<in> fst ` set (revert_accounts rv)"
    unfolding k write_history_get no_history(1) [OF ok none] by auto
  show "Sto_Key a s \<in> set (hist_keys_of n tb') \<longleftrightarrow> (a, s) \<in> fst ` set (revert_slots rv)"
    unfolding k write_history_get no_history(1) [OF ok none] by auto
qed

lemma drop_written:
  assumes ok: "hist_ok A S tb" and none: "hist_keys_of n tb = []"
    and w: "t_acc_hist tb' = t_acc_hist (write_history n rv tb)" "t_sto_hist tb' = t_sto_hist (write_history n rv tb)"
      "t_hist_keys tb' = t_hist_keys (write_history n rv tb)"
  defines "tb1 \<equiv> fold drop_key (map (Pair n) (hist_keys_of n tb')) tb'"
  shows "t_acc_hist tb1 = t_acc_hist tb" "t_sto_hist tb1 = t_sto_hist tb" "t_hist_keys tb1 = t_hist_keys tb"
proof -
  have h: "hist_wf tb" using ok by (simp add: hist_ok_def)
  have h': "hist_wf tb'" using write_history_get(4) [OF h, of n rv] w by (simp add: hist_wf_def)
  then have h1: "hist_wf tb1" unfolding tb1_def by (rule drop_keys(4))
  have k: "(j, key) \<in> set (map (Pair n) (hist_keys_of n tb')) \<longleftrightarrow> j = n \<and> bt_get (n, key) (t_hist_keys (write_history n rv tb)) \<noteq> None" for j key
    using keys_of_block(1) [OF h', of n] w(3) by (auto simp: bt_has_def)
  note none' = no_history [OF ok none]
  have "bt_get (a, j) (t_acc_hist tb1) = bt_get (a, j) (t_acc_hist tb)" for a j
    unfolding tb1_def drop_keys k w write_history_get using none'(2) [of a] by (auto simp: none'(1))
  then show "t_acc_hist tb1 = t_acc_hist tb" using h h1 unfolding hist_wf_def by (intro bt_ext) auto
  have "bt_get ((a, s), j) (t_sto_hist tb1) = bt_get ((a, s), j) (t_sto_hist tb)" for a s j
    unfolding tb1_def drop_keys k w write_history_get using none'(3) [of "(a, s)"] by (auto simp: none'(1))
  then show "t_sto_hist tb1 = t_sto_hist tb" using h h1 unfolding hist_wf_def by (intro bt_ext) auto
  have "bt_get (j, key) (t_hist_keys tb1) = bt_get (j, key) (t_hist_keys tb)" for j key
    unfolding tb1_def drop_keys k w write_history_get using none'(1) [of key] by auto
  then show "t_hist_keys tb1 = t_hist_keys tb" using h h1 unfolding hist_wf_def by (intro bt_ext) auto
qed

lemma map_of_all:
  "a \<in> fst ` set l \<Longrightarrow> \<forall>(b, i) \<in> set l. i = f b \<Longrightarrow> map_of (rev l) a = Some (f a)"
proof -
  assume a: "a \<in> fst ` set l" and f: "\<forall>(b, i) \<in> set l. i = f b"
  then obtain i where i: "map_of (rev l) a = Some i" using map_of_eq_None_iff [of "rev l" a] by (cases "map_of (rev l) a") auto
  then have "(a, i) \<in> set l" using map_of_SomeD by fastforce
  then show ?thesis using f i by auto
qed

lemma sto_nz: "sto_ok v A S tb \<Longrightarrow> nz (storage_of tb a s) = sto tb (a, s)"
  unfolding sto_ok_def by (cases "sto tb (a, s)") (auto simp: storage_of_def sto_def nz_def)

text \<open>Undone, the changes of a block give the accounts and slots before it.\<close>

lemma undo_values:
  assumes ok: "state_ok v A S tb" "hist_ok A S tb" and none: "hist_keys_of n tb = []" and rv: "reverts_of v tb cs rv"
    and w: "t_acc_hist tb' = t_acc_hist (write_history n rv tb)" "t_sto_hist tb' = t_sto_hist (write_history n rv tb)"
      "t_hist_keys tb' = t_hist_keys (write_history n rv tb)"
  shows "new_info v (block_undo n tb') (new_info v cs (info_at tb)) = info_at tb"
    "new_sto (block_undo n tb') (new_sto cs (sto tb)) = sto tb"
proof -
  note keys = keys_written [OF ok(2) none w(3)]
  have acc: "acc_prior n tb' a = info_at tb a" if "a \<in> fst ` set (revert_accounts rv)" for a
    using that map_of_all [OF that, of "info_at tb"] rv unfolding acc_prior_def w write_history_get reverts_of_def by simp
  have slot: "nz (sto_prior n tb' a s) = sto tb (a, s)" if k: "(a, s) \<in> fst ` set (revert_slots rv)" for a s
  proof -
    have "\<forall>(k, x) \<in> set (revert_slots rv). x = storage_of tb (fst k) (snd k)" using rv unfolding reverts_of_def by auto
    from map_of_all [OF k this] have "sto_prior n tb' a s = storage_of tb a s" using k unfolding sto_prior_def w write_history_get by simp
    then show ?thesis using sto_nz ok(1) unfolding state_ok_def by metis
  qed
  note eff = undo_effect [where f = "acc_prior n tb'" and g = "sto_prior n tb'" and keys = "hist_keys_of n tb'", folded block_undo_def]
  show "new_info v (block_undo n tb') (new_info v cs (info_at tb)) = info_at tb"
  proof (rule ext)
    fix a show "new_info v (block_undo n tb') (new_info v cs (info_at tb)) a = info_at tb a"
    proof (cases "a \<in> fst ` set (revert_accounts rv)")
      case True
      then show ?thesis using acc by (simp add: new_info_def eff keys)
    next
      case False
      then have same: "new_info v cs (info_at tb) a = info_at tb a" using rv unfolding reverts_of_def by blast
      have "info_at tb a \<noteq> None" if t: "touched (block_undo n tb') a"
      proof -
        obtain s x where "((a, s), x) \<in> set (revert_slots rv)" using t unfolding eff(2) keys by force
        then show ?thesis using False rv unfolding reverts_of_def by blast
      qed
      then show ?thesis using False unfolding new_info_def [of v "block_undo n tb'"] same by (auto simp: eff(1) keys kept_info_def)
    qed
  qed
  show "new_sto (block_undo n tb') (new_sto cs (sto tb)) = sto tb"
  proof (rule ext)
    fix k :: "address \<times> b256"
    obtain a s where k: "k = (a, s)" by fastforce
    have "sto tb (a, s) = None" if "info_at tb a = None" using that ok(1) by (simp add: state_ok_def info_at_def)
    moreover have "new_sto cs (sto tb) (a, s) = sto tb (a, s)" if "(a, s) \<notin> fst ` set (revert_slots rv)"
      using that rv unfolding reverts_of_def by blast
    ultimately show "new_sto (block_undo n tb') (new_sto cs (sto tb)) k = sto tb k"
      unfolding k eff keys using acc [of a] slot [of a s] by (cases "a \<in> fst ` set (revert_accounts rv)") simp_all
  qed
qed

lemma head_cong:
  "state_ok v A S (tb\<lparr>t_head := h\<rparr>) = state_ok v A S tb" "info_at (tb\<lparr>t_head := h\<rparr>) = info_at tb" "sto (tb\<lparr>t_head := h\<rparr>) = sto tb"
  "amap v A (tb\<lparr>t_head := h\<rparr>) = amap v A tb"
  by (rule state_ok_cong; simp)+

lemma bundle_undone:
  assumes cd: "codec_ok v" and ap: "apart v A S" and ok: "state_ok v A S tb" "hist_ok A S tb"
    and cs: "changes_ok A S cs" "reverts_in A S rv" "reverts_of v tb cs rv" and none: "hist_keys_of n tb = []" and b: "base tb \<le> n"
    and r: "map_root v (amap v A tb) r"
  shows "\<exists>r' tb'. apply_bundle v n cs rv tb = Some (Inr (r', tb'))
    \<and> unwind_state v n (tb'\<lparr>t_head := Some n\<rparr>) = Some (Inr (r, tb\<lparr>t_codes := t_codes tb', t_head := Some n\<rparr>))"
proof -
  obtain r1 tb1 where 1: "apply_bundle v n cs rv tb = Some (Inr (r1, tb1))" "state_ok v A S tb1" "hist_ok A S tb1"
      "info_at tb1 = new_info v cs (info_at tb)" "sto tb1 = new_sto cs (sto tb)" "same_rest v A (write_history n rv tb) tb1"
    using apply_bundle_ok [OF cd ap ok cs(1,2), of n] by blast
  define tb2 where "tb2 = tb1\<lparr>t_head := Some n\<rparr>"
  note c2 = head_cong [where tb = tb1 and h = "Some n", folded tb2_def]
  have w: "t_acc_hist tb2 = t_acc_hist (write_history n rv tb)" "t_sto_hist tb2 = t_sto_hist (write_history n rv tb)"
      "t_hist_keys tb2 = t_hist_keys (write_history n rv tb)" using 1(6) by (simp_all add: tb2_def same_rest_def)
  have ok2: "state_ok v A S tb2" "hist_ok A S tb2" using 1(2,3) c2(1) by (simp_all add: tb2_def hist_ok_def hist_wf_def)
  note ws = write_history_get(5) [of tb n rv]
  have "t_base tb1 = t_base tb" using 1(6) same_state_ok(7) [OF ws] by (simp add: same_rest_def)
  then have "history_covers tb2 n" using b by (simp add: history_covers_def tb2_def base_def)
  then obtain r3 tb3 where 3: "unwind_state v n tb2 = Some (Inr (r3, tb3))" "state_ok v A S tb3" "map_root v (amap v A tb3) r3"
      "info_at tb3 = new_info v (block_undo n tb2) (info_at tb2)" "sto tb3 = new_sto (block_undo n tb2) (sto tb2)"
      "same_rest v A (fold drop_key (map (Pair n) (hist_keys_of n tb2)) tb2) tb3" "t_codes tb3 = t_codes tb2"
    using unwind_state_ok [OF cd ap ok2] by blast
  define tb0 where "tb0 = tb\<lparr>t_head := Some n\<rparr>"
  note c0 = head_cong [where tb = tb and h = "Some n", folded tb0_def]
  have "info_at tb3 = info_at tb0" "sto tb3 = sto tb0"
    unfolding 3(4,5) c2(2,3) 1(4,5) c0(2,3) by (rule undo_values [OF ok none cs(3) w])+
  moreover have "same_rest v A tb0 tb3"
  proof -
    have d: "same_state tb2 (fold drop_key (map (Pair n) (hist_keys_of n tb2)) tb2)" by (rule drop_keys(5))
    have "t_trie_sto (write_history n rv tb) = t_trie_sto tb" using ws by (auto simp: same_state_def)
    moreover have "t_trie_sto (fold drop_key (map (Pair n) (hist_keys_of n tb2)) tb2) = t_trie_sto tb1"
      using d by (auto simp: same_state_def tb2_def)
    ultimately show ?thesis
      using 3(6) 1(6) drop_written [OF ok(2) none w] same_state_ok(6,7) [OF d] same_state_ok(7) [OF ws]
      by (simp add: same_rest_def tb0_def tb2_def)
  qed
  moreover have "state_ok v A S tb0" using ok(1) c0(1) by simp
  ultimately have "tb3 = tb0\<lparr>t_codes := t_codes tb3\<rparr>" "r3 = r"
    using state_ext [of v A S tb0 tb3] 3(2,3) r c0(4) by auto
  then have "tb3 = tb\<lparr>t_codes := t_codes tb1, t_head := Some n\<rparr>" "r3 = r" using 3(7) by (simp_all add: tb0_def tb2_def)
  then show ?thesis using 1(1) 3(1) unfolding tb2_def by blast
qed

subsection \<open>Reading the past\<close>

text \<open>The first value recorded for a key at or after a height.\<close>

definition hist_read :: "'k::linorder \<Rightarrow> u64 \<Rightarrow> ('k \<times> u64, 'v) btmap \<Rightarrow> 'v option" where
  "hist_read a n m = (case set_range (a, n) m of Some ((a', _), x) \<Rightarrow> if a' = a then Some x else None | None \<Rightarrow> None)"

lemma set_range_spec:
  assumes "bt_wf m"
  shows "(case set_range k m of None \<Rightarrow> \<forall>y \<ge> k. bt_get y m = None
    | Some (k', x) \<Rightarrow> k \<le> k' \<and> bt_get k' m = Some x \<and> (\<forall>y \<ge> k. y < k' \<longrightarrow> bt_get y m = None))"
  using assms
proof (induction m)
  case (Cons e m)
  obtain j x where e: "e = (j, x)" by fastforce
  have wf: "bt_wf m" and j: "bt_get y m \<noteq> None \<Longrightarrow> j < y" for y
    using Cons.prems bt_keys [of y m] by (auto simp: bt_wf_def e)
  show ?case
  proof (cases "j < k")
    case True
    then have "set_range k (e # m) = set_range k m" by (simp add: set_range_def e)
    moreover have "bt_get y (e # m) = bt_get y m" if "k \<le> y" for y using that True by (auto simp: bt_get_def e)
    ultimately show ?thesis using Cons.IH [OF wf] by (auto split: option.splits)
  next
    case False
    then have "set_range k (e # m) = Some (j, x)" by (simp add: set_range_def e)
    moreover have "bt_get y (e # m) = None" if "y < j" for y using that j [of y] by (cases "bt_get y m") (auto simp: bt_get_def e)
    ultimately show ?thesis using False by (simp add: bt_get_def e)
  qed
qed (simp add: set_range_def bt_simps)

end
