(* ===== verification/State_Reads.thy ===== *)
theory State_Reads
  imports State_Root
begin

text \<open>
  Reading accounts and slots at past heights: applying a block or pruning leaves what is read at every
  covered height as it was. The file ends with the properties of the state store.
\<close>

subsection \<open>The first record after a height\<close>

lemma hist_read_spec:
  assumes "bt_wf m"
  shows "(case hist_read a n m of None \<Rightarrow> \<forall>j \<ge> n. bt_get (a, j) m = None
    | Some x \<Rightarrow> \<exists>j \<ge> n. bt_get (a, j) m = Some x \<and> (\<forall>i \<ge> n. i < j \<longrightarrow> bt_get (a, i) m = None))"
proof (cases "set_range (a, n) m")
  case None
  then show ?thesis using set_range_spec [OF assms, of "(a, n)"] by (simp add: hist_read_def)
next
  case (Some e)
  obtain a' j x where e: "e = ((a', j), x)" by (metis prod.exhaust)
  have s: "(a, n) \<le> (a', j)" "bt_get (a', j) m = Some x" "\<And>y. (a, n) \<le> y \<Longrightarrow> y < (a', j) \<Longrightarrow> bt_get y m = None"
    using set_range_spec [OF assms, of "(a, n)"] unfolding Some e option.case prod.case by blast+
  show ?thesis
  proof (cases "a' = a")
    case True
    then show ?thesis using s Some by (auto simp: hist_read_def e intro!: exI [of _ j])
  next
    case False
    then have "a < a'" using s(1) by auto
    then show ?thesis using s(3) Some False by (simp add: hist_read_def e)
  qed
qed

lemma hist_read_extend:
  fixes n N :: u64
  assumes wf: "bt_wf m" "bt_wf m'" and new: "\<And>j. bt_get (a, j) m' = (if j = N then y else bt_get (a, j) m)"
    and old: "\<And>j. bt_get (a, j) m \<noteq> None \<Longrightarrow> j < N" and n: "n \<le> N"
  shows "hist_read a n m' = (case hist_read a n m of Some x \<Rightarrow> Some x | None \<Rightarrow> y)"
proof (cases "hist_read a n m")
  case None
  then have z: "bt_get (a, j) m = None" if "n \<le> j" for j using hist_read_spec [OF wf(1), where a = a and n = n] that by simp
  show ?thesis
  proof (cases "hist_read a n m'")
    case None
    then have "bt_get (a, N) m' = None" using hist_read_spec [OF wf(2), where a = a and n = n] n by simp
    then show ?thesis using None \<open>hist_read a n m = None\<close> new [of N] by simp
  next
    case (Some x)
    then obtain j where "n \<le> j" "bt_get (a, j) m' = Some x" using hist_read_spec [OF wf(2), where a = a and n = n] by auto
    then show ?thesis using Some None z [of j] by (simp add: new split: if_splits)
  qed
next
  case (Some x)
  then obtain j where j: "n \<le> j" "bt_get (a, j) m = Some x" "\<And>i. n \<le> i \<Longrightarrow> i < j \<Longrightarrow> bt_get (a, i) m = None"
    using hist_read_spec [OF wf(1), where a = a and n = n] by auto
  have jN: "j < N" using old [of j] j(2) by simp
  have j': "bt_get (a, j) m' = Some x" using j(2) jN new [of j] by auto
  show ?thesis
  proof (cases "hist_read a n m'")
    case None
    then have "bt_get (a, j) m' = None" using hist_read_spec [OF wf(2), where a = a and n = n] j(1) by simp
    then show ?thesis using j' by simp
  next
    case (Some z)
    then obtain i where i: "n \<le> i" "bt_get (a, i) m' = Some z" "\<And>k. n \<le> k \<Longrightarrow> k < i \<Longrightarrow> bt_get (a, k) m' = None"
      using hist_read_spec [OF wf(2), where a = a and n = n] by auto
    have "\<not> j < i" using i(3) [OF j(1)] j' by auto
    moreover have "\<not> i < j" using j(3) [OF i(1)] i(2) new [of i] jN by (auto split: if_splits)
    ultimately have "z = x" using i(2) j' by (metis linorder_neqE option.inject)
    then show ?thesis using Some \<open>hist_read a n m = Some x\<close> by simp
  qed
qed

lemma hist_read_cong:
  assumes "bt_wf m" "bt_wf m'" and eq: "\<And>j. n \<le> j \<Longrightarrow> bt_get (a, j) m' = bt_get (a, j) m"
  shows "hist_read a n m' = hist_read a n m"
proof (cases "hist_read a n m")
  case None
  then have "bt_get (a, j) m' = None" if "n \<le> j" for j using hist_read_spec [OF assms(1), where a = a and n = n] that eq by simp
  then show ?thesis using None hist_read_spec [OF assms(2), where a = a and n = n] by (cases "hist_read a n m'") auto
next
  case (Some x)
  then obtain j where j: "n \<le> j" "bt_get (a, j) m = Some x" "\<And>i. n \<le> i \<Longrightarrow> i < j \<Longrightarrow> bt_get (a, i) m = None"
    using hist_read_spec [OF assms(1), where a = a and n = n] by auto
  show ?thesis
  proof (cases "hist_read a n m'")
    case None
    then show ?thesis using hist_read_spec [OF assms(2), where a = a and n = n] j eq by simp
  next
    case (Some z)
    then obtain i where i: "n \<le> i" "bt_get (a, i) m' = Some z" "\<And>k. n \<le> k \<Longrightarrow> k < i \<Longrightarrow> bt_get (a, k) m' = None"
      using hist_read_spec [OF assms(2), where a = a and n = n] by auto
    have "\<not> j < i" using i(3) [OF j(1)] j(2) eq [OF j(1)] by auto
    moreover have "\<not> i < j" using j(3) [OF i(1)] i(2) eq [OF i(1)] by auto
    ultimately have "z = x" using i(2) j(2) eq [OF i(1)] by (metis linorder_neqE option.inject)
    then show ?thesis using Some \<open>hist_read a n m = Some x\<close> by simp
  qed
qed

lemma hist_read_above:
  fixes h :: u64
  assumes wf: "bt_wf m" and le: "\<And>j. bt_get (a, j) m \<noteq> None \<Longrightarrow> j \<le> h" and h: "h < h + 1"
  shows "hist_read a (h + 1) m = None"
proof (cases "hist_read a (h + 1) m")
  case (Some x)
  then obtain j where "h + 1 \<le> j" "bt_get (a, j) m = Some x" using hist_read_spec [OF wf, of "h + 1" a] by auto
  then show ?thesis using le [of j] h by auto
qed

subsection \<open>Past accounts and slots\<close>

definition past_info :: "codec \<Rightarrow> tables \<Rightarrow> address \<Rightarrow> u64 \<Rightarrow> store_error + info option option" where
  "past_info v tb a n = map_sum id (map_option (map_option info_of)) (account_at v tb a n)"

lemma account_at_read:
  assumes "history_covers tb n"
  shows "account_at v tb a n = (case hist_read a (n + 1) (t_acc_hist tb) of
      Some raw \<Rightarrow> (case decode_hist_info raw of None \<Rightarrow> Inl (Corrupt ''acc_hist'')
        | Some prior \<Rightarrow> Inr (Some (map_option (\<lambda>(nonce, balance, code_hash).
            \<lparr>acc_nonce = nonce, acc_balance = balance, acc_code_hash = code_hash, acc_storage_root = cd_empty_root v\<rparr>) prior)))
    | None \<Rightarrow> map_sum id Some (account_of tb a))"
  using assms by (auto simp: account_at_def hist_read_def split: option.splits prod.splits)

lemma storage_at_read:
  "storage_at tb a s n = (if history_covers tb n
     then Some (case hist_read (a, s) (n + 1) (t_sto_hist tb) of Some x \<Rightarrow> x | None \<Rightarrow> storage_of tb a s) else None)"
  by (auto simp: storage_at_def hist_read_def split: option.splits)

lemma past_info_read:
  assumes ok: "accs_ok A tb" "hist_ok A S tb" and c: "history_covers tb n"
  shows "past_info v tb a n = Inr (Some (case hist_read a (n + 1) (t_acc_hist tb) of
      Some raw \<Rightarrow> the (decode_hist_info raw) | None \<Rightarrow> info_at tb a))"
proof (cases "hist_read a (n + 1) (t_acc_hist tb)")
  case None
  then show ?thesis by (simp add: past_info_def account_at_read [OF c] account_of_ok [OF ok(1)] info_at_def)
next
  case (Some raw)
  have "bt_wf (t_acc_hist tb)" using ok(2) by (simp add: hist_ok_def hist_wf_def)
  then obtain j where "bt_get (a, j) (t_acc_hist tb) = Some raw" using hist_read_spec [of "t_acc_hist tb" "n + 1" a] Some by auto
  then obtain i where i: "raw = encode_hist_info i" using hist_ok_acc [OF ok(2)] by blast
  show ?thesis using Some by (cases i) (auto simp: past_info_def account_at_read [OF c] i info_of_def)
qed

text \<open>No history above a height.\<close>

definition hist_upto :: "tables \<Rightarrow> u64 \<Rightarrow> bool" where
  "hist_upto tb h \<longleftrightarrow> (\<forall>n k. bt_has (n, k) (t_hist_keys tb) \<longrightarrow> n \<le> h)"

lemma hist_upto_entries:
  assumes "hist_ok A S tb" "hist_upto tb h"
  shows "bt_get (a, n) (t_acc_hist tb) \<noteq> None \<Longrightarrow> n \<le> h" "bt_get ((a, s), n) (t_sto_hist tb) \<noteq> None \<Longrightarrow> n \<le> h"
  using assms unfolding hist_ok_def hist_upto_def bt_has_def by blast+

lemma block_reads:
  assumes ok: "state_ok v A S tb" "hist_ok A S tb" "hist_upto tb h" and h: "h < h + 1" and rv: "reverts_of v tb cs rv"
    and tb': "state_ok v A S tb'" "hist_ok A S tb'" "info_at tb' = new_info v cs (info_at tb)" "sto tb' = new_sto cs (sto tb)"
      "t_acc_hist tb' = t_acc_hist (write_history (h + 1) rv tb)" "t_sto_hist tb' = t_sto_hist (write_history (h + 1) rv tb)"
    and m: "m \<le> h" and c: "history_covers tb m" "history_covers tb' m"
  shows "past_info v tb' a m = past_info v tb a m" "storage_at tb' a s m = storage_at tb a s m"
proof -
  have accs: "accs_ok A tb" "accs_ok A tb'" and sto: "sto_ok v A S tb" "sto_ok v A S tb'" using ok tb' by (simp_all add: state_ok_def)
  have wf: "bt_wf (t_acc_hist tb)" "bt_wf (t_acc_hist tb')" "bt_wf (t_sto_hist tb)" "bt_wf (t_sto_hist tb')"
    using ok(2) tb'(2) by (simp_all add: hist_ok_def hist_wf_def)
  have m1: "m + 1 \<le> h + 1" by (rule inc_le) (rule le_less_trans [OF m h])
  note up = hist_upto_entries [OF ok(2,3)]
  have n1: "bt_get (a, h + 1) (t_acc_hist tb) = None" using up(1) [of a "h + 1"] h not_le by blast
  have n2: "bt_get ((a, s), h + 1) (t_sto_hist tb) = None" using up(2) [of a s "h + 1"] h not_le by blast
  let ?R = "fst ` set (revert_accounts rv)" and ?T = "fst ` set (revert_slots rv)"
  have "hist_read a (m + 1) (t_acc_hist tb') = (case hist_read a (m + 1) (t_acc_hist tb) of Some x \<Rightarrow> Some x
      | None \<Rightarrow> if a \<in> ?R then Some (encode_hist_info (info_at tb a)) else None)"
  proof (rule hist_read_extend [OF wf(1,2) _ _ m1])
    fix j show "bt_get (a, j) (t_acc_hist tb') = (if j = h + 1 then if a \<in> ?R then Some (encode_hist_info (info_at tb a)) else None else bt_get (a, j) (t_acc_hist tb))"
      using n1 map_of_all [of a "revert_accounts rv" "info_at tb"] rv unfolding tb'(5) write_history_get reverts_of_def by simp
    show "j < h + 1" if "bt_get (a, j) (t_acc_hist tb) \<noteq> None" by (rule le_less_trans [OF up(1) [OF that] h])
  qed
  moreover have "info_at tb' a = info_at tb a" if "a \<notin> ?R" using rv that unfolding reverts_of_def tb'(3) by blast
  ultimately show "past_info v tb' a m = past_info v tb a m"
    unfolding past_info_read [OF accs(1) ok(2) c(1)] past_info_read [OF accs(2) tb'(2) c(2)] by (auto split: option.splits)
  have sv: "\<forall>(k, x) \<in> set (revert_slots rv). x = storage_of tb (fst k) (snd k)" using rv unfolding reverts_of_def by auto
  have "hist_read (a, s) (m + 1) (t_sto_hist tb') = (case hist_read (a, s) (m + 1) (t_sto_hist tb) of Some x \<Rightarrow> Some x
      | None \<Rightarrow> if (a, s) \<in> ?T then Some (storage_of tb a s) else None)"
  proof (rule hist_read_extend [OF wf(3,4) _ _ m1])
    fix j show "bt_get ((a, s), j) (t_sto_hist tb') = (if j = h + 1 then if (a, s) \<in> ?T then Some (storage_of tb a s) else None else bt_get ((a, s), j) (t_sto_hist tb))"
      using n2 map_of_all [OF _ sv, of "(a, s)"] unfolding tb'(6) write_history_get by simp
    show "j < h + 1" if "bt_get ((a, s), j) (t_sto_hist tb) \<noteq> None" by (rule le_less_trans [OF up(2) [OF that] h])
  qed
  moreover have "storage_of tb' a s = storage_of tb a s" if "(a, s) \<notin> ?T"
  proof -
    have "sto tb' (a, s) = sto tb (a, s)" using rv that unfolding reverts_of_def tb'(4) by blast
    then show ?thesis by (simp add: storage_of_def sto_def)
  qed
  ultimately show "storage_at tb' a s m = storage_at tb a s m" using c by (auto simp: storage_at_read split: option.splits)
qed

lemma prune_dropped:
  assumes "hist_wf tb"
  shows "snd (prune_history h tb) = fold drop_key (if h < HISTORY_BLOCKS then [] else filter (\<lambda>k. fst k \<le> h - HISTORY_BLOCKS) (map fst (t_hist_keys tb))) tb"
    "fst (prune_history h tb) = (if h < HISTORY_BLOCKS then 0 else length (filter (\<lambda>k. fst k \<le> h - HISTORY_BLOCKS) (map fst (t_hist_keys tb))))"
proof -
  have "takeWhile (\<lambda>k. fst k \<le> b) l = filter (\<lambda>k. fst k \<le> b) l" if "sorted_wrt (<) l" for b :: u64 and l :: "(u64 \<times> hist_key) list"
    using that
  proof (induction l)
    case (Cons x l)
    have "fst x \<le> fst y" if "y \<in> set l" for y using Cons.prems that by (auto simp: less_prod_def)
    then have "filter (\<lambda>k. fst k \<le> b) l = []" if "\<not> fst x \<le> b" using that by (force simp: filter_empty_conv)
    then show ?case using Cons by simp
  qed simp
  moreover have "sorted_wrt (<) (map fst (t_hist_keys tb))" using assms by (simp add: hist_wf_def bt_wf_def)
  ultimately show "snd (prune_history h tb) = fold drop_key (if h < HISTORY_BLOCKS then [] else filter (\<lambda>k. fst k \<le> h - HISTORY_BLOCKS) (map fst (t_hist_keys tb))) tb"
    "fst (prune_history h tb) = (if h < HISTORY_BLOCKS then 0 else length (filter (\<lambda>k. fst k \<le> h - HISTORY_BLOCKS) (map fst (t_hist_keys tb))))"
    by (simp_all add: prune_history_def Let_def)
qed

lemma covers_mono:
  fixes h m :: u64
  assumes "h < h + 1" "m \<le> h" "h + 1 - m \<le> d" shows "h - m \<le> d"
proof -
  have "unat (h + 1) = Suc (unat h)" using assms(1) by (rule unat_Suc_lt)
  moreover have "m \<le> h + 1" using assms(1,2) by simp
  ultimately have "unat (h + 1 - m) = Suc (unat h) - unat m" by (simp add: unat_sub)
  moreover have "unat (h - m) = unat h - unat m" using assms(2) by (simp add: unat_sub)
  ultimately show ?thesis using assms(3) by (simp add: word_le_nat_alt)
qed

lemma window_start:
  fixes h m j :: u64
  assumes "d \<le> h" "m \<le> h" "h - m \<le> d" "m < m + 1" "m + 1 \<le> j" shows "\<not> j \<le> h - d"
proof -
  have "unat (h - m) = unat h - unat m" "unat (h - d) = unat h - unat d" using assms(1,2) by (simp_all add: unat_sub)
  moreover have "unat (m + 1) = Suc (unat m)" using assms(4) by (rule unat_Suc_lt)
  ultimately show ?thesis using assms by (simp add: word_le_nat_alt)
qed

text \<open>The heights that pruning at head \<open>h\<close> forgets, and what is left of the history.\<close>

definition pruned :: "u64 \<Rightarrow> u64 \<Rightarrow> bool" where
  "pruned h n \<longleftrightarrow> HISTORY_BLOCKS \<le> h \<and> n \<le> h - HISTORY_BLOCKS"

lemma prune_keys:
  assumes "hist_wf tb"
  obtains l where "snd (prune_history h tb) = fold drop_key l tb"
    "\<And>n k. (n, k) \<in> set l \<longleftrightarrow> pruned h n \<and> bt_has (n, k) (t_hist_keys tb)"
proof -
  have "(n, k) \<in> set (map fst (t_hist_keys tb)) \<longleftrightarrow> bt_has (n, k) (t_hist_keys tb)" for n k
    using bt_keys [of "(n, k)" "t_hist_keys tb"] by (auto simp: bt_has_def)
  then show ?thesis by (intro that [OF prune_dropped(1) [OF assms]]) (auto simp: pruned_def not_less)
qed

lemma prune_get:
  fixes h :: u64
  assumes ok: "hist_ok A S tb"
  defines "tb' \<equiv> snd (prune_history h tb)"
  shows "bt_get (a, n) (t_acc_hist tb') = (if pruned h n then None else bt_get (a, n) (t_acc_hist tb))"
    "bt_get ((a, s), n) (t_sto_hist tb') = (if pruned h n then None else bt_get ((a, s), n) (t_sto_hist tb))"
    "bt_get (n, k) (t_hist_keys tb') = (if pruned h n then None else bt_get (n, k) (t_hist_keys tb))"
    "hist_wf tb'" "same_state tb tb'"
proof -
  have wf: "hist_wf tb" using ok by (simp add: hist_ok_def)
  obtain l where l: "tb' = fold drop_key l tb" "\<And>n k. (n, k) \<in> set l \<longleftrightarrow> pruned h n \<and> bt_has (n, k) (t_hist_keys tb)"
    using prune_keys [OF wf] unfolding tb'_def by metis
  have "bt_has (n, Acc_Key a) (t_hist_keys tb) \<longleftrightarrow> bt_has (a, n) (t_acc_hist tb)"
    "bt_has (n, Sto_Key a s) (t_hist_keys tb) \<longleftrightarrow> bt_has ((a, s), n) (t_sto_hist tb)"
    using ok by (simp_all add: hist_ok_def)
  then show "bt_get (a, n) (t_acc_hist tb') = (if pruned h n then None else bt_get (a, n) (t_acc_hist tb))"
    "bt_get ((a, s), n) (t_sto_hist tb') = (if pruned h n then None else bt_get ((a, s), n) (t_sto_hist tb))"
    by (auto simp: l drop_keys bt_has_def)
  show "bt_get (n, k) (t_hist_keys tb') = (if pruned h n then None else bt_get (n, k) (t_hist_keys tb))"
    by (cases "bt_get (n, k) (t_hist_keys tb)") (auto simp: l drop_keys bt_has_def)
  show "hist_wf tb'" "same_state tb tb'" unfolding l(1) by (rule drop_keys(4) [OF wf], rule drop_keys(5))
qed

lemma prune_keys_of:
  assumes ok: "hist_ok A S tb"
  shows "hist_keys_of n (snd (prune_history h tb)) = (if pruned h n then [] else hist_keys_of n tb)"
proof -
  let ?tb = "snd (prune_history h tb)"
  note g = prune_get [OF ok, where h = h]
  have wf: "hist_wf tb" using ok by (simp add: hist_ok_def)
  have "t_hist_keys ?tb = bt_retain (\<lambda>k _. \<not> pruned h (fst k)) (t_hist_keys tb)"
  proof (rule bt_ext)
    show "bt_wf (t_hist_keys ?tb)" using g(4) by (simp add: hist_wf_def)
    show "bt_wf (bt_retain (\<lambda>k _. \<not> pruned h (fst k)) (t_hist_keys tb))"
      using wf by (intro bt_wf_retain) (simp add: hist_wf_def)
    fix k show "bt_get k (t_hist_keys ?tb) = bt_get k (bt_retain (\<lambda>k _. \<not> pruned h (fst k)) (t_hist_keys tb))"
      using wf by (cases k) (auto simp: g(3) bt_get_retain hist_wf_def split: option.splits)
  qed
  then have "map fst (t_hist_keys ?tb) = filter (\<lambda>k. \<not> pruned h (fst k)) (map fst (t_hist_keys tb))"
    by (simp add: bt_retain_def filter_map comp_def case_prod_beta)
  then show ?thesis unfolding keys_filter [OF g(4)] keys_filter [OF wf]
    by (auto simp: filter_empty_conv intro!: arg_cong [where f = "map snd"] filter_cong)
qed

text \<open>Undoing a block that is not pruned commutes with pruning, errors included.\<close>

lemma prune_unwind:
  assumes cd: "codec_ok v" "apart v A S" and ok: "state_ok v A S tb" "hist_ok A S tb" and n: "\<not> pruned h n"
  shows "unwind_state v n (snd (prune_history h tb)) =
    map_option (map_sum id (map_prod id (\<lambda>t. snd (prune_history h t)))) (unwind_state v n tb)"
proof -
  let ?tb = "snd (prune_history h tb)"
  note g = prune_get [OF ok(2), where h = h]
  have ks: "hist_keys_of n ?tb = hist_keys_of n tb" using n by (simp add: prune_keys_of [OF ok(2)])
  have cov: "history_covers ?tb n = history_covers tb n"
    using same_state_ok(6,7) [OF g(5)] by (simp add: history_covers_def base_def)
  show ?thesis
  proof (cases "hist_keys_of n tb = [] \<and> \<not> history_covers tb n")
    case True
    then show ?thesis by (simp add: unwind_state_def Let_def ks cov)
  next
    case False
    have ok': "state_ok v A S ?tb" "hist_ok A S ?tb"
      using ok same_state_ok(1) [OF g(5)] prune_state(2) by simp_all
    have "acc_prior n ?tb = acc_prior n tb" "sto_prior n ?tb = sto_prior n tb"
      using n by (simp_all add: fun_eq_iff acc_prior_def sto_prior_def g)
    then have undo: "block_undo n ?tb = block_undo n tb" by (simp add: block_undo_def ks)
    obtain r1 t1 where 1: "unwind_state v n tb = Some (Inr (r1, t1))" "state_ok v A S t1" "hist_ok A S t1" "map_root v (amap v A t1) r1"
        "info_at t1 = new_info v (block_undo n tb) (info_at tb)" "sto t1 = new_sto (block_undo n tb) (sto tb)"
        "same_rest v A (fold drop_key (map (Pair n) (hist_keys_of n tb)) tb) t1" "t_codes t1 = t_codes tb"
      using unwind_state_ok [OF cd ok] False by blast
    obtain r2 t2 where 2: "unwind_state v n ?tb = Some (Inr (r2, t2))" "state_ok v A S t2" "hist_ok A S t2" "map_root v (amap v A t2) r2"
        "info_at t2 = new_info v (block_undo n tb) (info_at ?tb)" "sto t2 = new_sto (block_undo n tb) (sto ?tb)"
        "same_rest v A (fold drop_key (map (Pair n) (hist_keys_of n tb)) ?tb) t2" "t_codes t2 = t_codes ?tb"
      using unwind_state_ok [OF cd ok', of n] False unfolding undo ks cov by blast
    let ?t = "snd (prune_history h t1)"
    note gt = prune_get [OF 1(3), where h = h]
    note dr = drop_keys [where l = "map (Pair n) (hist_keys_of n tb)"]
    have w: "hist_wf t2" "hist_wf ?t" using 2(3) gt(4) by (simp_all add: hist_ok_def)
    have "t_acc_hist t2 = t_acc_hist ?t"
    proof (rule bt_ext)
      fix k show "bt_get k (t_acc_hist t2) = bt_get k (t_acc_hist ?t)"
        using 1(7) 2(7) n by (cases k) (auto simp: same_rest_def gt g dr)
    qed (use w in \<open>simp_all add: hist_wf_def\<close>)
    moreover have "t_sto_hist t2 = t_sto_hist ?t"
    proof (rule bt_ext)
      fix k show "bt_get k (t_sto_hist t2) = bt_get k (t_sto_hist ?t)"
        using 1(7) 2(7) n by (cases k; cases "fst k") (auto simp: same_rest_def gt g dr)
    qed (use w in \<open>simp_all add: hist_wf_def\<close>)
    moreover have "t_hist_keys t2 = t_hist_keys ?t"
    proof (rule bt_ext)
      fix k show "bt_get k (t_hist_keys t2) = bt_get k (t_hist_keys ?t)"
        using 1(7) 2(7) n by (cases k) (auto simp: same_rest_def gt g dr)
    qed (use w in \<open>simp_all add: hist_wf_def\<close>)
    moreover note d1 = same_state_ok(6,7) [OF drop_keys(5) [of tb "map (Pair n) (hist_keys_of n tb)"]]
      and d2 = same_state_ok(6,7) [OF drop_keys(5) [of ?tb "map (Pair n) (hist_keys_of n tb)"]]
    have "t_head t2 = t_head ?t" "t_base t2 = t_base ?t"
      using 1(7) 2(7) d1 d2 same_state_ok(6,7) [OF g(5)] same_state_ok(6,7) [OF gt(5)] by (simp_all add: same_rest_def)
    moreover have "t_trie_sto t2 k = t_trie_sto ?t k" if "k \<notin> hashed_address v ` A" for k
    proof -
      have "t_trie_sto (fold drop_key l t) = t_trie_sto t" for l t using drop_keys(5) [of t l] by (auto simp: same_state_def)
      moreover have "t_trie_sto ?tb = t_trie_sto tb" "t_trie_sto ?t = t_trie_sto t1" using g(5) gt(5) by (auto simp: same_state_def)
      ultimately show ?thesis using 1(7) 2(7) that by (simp add: same_rest_def)
    qed
    ultimately have rest: "same_rest v A ?t t2" by (simp add: same_rest_def)
    have st: "state_ok v A S ?t" using same_state_ok(1) [OF gt(5)] 1(2) by simp
    have e: "info_at t2 = info_at ?t" "sto t2 = sto ?t" "amap v A ?t = amap v A t1"
      using 1(5,6) 2(5,6) same_state_ok(2,3,4) [OF g(5)] same_state_ok(2,3,4) [OF gt(5)] by simp_all
    have "t2 = ?t\<lparr>t_codes := t_codes t2\<rparr>" "r2 = r1"
      using state_ext [of v A S ?t t2] st 2(2,4) 1(4) e rest by auto
    moreover have "t_codes t2 = t_codes ?t"
      using 1(8) 2(8) same_state_ok(5) [OF g(5)] same_state_ok(5) [OF gt(5)] by simp
    ultimately show ?thesis using 1(1) 2(1) by simp
  qed
qed

subsection \<open>A codec\<close>

text \<open>
  The hypotheses on the codec and on the roots from scratch hold of a codec whose hash is the number of the
  bytes, and of roots computed by a session on an empty trie.
\<close>

definition demo_codec :: codec where
  "demo_codec = \<lparr>cd_keccak = demo_keccak, cd_rlp = demo_rlp, cd_empty_root = 7, cd_u256 = be256,
     cd_account = (\<lambda>n b r c. be64 n @ be256 b @ be256 r @ be256 c), cd_bytecode_ok = (\<lambda>_. True)\<rparr>"

definition session_root :: "codec \<Rightarrow> trie_update list \<Rightarrow> b256" where
  "session_root v us = (case trie_session (cd_keccak v) (cd_rlp v) (cd_empty_root v) (\<lambda>_. None) us of Some (Inr (r, _)) \<Rightarrow> r | _ \<Rightarrow> 0)"

definition slots_root :: "codec \<Rightarrow> (b256 \<times> u256) list \<Rightarrow> b256" where
  "slots_root v l = session_root v (map (slot_update v) l)"

definition accounts_root :: "codec \<Rightarrow> (address \<times> account) list \<Rightarrow> b256" where
  "accounts_root v l = session_root v (map (\<lambda>(a, acc). (hashed_address v a, Some (trie_value v acc))) l)"

lemma session_root_ok: "codec_ok v \<Longrightarrow> updates_ok us \<Longrightarrow> map_root v (update_map us Map.empty) (session_root v us)"
  using session_stored [OF _ stored_empty, of v us] by (auto simp: session_root_def)

lemma update_accounts:
  "inj_on (hashed_address v) A \<Longrightarrow> fst ` set l \<subseteq> A \<Longrightarrow>
     update_map (map (\<lambda>(a, acc). (hashed_address v a, Some (trie_value v acc))) l) (hm (hashed_address v) A f) =
     hm (hashed_address v) A (\<lambda>a. case map_of (rev l) a of Some acc \<Rightarrow> Some (trie_value v acc) | None \<Rightarrow> f a)"
proof (induction l arbitrary: f)
  case (Cons e l)
  obtain b acc where e: "e = (b, acc)" by fastforce
  have b: "b \<in> A" and l: "fst ` set l \<subseteq> A" using Cons.prems(2) by (simp_all add: e)
  have "update_map (map (\<lambda>(a, acc). (hashed_address v a, Some (trie_value v acc))) (e # l)) (hm (hashed_address v) A f)
      = update_map (map (\<lambda>(a, acc). (hashed_address v a, Some (trie_value v acc))) l) (hm (hashed_address v) A (f(b := Some (trie_value v acc))))"
    unfolding list.map update_map_Cons e prod.case fst_conv snd_conv hm_upd [OF Cons.prems(1) b] ..
  also have "\<dots> = hm (hashed_address v) A (\<lambda>a. case map_of (rev l) a of Some acc \<Rightarrow> Some (trie_value v acc) | None \<Rightarrow> (f(b := Some (trie_value v acc))) a)"
    by (rule Cons.IH [OF Cons.prems(1) l])
  also have "\<dots> = hm (hashed_address v) A (\<lambda>a. case map_of (rev (e # l)) a of Some acc \<Rightarrow> Some (trie_value v acc) | None \<Rightarrow> f a)"
    by (rule hm_cong) (simp add: e map_add_def split: option.splits)
  finally show ?case .
qed (simp add: update_map_def)

lemma map_of_rev_distinct: "distinct (map fst l) \<Longrightarrow> map_of (rev l) = map_of l"
  by (metis distinct_rev map_of_inject_set rev_map set_rev)

lemma session_alloy: "codec_ok v \<Longrightarrow> apart v A S \<Longrightarrow> alloy_ok v A S (slots_root v) (accounts_root v)"
proof -
  assume cd: "codec_ok v" and ap: "apart v A S"
  have "map_root v (hm (hashed_slot v) S (\<lambda>s. map_option (cd_u256 v) (map_of l s))) (slots_root v l)"
    if l: "distinct (map fst l)" "fst ` set l \<subseteq> S" "0 \<notin> snd ` set l" for l
  proof -
    have "\<forall>e \<in> set l. fst e \<in> S" using l(2) by auto
    from update_slots [OF ap this, of "\<lambda>_. None" 0]
    have u: "update_map (map (slot_update v) l) Map.empty = hm (hashed_slot v) S (\<lambda>s. map_option (cd_u256 v) (fold (set_slot 0) l (\<lambda>_. None) (0, s)))"
      by simp
    have "fold (set_slot 0) l (\<lambda>_. None) (0, s) = map_of l s" for s
    proof -
      have "map_of (rev l) s = map_of l s" using l(1) by (simp add: map_of_rev_distinct)
      moreover have "x \<noteq> 0" if "map_of l s = Some x" for x using l(3) map_of_SomeD [OF that] by force
      ultimately show ?thesis unfolding set_slots_at by (auto simp: nz_def split: option.splits)
    qed
    then show ?thesis using session_root_ok [OF cd slots_updates_ok [OF cd], of l] unfolding slots_root_def u by simp
  qed
  moreover have "map_root v (hm (hashed_address v) A (\<lambda>a. map_option (trie_value v) (map_of l a))) (accounts_root v l)"
    if l: "distinct (map fst l)" "fst ` set l \<subseteq> A" for l
  proof -
    have inj: "inj_on (hashed_address v) A" using ap by (simp add: apart_def)
    have "update_map (map (\<lambda>(a, acc). (hashed_address v a, Some (trie_value v acc))) l) Map.empty
        = hm (hashed_address v) A (\<lambda>a. map_option (trie_value v) (map_of l a))"
      using update_accounts [OF inj l(2), of "\<lambda>_. None"] map_of_rev_distinct [OF l(1)]
      by (auto simp: fun_eq_iff hm_def map_option_case split: option.splits)
    moreover have "updates_ok (map (\<lambda>(a, acc). (hashed_address v a, Some (trie_value v acc))) l)"
      using cd by (auto simp: updates_ok_def codec_ok_def trie_value_def)
    ultimately show ?thesis using session_root_ok [OF cd] unfolding accounts_root_def by metis
  qed
  ultimately show ?thesis unfolding alloy_ok_def by blast
qed

lemma demo_codec_ok: "codec_ok demo_codec" "apart demo_codec A S"
proof -
  have "be256 x \<noteq> []" for x using length_be(4) [of x] by (metis length_0_conv zero_neq_numeral)
  then show "codec_ok demo_codec" using demo_rlp_ok by (simp add: codec_ok_def demo_codec_def)
  have u: "unat a < 256 ^ 20" for a :: address using unsigned_less [of a, where ?'a = nat] by simp
  have "hashed_address demo_codec a = of_nat (unat a)" for a
    unfolding hashed_address_def demo_codec_def codec.simps demo_keccak_def be_nat_nat_be by (rule arg_cong [where f = of_nat]) (use u [of a] in simp)
  moreover have "unat (of_nat (unat a) :: b256) = unat a" for a :: address by (rule unat_of_nat_less) (use u [of a] in simp)
  ultimately have a: "unat (hashed_address demo_codec a) = unat a" for a by simp
  have "hashed_slot demo_codec s = s" for s
    using unat_lt_pow256(4) [of s] by (simp add: hashed_slot_def demo_codec_def demo_keccak_def be256_def be_nat_nat_be)
  then show "apart demo_codec A S" unfolding apart_def inj_on_def using a by (metis word_unat_eq_iff)
qed

text \<open>A genesis with one account and one slot, and a block that pays another account and clears the slot.\<close>

definition demo_alloc :: "(address, init_account) btmap" where
  "demo_alloc = [(1, \<lparr>ia_nonce = 0, ia_balance = 5, ia_code = [], ia_storage = [(0, 7)]\<rparr>)]"

definition demo_changes :: changeset where
  "demo_changes = \<lparr>cs_accounts = [(1, Some (1, 4, 0)), (2, Some (0, 1, 0))],
     cs_storage = [\<lparr>sc_address = 1, sc_wipe = False, sc_slots = [(0, 0)]\<rparr>], cs_contracts = []\<rparr>"

definition demo_reverts :: reverts where
  "demo_reverts = \<lparr>rv_accounts = [[(1, Some (0, 5, 0)), (2, None)]],
     rv_storage = [[\<lparr>sr_address = 1, sr_slots = [(0, Slot_Some 7)]\<rparr>]]\<rparr>"

abbreviation "demo_reached \<equiv> reached demo_codec UNIV UNIV"

lemma demo_in: "changes_ok UNIV UNIV cs" "reverts_in UNIV UNIV rv" "alloc_in UNIV UNIV alloc"
  by (auto simp: changes_ok_def change_ok_def reverts_in_def alloc_in_def)

lemma demo_genesis:
  "\<exists>r tb. init_state demo_codec demo_alloc empty_tables = Some (Inr (r, tb)) \<and> demo_reached tb r
    \<and> info_at tb = (\<lambda>a. if a = 1 then Some (0, 5, 0) else None) \<and> sto tb = (\<lambda>k. if k = (1, 0) then Some 7 else None)
    \<and> t_hist_keys tb = [] \<and> base tb = 0"
proof -
  define cs where "cs = \<lparr>cs_accounts = [(1 :: address, Some (0, 5, 0))],
    cs_storage = [\<lparr>sc_address = 1, sc_wipe = False, sc_slots = [(0, 7)]\<rparr>], cs_contracts = []\<rparr>"
  have "genesis_changes demo_codec demo_alloc = Some cs"
    by (simp add: genesis_changes_def genesis_account_def demo_alloc_def demo_codec_def demo_keccak_def be_nat_def cs_def)
  from init_state_ok [OF demo_codec_ok demo_in(3) this] obtain r tb where
      g: "init_state demo_codec demo_alloc empty_tables = Some (Inr (r, tb))" "info_at tb = new_info demo_codec cs (\<lambda>_. None)"
      "sto tb = new_sto cs (\<lambda>_. None)" "same_rest demo_codec UNIV empty_tables tb" by blast
  have "demo_reached tb r" by (rule genesis [OF demo_in(3) g(1)])
  moreover have "info_at tb = (\<lambda>a. if a = 1 then Some (0, 5, 0) else None)"
    by (rule ext) (simp add: g(2) new_info_def last_info_def touched_def cs_def)
  moreover have "sto tb = (\<lambda>k. if k = (1, 0) then Some 7 else None)"
    by (rule ext) (simp add: g(3) new_sto_def last_info_def cs_def sto_step_def set_slot_def nz_def)
  ultimately show ?thesis using g(1,4) by (auto simp: same_rest_def empty_tables_def base_def)
qed

lemma demo_reverts_of:
  assumes "info_at tb = (\<lambda>a. if a = 1 then Some (0, 5, 0) else None)" "sto tb = (\<lambda>k. if k = (1, 0) then Some 7 else None)"
  shows "reverts_of demo_codec tb demo_changes demo_reverts"
proof -
  have s: "storage_of tb 1 0 = 7" using fun_cong [OF assms(2), of "(1, 0)"] by (simp add: storage_of_def sto_def)
  have i: "new_info demo_codec demo_changes (info_at tb) a = (if a = 1 then Some (1, 4, 0) else if a = 2 then Some (0, 1, 0) else info_at tb a)" for a
    by (simp add: new_info_def last_info_def touched_def demo_changes_def)
  have m: "new_sto demo_changes (sto tb) k = (if k = (1, 0) then None else sto tb k)" for k
    by (simp add: new_sto_def last_info_def demo_changes_def sto_step_def set_slot_def nz_def)
  show ?thesis unfolding reverts_of_def i m
    using s assms(1) by (auto simp: demo_reverts_def revert_accounts_def revert_slots_def prior_value_def)
qed

subsection \<open>Properties of the state store\<close>

text \<open>
  C34. The root a block adds is the root of the whole state. Whatever genesis, blocks, undone blocks and
  prunings the store went through, the root that the last change returned, computed from the accounts
  and slots it touched, is the one computed from scratch over all flat accounts and their storage.
\<close>

theorem state_root_incremental:
  assumes "codec_ok v" "apart v A S" "alloy_ok v A S sroot aroot" "reached v A S tb r"
  shows "full_state_root sroot aroot tb = Some (Inr r)"
  using reached_ok [OF assms(1,2,4)] full_state_root_ok [OF _ assms(3)] map_root_unique by blast

theorem state_root_incremental_witness:
  "\<exists>r tb r' tb'. init_state demo_codec demo_alloc empty_tables = Some (Inr (r, tb))
    \<and> apply_bundle demo_codec 1 demo_changes demo_reverts tb = Some (Inr (r', tb'))
    \<and> full_state_root (slots_root demo_codec) (accounts_root demo_codec) tb' = Some (Inr r')"
proof -
  obtain r tb where g: "init_state demo_codec demo_alloc empty_tables = Some (Inr (r, tb))" "demo_reached tb r" using demo_genesis by blast
  obtain r' tb' where b: "apply_bundle demo_codec 1 demo_changes demo_reverts tb = Some (Inr (r', tb'))"
    using apply_bundle_ok [OF demo_codec_ok _ _ demo_in(1,2)] reached_ok [OF demo_codec_ok g(2)] by blast
  from state_root_incremental [OF demo_codec_ok session_alloy [OF demo_codec_ok] block [OF g(2) demo_in(1,2) b]] show ?thesis
    using g(1) b by blast
qed

text \<open>
  C36. No operation finds a corrupt table. On every reached state the changes of a block apply, a block is
  undone unless it has no history and lies outside of the window, and a past account is read: the
  errors of the decoders, of the history lookups and of the tries do not occur.
\<close>

theorem state_never_corrupt:
  assumes "codec_ok v" "apart v A S" "reached v A S tb r" "changes_ok A S cs" "reverts_in A S rv"
  shows "(\<exists>r' tb'. apply_bundle v n cs rv tb = Some (Inr (r', tb')))
    \<and> (\<exists>r' tb'. unwind_state v k tb = (if hist_keys_of k tb = [] \<and> \<not> history_covers tb k then Some (Inl (Corrupt ''unwind: history pruned''))
         else Some (Inr (r', tb'))))
    \<and> (\<exists>acc. account_at v tb a m = Inr acc)"
proof -
  have ok: "state_ok v A S tb" "hist_ok A S tb" using reached_ok [OF assms(1,2,3)] by simp_all
  have accs: "accs_ok A tb" using ok by (simp add: state_ok_def)
  have "\<exists>r' tb'. unwind_state v k tb = (if hist_keys_of k tb = [] \<and> \<not> history_covers tb k then Some (Inl (Corrupt ''unwind: history pruned''))
      else Some (Inr (r', tb')))"
    using unwind_state_ok [OF assms(1,2) ok, of k] by (auto simp: unwind_state_def Let_def)
  moreover have "\<exists>acc. account_at v tb a m = Inr acc"
  proof (cases "history_covers tb m")
    case True
    then show ?thesis using past_info_read [OF accs ok(2) True, of v a] by (cases "account_at v tb a m") (auto simp: past_info_def)
  qed (simp add: account_at_def)
  ultimately show ?thesis using apply_bundle_ok [OF assms(1,2) ok assms(4,5), of n] by blast
qed

theorem state_never_corrupt_witness:
  "\<exists>r tb r' tb'. init_state demo_codec demo_alloc empty_tables = Some (Inr (r, tb))
    \<and> apply_bundle demo_codec 1 demo_changes demo_reverts tb = Some (Inr (r', tb')) \<and> (\<exists>acc. account_at demo_codec tb 1 0 = Inr acc)"
proof -
  obtain r tb where g: "init_state demo_codec demo_alloc empty_tables = Some (Inr (r, tb))" "demo_reached tb r" using demo_genesis by blast
  from state_never_corrupt [OF demo_codec_ok g(2) demo_in(1,2), where n = 1 and cs = demo_changes and rv = demo_reverts and a = 1 and m = 0]
  show ?thesis using g(1) by blast
qed

text \<open>
  C35. Undoing a block gives back the state before it. When the reverts of the block are the prior values of
  what it changes and the height has no history yet, undoing the block as head succeeds, returns the
  root before the block and restores every table: accounts, slots, the nodes of all tries and the
  history. Only code, which is kept by hash, remains.
\<close>

theorem unwind_undoes_block:
  assumes "codec_ok v" "apart v A S" "reached v A S tb r" "changes_ok A S cs" "reverts_in A S rv" "reverts_of v tb cs rv"
    "hist_keys_of n tb = []" "base tb \<le> n"
  shows "\<exists>r' tb'. apply_bundle v n cs rv tb = Some (Inr (r', tb'))
    \<and> unwind_state v n (tb'\<lparr>t_head := Some n\<rparr>) = Some (Inr (r, tb\<lparr>t_codes := t_codes tb', t_head := Some n\<rparr>))"
proof -
  have ok: "state_ok v A S tb" "hist_ok A S tb" "map_root v (amap v A tb) r" using reached_ok [OF assms(1,2,3)] by simp_all
  show ?thesis by (rule bundle_undone [OF assms(1,2) ok(1,2) assms(4,5,6,7,8) ok(3)])
qed

theorem unwind_undoes_block_witness:
  "\<exists>r tb r' tb'. init_state demo_codec demo_alloc empty_tables = Some (Inr (r, tb))
    \<and> apply_bundle demo_codec 1 demo_changes demo_reverts tb = Some (Inr (r', tb'))
    \<and> unwind_state demo_codec 1 (tb'\<lparr>t_head := Some 1\<rparr>) = Some (Inr (r, tb\<lparr>t_codes := t_codes tb', t_head := Some 1\<rparr>))"
proof -
  obtain r tb where g: "init_state demo_codec demo_alloc empty_tables = Some (Inr (r, tb))" "demo_reached tb r"
      "info_at tb = (\<lambda>a. if a = 1 then Some (0, 5, 0) else None)" "sto tb = (\<lambda>k. if k = (1, 0) then Some 7 else None)"
      "t_hist_keys tb = []" "base tb = 0" using demo_genesis by blast
  have "hist_keys_of 1 tb = []" "base tb \<le> 1" using g(5,6) by (simp_all add: hist_keys_of_def)
  from unwind_undoes_block [OF demo_codec_ok g(2) demo_in(1,2) demo_reverts_of [OF g(3,4)] this] show ?thesis using g(1) by blast
qed

text \<open>
  C37. A new block does not change the past. Accounts, up to the storage root that the history does not keep, and
  slots read at a covered height are the same before and after the block, and at the height before
  the block they are the ones the block found.
\<close>

theorem past_reads_stable:
  assumes "codec_ok v" "apart v A S" "reached v A S tb r" "hist_upto tb h" "t_head tb = Some h" "h < h + 1"
    "changes_ok A S cs" "reverts_in A S rv" "reverts_of v tb cs rv" "apply_bundle v (h + 1) cs rv tb = Some (Inr (r', tb'))"
    "m \<le> h" "history_covers (tb'\<lparr>t_head := Some (h + 1)\<rparr>) m"
  shows "past_info v (tb'\<lparr>t_head := Some (h + 1)\<rparr>) a m = past_info v tb a m
    \<and> storage_at (tb'\<lparr>t_head := Some (h + 1)\<rparr>) a s m = storage_at tb a s m
    \<and> (m = h \<longrightarrow> past_info v tb a m = Inr (Some (info_at tb a)) \<and> storage_at tb a s m = Some (storage_of tb a s))"
proof -
  let ?tb = "tb'\<lparr>t_head := Some (h + 1)\<rparr>"
  have ok: "state_ok v A S tb" "hist_ok A S tb" using reached_ok [OF assms(1,2,3)] by simp_all
  have tb': "state_ok v A S tb'" "hist_ok A S tb'" "info_at tb' = new_info v cs (info_at tb)" "sto tb' = new_sto cs (sto tb)"
      "same_rest v A (write_history (h + 1) rv tb) tb'"
    using apply_bundle_ok [OF assms(1,2) ok assms(7,8), of "h + 1"] assms(10) by auto
  have "hist_ok A S ?tb" using tb'(2) by (simp add: hist_ok_def hist_wf_def)
  moreover have "t_base tb' = t_base tb" using tb'(5) same_state_ok(7) [OF write_history_get(5)] by (simp add: same_rest_def)
  then have c: "history_covers tb m" using assms(5,11,12) covers_mono [OF assms(6,11)] by (simp add: history_covers_def base_def Let_def)
  ultimately have reads: "past_info v ?tb a m = past_info v tb a m" "storage_at ?tb a s m = storage_at tb a s m"
    using block_reads(1) [OF ok assms(4,6,9), where tb' = ?tb and m = m and a = a] block_reads(2) [OF ok assms(4,6,9), where tb' = ?tb and m = m and a = a and s = s] tb' assms(11,12) by (simp_all add: head_cong same_rest_def)
  have wf: "bt_wf (t_acc_hist tb)" "bt_wf (t_sto_hist tb)" and accs: "accs_ok A tb" using ok by (simp_all add: hist_ok_def hist_wf_def state_ok_def)
  have "hist_read a (h + 1) (t_acc_hist tb) = None"
    by (rule hist_read_above [OF wf(1) _ assms(6)]) (rule hist_upto_entries(1) [OF ok(2) assms(4)])
  moreover have "hist_read (a, s) (h + 1) (t_sto_hist tb) = None"
    by (rule hist_read_above [OF wf(2) _ assms(6)]) (rule hist_upto_entries(2) [OF ok(2) assms(4)])
  ultimately show ?thesis using reads c past_info_read [OF accs ok(2), of h] by (auto simp: storage_at_read)
qed

theorem past_reads_stable_witness:
  "\<exists>r tb r' tb'. init_state demo_codec demo_alloc empty_tables = Some (Inr (r, tb))
    \<and> apply_bundle demo_codec 1 demo_changes demo_reverts (tb\<lparr>t_head := Some 0, t_base := None\<rparr>) = Some (Inr (r', tb'))
    \<and> past_info demo_codec (tb'\<lparr>t_head := Some 1\<rparr>) 1 0 = Inr (Some (Some (0, 5, 0)))
    \<and> storage_at (tb'\<lparr>t_head := Some 1\<rparr>) 1 0 0 = Some 7"
proof -
  obtain r tb where g: "init_state demo_codec demo_alloc empty_tables = Some (Inr (r, tb))" "demo_reached tb r"
      "info_at tb = (\<lambda>a. if a = 1 then Some (0, 5, 0) else None)" "sto tb = (\<lambda>k. if k = (1, 0) then Some 7 else None)"
      "t_hist_keys tb = []" using demo_genesis by blast
  let ?tb = "tb\<lparr>t_head := Some 0, t_base := None\<rparr>"
  have re: "demo_reached ?tb r" by (rule head [OF g(2)])
  have i: "info_at ?tb = (\<lambda>a. if a = 1 then Some (0, 5, 0) else None)" "sto ?tb = (\<lambda>k. if k = (1, 0) then Some 7 else None)"
    using state_ok_cong(2,3) [of ?tb tb] g(3,4) by simp_all
  have s: "storage_of ?tb 1 0 = 7" using fun_cong [OF i(2), of "(1, 0)"] by (simp add: storage_of_def sto_def)
  have up: "hist_upto ?tb 0" using g(5) by (simp add: hist_upto_def bt_has_def bt_simps)
  obtain r' tb' where b: "apply_bundle demo_codec (0 + 1) demo_changes demo_reverts ?tb = Some (Inr (r', tb'))"
      "same_rest demo_codec UNIV (write_history (0 + 1) demo_reverts ?tb) tb'"
    using apply_bundle_ok [OF demo_codec_ok _ _ demo_in(1,2)] reached_ok [OF demo_codec_ok re] by blast
  have "t_base tb' = None" using b(2) same_state_ok(7) [OF write_history_get(5)] by (simp add: same_rest_def)
  then have "history_covers (tb'\<lparr>t_head := Some (0 + 1)\<rparr>) 0" by (simp add: history_covers_def base_def HISTORY_BLOCKS_def)
  from past_reads_stable [OF demo_codec_ok re up _ _ demo_in(1,2) demo_reverts_of [OF i] b(1) _ this, of 1 0] show ?thesis
    using g(1) b(1) i(1) s by auto
qed

text \<open>
  C38. Pruning keeps the window and forgets the rest. After pruning at the head, every height that the history
  covers reads as before. The recorded values and the index keys of the blocks \<open>HISTORY_BLOCKS\<close> or more below the
  head are gone, from all three tables, and every other one is unchanged. Undoing a block above those gives what
  undoing it without the pruning gives, with the same root and the same tables but for the pruned entries, or the
  same error.
\<close>

theorem prune_keeps_window:
  assumes "codec_ok v" "apart v A S" "reached v A S tb r" "t_head tb = Some h" "history_covers tb m" "m < m + 1"
    and tb'_def: "tb' = snd (prune_history h tb)"
  shows "account_at v tb' a m = account_at v tb a m \<and> storage_at tb' a s m = storage_at tb a s m
    \<and> (\<forall>n b t. bt_get (b, n) (t_acc_hist tb') = (if pruned h n then None else bt_get (b, n) (t_acc_hist tb))
        \<and> bt_get ((b, t), n) (t_sto_hist tb') = (if pruned h n then None else bt_get ((b, t), n) (t_sto_hist tb))
        \<and> hist_keys_of n tb' = (if pruned h n then [] else hist_keys_of n tb))
    \<and> (\<forall>n. \<not> pruned h n \<longrightarrow> unwind_state v n tb' =
         map_option (map_sum id (map_prod id (\<lambda>t. snd (prune_history h t)))) (unwind_state v n tb))"
proof -
  have ok: "state_ok v A S tb" "hist_ok A S tb" using reached_ok [OF assms(1,2,3)] by simp_all
  note g = prune_get [OF ok(2), where h = h, folded tb'_def]
  have wf: "hist_wf tb" "hist_wf tb'" using ok(2) g(4) by (simp_all add: hist_ok_def)
  have c: "history_covers tb' n = history_covers tb n" for n using same_state_ok(6,7) [OF g(5)] by (simp add: history_covers_def base_def)
  have keep: "\<not> pruned h j" if "m + 1 \<le> j" for j
    using window_start [OF _ _ _ assms(6) that, of HISTORY_BLOCKS h] assms(4,5) by (auto simp: pruned_def history_covers_def)
  have "hist_read a (m + 1) (t_acc_hist tb') = hist_read a (m + 1) (t_acc_hist tb)" "hist_read (a, s) (m + 1) (t_sto_hist tb') = hist_read (a, s) (m + 1) (t_sto_hist tb)"
    using wf by (auto intro!: hist_read_cong simp: hist_wf_def g keep)
  moreover have "account_of tb' a = account_of tb a" "storage_of tb' a s = storage_of tb a s"
    using g(5) by (auto simp: same_state_def account_of_def storage_of_def)
  ultimately have "account_at v tb' a m = account_at v tb a m" "storage_at tb' a s m = storage_at tb a s m"
    using assms(5) by (simp_all add: account_at_read storage_at_read c split: option.splits)
  then show ?thesis
    using g(1,2) prune_keys_of [OF ok(2), where h = h, folded tb'_def] prune_unwind [OF assms(1,2) ok, where h = h, folded tb'_def] by blast
qed

theorem prune_keeps_window_witness:
  "\<exists>r tb r' tb'. init_state demo_codec demo_alloc empty_tables = Some (Inr (r, tb))
    \<and> apply_bundle demo_codec 1 demo_changes demo_reverts tb = Some (Inr (r', tb'))
    \<and> account_at demo_codec (snd (prune_history 129 (tb'\<lparr>t_head := Some 129, t_base := None\<rparr>))) 1 1
      = account_at demo_codec (tb'\<lparr>t_head := Some 129, t_base := None\<rparr>) 1 1
    \<and> hist_keys_of 1 (snd (prune_history 129 (tb'\<lparr>t_head := Some 129, t_base := None\<rparr>))) = []
    \<and> bt_get (1, 1) (t_acc_hist (snd (prune_history 129 (tb'\<lparr>t_head := Some 129, t_base := None\<rparr>)))) = None"
proof -
  obtain r tb where g: "init_state demo_codec demo_alloc empty_tables = Some (Inr (r, tb))" "demo_reached tb r" using demo_genesis by blast
  obtain r' tb' where b: "apply_bundle demo_codec 1 demo_changes demo_reverts tb = Some (Inr (r', tb'))"
    using apply_bundle_ok [OF demo_codec_ok _ _ demo_in(1,2)] reached_ok [OF demo_codec_ok g(2)] by blast
  let ?tb = "tb'\<lparr>t_head := Some 129, t_base := None\<rparr>"
  have re: "demo_reached ?tb r'" by (rule head [OF block [OF g(2) demo_in(1,2) b]])
  have c: "history_covers ?tb 1" by (simp add: history_covers_def base_def HISTORY_BLOCKS_def)
  have p: "pruned 129 1" by (simp add: pruned_def HISTORY_BLOCKS_def)
  note w = prune_keeps_window [OF demo_codec_ok re _ c _ refl, of 129 1 0]
  have "account_at demo_codec (snd (prune_history 129 ?tb)) 1 1 = account_at demo_codec ?tb 1 1"
    "hist_keys_of 1 (snd (prune_history 129 ?tb)) = []" "bt_get (1, 1) (t_acc_hist (snd (prune_history 129 ?tb))) = None"
    using w p by simp_all
  then show ?thesis using g(1) b by blast
qed

text \<open>
  C39. Merkle proofs show the state. For every reached state, the account proof of an address checks against the
  root of the last change and shows the flat account, or that there is none; the storage proof of a
  slot checks against the account's storage root and shows the flat slot, absent when it is zero.
\<close>

theorem state_proofs_show_state:
  assumes "codec_ok v" "apart v A S" "reached v A S tb r" "a \<in> A" "s \<in> S"
  shows "\<exists>acc ps qs. account_of tb a = Inr acc \<and> account_proof v tb a = Some (Inr ps) \<and> storage_proof v tb a s = Some (Inr qs)
    \<and> proof_value (cd_keccak v) (cd_rlp v) (cd_empty_root v) r (hashed_address v a) ps = Some (map_option (trie_value v) acc)
    \<and> (acc \<noteq> None \<longrightarrow> proof_value (cd_keccak v) (cd_rlp v) (cd_empty_root v) (acc_storage_root (the acc)) (hashed_slot v s) qs
         = Some (if storage_of tb a s = 0 then None else Some (cd_u256 v (storage_of tb a s))))"
proof -
  have ok: "state_ok v A S tb" "map_root v (amap v A tb) r" using reached_ok [OF assms(1,2,3)] by simp_all
  have acc: "account_of tb a = Inr (acct tb a)" and so: "sto_ok v A S tb" using ok(1) account_of_ok by (auto simp: state_ok_def)
  have inj: "inj_on (hashed_address v) A" "inj_on (hashed_slot v) S" using assms(2) by (simp_all add: apart_def)
  have am: "amap v A tb (hashed_address v a) = map_option (trie_value v) (acct tb a)" using inj(1) assms(4) by (simp add: amap_def hm_def)
  have sm: "smap v S tb a (hashed_slot v s) = (if storage_of tb a s = 0 then None else Some (cd_u256 v (storage_of tb a s)))"
    using inj(2) assms(5) sto_nz [OF so, of a s] by (auto simp: smap_def hm_def nz_def simp flip: sto_nz [OF so])
  have sa: "stored v (t_trie_acc tb) (amap v A tb)" using ok(1) by (simp add: state_ok_def)
  obtain ps where ps: "account_proof v tb a = Some (Inr ps)"
      "proof_value (cd_keccak v) (cd_rlp v) (cd_empty_root v) r (hashed_address v a) ps = Some (amap v A tb (hashed_address v a))"
    using stored_proof [OF assms(1) sa ok(2), of "hashed_address v a"] by (auto simp: account_proof_def)
  have st: "stored v (t_trie_sto tb (hashed_address v a)) (smap v S tb a)" using so assms(4) by (simp add: sto_ok_def)
  obtain r' where r': "map_root v (smap v S tb a) r'" using st unfolding trie_store_def map_root_def by blast
  obtain qs where qs: "storage_proof v tb a s = Some (Inr qs)"
      "proof_value (cd_keccak v) (cd_rlp v) (cd_empty_root v) r' (hashed_slot v s) qs = Some (smap v S tb a (hashed_slot v s))"
    using stored_proof [OF assms(1) st r', of "hashed_slot v s"] by (auto simp: storage_proof_def)
  have "acc_storage_root (the (acct tb a)) = r'" if "acct tb a \<noteq> None"
    using that ok(1) map_root_unique [OF _ r'] by (auto simp: state_ok_def)
  then show ?thesis using acc ps qs unfolding am sm by auto
qed

theorem state_proofs_show_state_witness:
  "\<exists>r tb acc ps qs. init_state demo_codec demo_alloc empty_tables = Some (Inr (r, tb)) \<and> account_of tb 1 = Inr (Some acc)
    \<and> account_proof demo_codec tb 1 = Some (Inr ps) \<and> storage_proof demo_codec tb 1 0 = Some (Inr qs)
    \<and> proof_value demo_keccak demo_rlp 7 r (hashed_address demo_codec 1) ps = Some (Some (trie_value demo_codec acc))
    \<and> proof_value demo_keccak demo_rlp 7 (acc_storage_root acc) (hashed_slot demo_codec 0) qs = Some (Some (be256 7))"
proof -
  obtain r tb where g: "init_state demo_codec demo_alloc empty_tables = Some (Inr (r, tb))" "demo_reached tb r"
      "info_at tb = (\<lambda>a. if a = 1 then Some (0, 5, 0) else None)" "sto tb = (\<lambda>k. if k = (1, 0) then Some 7 else None)"
    using demo_genesis by blast
  have s: "storage_of tb 1 0 = 7" using fun_cong [OF g(4), of "(1, 0)"] by (simp add: storage_of_def sto_def)
  obtain acc where a: "acct tb 1 = Some acc" using fun_cong [OF g(3), of 1] by (auto simp: info_at_def)
  have "account_of tb 1 = Inr (Some acc)" using account_of_ok [of UNIV tb 1] reached_ok [OF demo_codec_ok g(2)] a by (simp add: state_ok_def)
  with state_proofs_show_state [OF demo_codec_ok g(2), of 1 0] show ?thesis using g(1) s
    by (auto simp: demo_codec_def)
qed

end
