(* ===== verification/Overlay.thy ===== *)
theory Overlay
  imports State_Reads
begin

text \<open>
  State of not yet final blocks over the committed store (\<^verbatim>\<open>crates/chain/src/overlay.rs\<close>). Blocks are
  executed on such an overlay while their state root comes from applying the pending blocks to the
  tables: both give the same state.
\<close>

record changes =
  ov_accounts :: "(address, info option) btmap"
  ov_storage :: "(address \<times> u256, u256) btmap"
  ov_wiped :: "address set"
  ov_codes :: "(b256, byte list) btmap"
  ov_block_hashes :: "(u64, b256) btmap"

definition no_changes :: changes where
  "no_changes = \<lparr>ov_accounts = [], ov_storage = [], ov_wiped = {}, ov_codes = [], ov_block_hashes = []\<rparr>"

definition ov_wipe :: "address \<Rightarrow> changes \<Rightarrow> changes" where
  "ov_wipe a ch = ch\<lparr>ov_wiped := insert a (ov_wiped ch), ov_storage := bt_retain (\<lambda>k _. fst k \<noteq> a) (ov_storage ch)\<rparr>"

definition push_storage :: "storage_change \<Rightarrow> changes \<Rightarrow> changes" where
  "push_storage s ch =
     (let ch = (if sc_wipe s then ov_wipe (sc_address s) ch else ch)
      in ch\<lparr>ov_storage := fold (\<lambda>(k, x). bt_insert (sc_address s, k) x) (sc_slots s) (ov_storage ch)\<rparr>)"

definition push_account :: "address \<times> info option \<Rightarrow> changes \<Rightarrow> changes" where
  "push_account e ch =
     (case e of (a, i) \<Rightarrow>
      let ch = (if i = None then ov_wipe a ch else ch) in ch\<lparr>ov_accounts := bt_insert a i (ov_accounts ch)\<rparr>)"

definition push_changes :: "u64 \<Rightarrow> b256 \<Rightarrow> changeset \<Rightarrow> changes \<Rightarrow> changes" where
  "push_changes number hash cs ch =
     (let ch = ch\<lparr>ov_codes := fold (\<lambda>(h, c). bt_insert h c) (cs_contracts cs) (ov_codes ch)\<rparr>;
          ch = fold push_account (cs_accounts cs) (fold push_storage (cs_storage cs) ch)
      in ch\<lparr>ov_block_hashes := bt_insert number hash (ov_block_hashes ch)\<rparr>)"

text \<open>The view of the latest committed state below is that of \<open>basic_ref\<close> and its siblings.\<close>

definition ov_basic_ref :: "codec \<Rightarrow> tables \<Rightarrow> changes \<Rightarrow> address \<Rightarrow> store_error + info option" where
  "ov_basic_ref v tb ch a = (case bt_get a (ov_accounts ch) of Some i \<Rightarrow> Inr i | None \<Rightarrow> basic_ref v tb None a)"

definition ov_code_by_hash_ref :: "codec \<Rightarrow> tables \<Rightarrow> changes \<Rightarrow> b256 \<Rightarrow> byte list st_res" where
  "ov_code_by_hash_ref v tb ch h = (case bt_get h (ov_codes ch) of Some c \<Rightarrow> Some (Inr c) | None \<Rightarrow> code_by_hash_ref v tb h)"

definition ov_storage_ref :: "tables \<Rightarrow> changes \<Rightarrow> address \<Rightarrow> u256 \<Rightarrow> store_error + u256" where
  "ov_storage_ref tb ch a k =
     (case bt_get (a, k) (ov_storage ch) of
        Some x \<Rightarrow> Inr x
      | None \<Rightarrow> if a \<in> ov_wiped ch then Inr 0 else storage_ref tb None a k)"

definition ov_block_hash_ref :: "(u64 \<Rightarrow> b256 option) \<Rightarrow> changes \<Rightarrow> u64 \<Rightarrow> b256" where
  "ov_block_hash_ref block_hash ch number =
     (case bt_get number (ov_block_hashes ch) of
        Some h \<Rightarrow> h
      | None \<Rightarrow> (case block_hash number of Some h \<Rightarrow> h | None \<Rightarrow> 0))"

text \<open>The pending blocks \<open>(number, hash, changes, reverts)\<close>, oldest first, as an overlay and as writes.\<close>

type_synonym pending_changes = "u64 \<times> b256 \<times> changeset \<times> reverts"

definition overlay_of :: "pending_changes list \<Rightarrow> changes" where
  "overlay_of ps = fold (\<lambda>(n, h, cs, _). push_changes n h cs) ps no_changes"

definition apply_pending :: "codec \<Rightarrow> pending_changes list \<Rightarrow> tables \<Rightarrow> tables st_res" where
  "apply_pending v ps tb = try_fold (\<lambda>(n, _, cs, rv) tb. map_option (map_sum id snd) (apply_bundle v n cs rv tb)) ps tb"

subsection \<open>What an overlay says\<close>

definition ov_info :: "changes \<Rightarrow> (address \<Rightarrow> info option) \<Rightarrow> address \<Rightarrow> info option" where
  "ov_info ch f a = (case bt_get a (ov_accounts ch) of Some i \<Rightarrow> i | None \<Rightarrow> f a)"

definition ov_sto :: "changes \<Rightarrow> (address \<times> b256 \<Rightarrow> u256 option) \<Rightarrow> address \<times> b256 \<Rightarrow> u256 option" where
  "ov_sto ch m k = (case bt_get k (ov_storage ch) of Some x \<Rightarrow> nz x | None \<Rightarrow> if fst k \<in> ov_wiped ch then None else m k)"

lemma ov_sto_accounts [simp]: "ov_sto (ch\<lparr>ov_accounts := x\<rparr>) m = ov_sto ch m"
  by (rule ext) (simp add: ov_sto_def)

lemma ov_wipe_sto:
  "bt_wf (ov_storage ch) \<Longrightarrow> ov_sto (ov_wipe a ch) m = (\<lambda>k. if fst k = a then None else ov_sto ch m k)"
  by (rule ext) (auto simp: ov_sto_def ov_wipe_def bt_get_retain split: option.splits)

lemma ov_wipe_wf: "bt_wf (ov_storage ch) \<Longrightarrow> bt_wf (ov_storage (ov_wipe a ch))"
  by (simp add: ov_wipe_def bt_wf_retain)

lemma ov_slots_sto:
  "ov_sto (ch\<lparr>ov_storage := fold (\<lambda>(k, x). bt_insert (a, k) x) l (ov_storage ch)\<rparr>) m = fold (set_slot a) l (ov_sto ch m)"
proof (induction l arbitrary: ch)
  case (Cons e l)
  obtain k x where e: "e = (k, x)" by fastforce
  let ?ch = "ch\<lparr>ov_storage := bt_insert (a, k) x (ov_storage ch)\<rparr>"
  have "ov_sto ?ch m = set_slot a e (ov_sto ch m)" by (rule ext) (simp add: ov_sto_def set_slot_def e bt_simps)
  then show ?case using Cons.IH [of ?ch] by (simp add: e)
qed simp

lemma ov_slots_wf: "bt_wf m \<Longrightarrow> bt_wf (fold (\<lambda>(k, x). bt_insert (a, k) x) l m)"
  by (induction l arbitrary: m) (auto simp: bt_wf_insert)

lemma push_storage_sto:
  assumes "bt_wf (ov_storage ch)"
  shows "ov_sto (push_storage s ch) m = sto_step s (ov_sto ch m)" "bt_wf (ov_storage (push_storage s ch))"
    "ov_accounts (push_storage s ch) = ov_accounts ch"
proof -
  let ?ch = "if sc_wipe s then ov_wipe (sc_address s) ch else ch"
  have "ov_sto ?ch m = (if sc_wipe s then (\<lambda>k. if fst k = sc_address s then None else ov_sto ch m k) else ov_sto ch m)"
    using ov_wipe_sto [OF assms] by simp
  then show "ov_sto (push_storage s ch) m = sto_step s (ov_sto ch m)" unfolding push_storage_def Let_def ov_slots_sto sto_step_def by simp
  have "bt_wf (ov_storage ?ch)" using assms ov_wipe_wf by simp
  then show "bt_wf (ov_storage (push_storage s ch))" by (simp add: push_storage_def Let_def ov_slots_wf)
  show "ov_accounts (push_storage s ch) = ov_accounts ch" by (simp add: push_storage_def Let_def ov_wipe_def)
qed

lemma push_storages:
  "bt_wf (ov_storage ch) \<Longrightarrow> ov_sto (fold push_storage l ch) m = fold sto_step l (ov_sto ch m)
    \<and> bt_wf (ov_storage (fold push_storage l ch)) \<and> ov_accounts (fold push_storage l ch) = ov_accounts ch"
proof (induction l arbitrary: ch)
  case (Cons s l)
  then show ?case using push_storage_sto [OF Cons.prems] Cons.IH [of "push_storage s ch"] by simp
qed simp

lemma push_accounts:
  "bt_wf (ov_storage ch) \<Longrightarrow> distinct (map fst l) \<Longrightarrow>
    ov_sto (fold push_account l ch) m = (\<lambda>k. if map_of l (fst k) = Some None then None else ov_sto ch m k)
    \<and> bt_wf (ov_storage (fold push_account l ch))
    \<and> ov_info (fold push_account l ch) f = (\<lambda>a. case map_of l a of Some i \<Rightarrow> i | None \<Rightarrow> ov_info ch f a)"
proof (induction l arbitrary: ch)
  case (Cons e l)
  obtain a i where e: "e = (a, i)" by fastforce
  have al: "map_of l a = None" using Cons.prems by (simp add: e map_of_eq_None_iff)
  let ?ch = "push_account e ch"
  have s: "ov_sto ?ch m = (\<lambda>k. if fst k = a \<and> i = None then None else ov_sto ch m k)"
    using ov_wipe_sto [OF Cons.prems(1), of a m] by (auto simp: push_account_def e Let_def fun_eq_iff)
  have w: "bt_wf (ov_storage ?ch)" using Cons.prems(1) ov_wipe_wf by (simp add: push_account_def e Let_def)
  have f: "ov_info ?ch f = (ov_info ch f)(a := i)" by (rule ext) (simp add: push_account_def e Let_def ov_info_def bt_simps ov_wipe_def)
  have "distinct (map fst l)" using Cons.prems(2) by simp
  from Cons.IH [OF w this] have IH: "ov_sto (fold push_account l ?ch) m = (\<lambda>k. if map_of l (fst k) = Some None then None else ov_sto ?ch m k)"
      "bt_wf (ov_storage (fold push_account l ?ch))"
      "ov_info (fold push_account l ?ch) f = (\<lambda>a. case map_of l a of Some i \<Rightarrow> i | None \<Rightarrow> ov_info ?ch f a)" by blast+
  have l: "map_of (e # l) b = (if b = a then Some i else map_of l b)" for b by (simp add: e)
  show ?case unfolding fold_simps IH(1,3) s f l using IH(2) al by (auto simp: fun_eq_iff split: option.splits)
qed simp

text \<open>
  What \<^verbatim>\<open>revm\<close> gives: no account twice, and storage changes only of accounts that are there or are listed.
\<close>

definition plain_changes :: "(address \<Rightarrow> info option) \<Rightarrow> changeset \<Rightarrow> bool" where
  "plain_changes f cs \<longleftrightarrow> distinct (map fst (cs_accounts cs))
     \<and> (\<forall>a. touched cs a \<longrightarrow> a \<in> fst ` set (cs_accounts cs) \<or> f a \<noteq> None)"

lemma push_changes_state:
  assumes "bt_wf (ov_storage ch)" "plain_changes (ov_info ch f) cs"
  shows "ov_sto (push_changes n h cs ch) m = new_sto cs (ov_sto ch m)" "ov_info (push_changes n h cs ch) f = new_info v cs (ov_info ch f)"
    "bt_wf (ov_storage (push_changes n h cs ch))"
proof -
  let ?c = "ch\<lparr>ov_codes := fold (\<lambda>(h, c). bt_insert h c) (cs_contracts cs) (ov_codes ch)\<rparr>"
  let ?s = "fold push_storage (cs_storage cs) ?c" and ?a = "fold push_account (cs_accounts cs) (fold push_storage (cs_storage cs) ?c)"
  have d: "distinct (map fst (cs_accounts cs))" using assms(2) by (simp add: plain_changes_def)
  have last: "last_info cs = map_of (cs_accounts cs)" by (simp add: last_info_def map_of_rev_distinct [OF d])
  have c: "ov_sto ?c m = ov_sto ch m" "ov_info ?c f = ov_info ch f" by (auto simp: ov_sto_def ov_info_def)
  note st = push_storages [of ?c "cs_storage cs" m, simplified, OF assms(1)]
  have s: "ov_sto ?s m = fold sto_step (cs_storage cs) (ov_sto ch m)" "bt_wf (ov_storage ?s)" "ov_info ?s f = ov_info ch f"
    using st c by (auto simp: ov_info_def)
  note ac = push_accounts [OF s(2) d]
  have p: "ov_sto (push_changes n h cs ch) m = ov_sto ?a m" "ov_info (push_changes n h cs ch) f = ov_info ?a f"
    "ov_storage (push_changes n h cs ch) = ov_storage ?a"
    by (auto simp: push_changes_def Let_def ov_sto_def ov_info_def)
  show "ov_sto (push_changes n h cs ch) m = new_sto cs (ov_sto ch m)"
    unfolding p(1) using ac [of m] s(1) by (auto simp: new_sto_def last fun_eq_iff)
  show "bt_wf (ov_storage (push_changes n h cs ch))" unfolding p(3) using ac by blast
  have "kept_info v (ov_info ch f a) = the (ov_info ch f a) \<and> ov_info ch f a \<noteq> None" if "touched cs a" "map_of (cs_accounts cs) a = None" for a
    using that assms(2) by (auto simp: plain_changes_def map_of_eq_None_iff kept_info_def)
  then show "ov_info (push_changes n h cs ch) f = new_info v cs (ov_info ch f)"
    unfolding p(2) using ac [of _ f] s(3) by (auto simp: new_info_def last fun_eq_iff split: option.splits)
qed

subsection \<open>An overlay and the state it stands for\<close>

fun pending_ok :: "codec \<Rightarrow> address set \<Rightarrow> b256 set \<Rightarrow> pending_changes list \<Rightarrow> (address \<Rightarrow> info option) \<Rightarrow> bool" where
  "pending_ok v A S [] f = True"
| "pending_ok v A S ((n, h, cs, rv) # ps) f \<longleftrightarrow>
     changes_ok A S cs \<and> reverts_in A S rv \<and> plain_changes f cs \<and> pending_ok v A S ps (new_info v cs f)"

lemma push_codes: "ov_codes (push_changes n h cs ch) = fold (\<lambda>(h, c). bt_insert h c) (cs_contracts cs) (ov_codes ch)"
proof -
  have "ov_codes (push_storage s c) = ov_codes c" "ov_codes (push_account e c) = ov_codes c" for s e c
    by (auto simp: push_storage_def push_account_def ov_wipe_def Let_def split: prod.splits)
  then have "ov_codes (fold push_storage l c) = ov_codes c" "ov_codes (fold push_account l' c) = ov_codes c" for l l' c
    by (induction l arbitrary: c, simp_all) (induction l' arbitrary: c, simp_all)
  then show ?thesis by (simp add: push_changes_def Let_def)
qed

lemma pending_applies:
  assumes cd: "codec_ok v" and ap: "apart v A S"
  shows "state_ok v A S tb \<Longrightarrow> hist_ok A S tb \<Longrightarrow> pending_ok v A S ps (ov_info ch f) \<Longrightarrow> bt_wf (ov_storage ch) \<Longrightarrow>
    info_at tb = ov_info ch f \<Longrightarrow> sto tb = ov_sto ch m \<Longrightarrow>
    (\<And>h. bt_get h (t_codes tb) = (case bt_get h (ov_codes ch) of Some c \<Rightarrow> Some c | None \<Rightarrow> bt_get h codes)) \<Longrightarrow>
    \<exists>tb'. apply_pending v ps tb = Some (Inr tb') \<and> state_ok v A S tb' \<and> hist_ok A S tb'
      \<and> info_at tb' = ov_info (fold (\<lambda>(n, h, cs, _). push_changes n h cs) ps ch) f
      \<and> sto tb' = ov_sto (fold (\<lambda>(n, h, cs, _). push_changes n h cs) ps ch) m
      \<and> (\<forall>h. bt_get h (t_codes tb') = (case bt_get h (ov_codes (fold (\<lambda>(n, h, cs, _). push_changes n h cs) ps ch)) of
           Some c \<Rightarrow> Some c | None \<Rightarrow> bt_get h codes))"
proof (induction ps arbitrary: tb ch)
  case Nil
  then show ?case by (simp add: apply_pending_def)
next
  case (Cons p ps)
  obtain n h cs rv where p: "p = (n, h, cs, rv)" by (metis prod_cases4)
  have c: "changes_ok A S cs" "reverts_in A S rv" "plain_changes (ov_info ch f) cs" "pending_ok v A S ps (new_info v cs (ov_info ch f))"
    using Cons.prems(3) by (simp_all add: p)
  note pc = push_changes_state [OF Cons.prems(4) c(3)]
  obtain r tb1 where 1: "apply_bundle v n cs rv tb = Some (Inr (r, tb1))" "state_ok v A S tb1" "hist_ok A S tb1"
      "info_at tb1 = new_info v cs (info_at tb)" "sto tb1 = new_sto cs (sto tb)"
      "t_codes tb1 = fold (\<lambda>(h, c). bt_insert h c) (cs_contracts cs) (t_codes tb)"
    using apply_bundle_codes [OF cd ap Cons.prems(1,2) c(1,2), of n] by blast
  let ?ch = "push_changes n h cs ch"
  have "pending_ok v A S ps (ov_info ?ch f)" using c(4) pc(2) by metis
  moreover have "info_at tb1 = ov_info ?ch f" using 1(4) Cons.prems(5) pc(2) by metis
  moreover have "sto tb1 = ov_sto ?ch m" using 1(5) Cons.prems(6) pc(1) by metis
  moreover have "bt_get k (t_codes tb1) = (case bt_get k (ov_codes ?ch) of Some c \<Rightarrow> Some c | None \<Rightarrow> bt_get k codes)" for k
    unfolding 1(6) push_codes bt_get_fold_insert using Cons.prems(7) [of k] by (auto split: option.splits)
  ultimately obtain tb' where "apply_pending v ps tb1 = Some (Inr tb')" "state_ok v A S tb'" "hist_ok A S tb'"
      "info_at tb' = ov_info (fold (\<lambda>(n, h, cs, _). push_changes n h cs) ps ?ch) f"
      "sto tb' = ov_sto (fold (\<lambda>(n, h, cs, _). push_changes n h cs) ps ?ch) m"
      "\<And>h. bt_get h (t_codes tb') = (case bt_get h (ov_codes (fold (\<lambda>(n, h, cs, _). push_changes n h cs) ps ?ch)) of
         Some c \<Rightarrow> Some c | None \<Rightarrow> bt_get h codes)"
    using Cons.IH [OF 1(2,3) _ pc(3)] by blast
  moreover have "apply_pending v (p # ps) tb = apply_pending v ps tb1" by (simp add: apply_pending_def p 1(1))
  ultimately show ?case by (simp add: p)
qed

text \<open>
  C40. Blocks are executed on what will be committed. Reading accounts, slots and code through the overlay of
  pending blocks gives what the latest view of the tables gives once these blocks are applied to them,
  which is how the state root of the next block is computed; applying them succeeds. The latest view parses
  code again when it reads it, so code it does not accept, which the overlay hands out as it is, panics there.
\<close>

theorem overlay_equals_commit:
  assumes "codec_ok v" "apart v A S" "reached v A S tb r" "pending_ok v A S ps (info_at tb)"
  shows "\<exists>tb'. apply_pending v ps tb = Some (Inr tb')
    \<and> (\<forall>a. ov_basic_ref v tb (overlay_of ps) a = basic_ref v tb' None a)
    \<and> (\<forall>a k. ov_storage_ref tb (overlay_of ps) a k = storage_ref tb' None a k)
    \<and> (\<forall>h. h \<noteq> cd_keccak v [] \<longrightarrow> code_by_hash_ref v tb' h =
         try_bind (ov_code_by_hash_ref v tb (overlay_of ps) h) (\<lambda>c. map_option Inr (new_raw v c)))"
proof -
  have ok: "state_ok v A S tb" "hist_ok A S tb" using reached_ok [OF assms(1,2,3)] by simp_all
  have e: "ov_info no_changes f = f" "ov_sto no_changes m = m" "bt_wf (ov_storage no_changes)" "ov_codes no_changes = []" for f m
    by (auto simp: ov_info_def ov_sto_def no_changes_def bt_simps bt_wf_def)
  have "\<And>h. bt_get h (t_codes tb) = (case bt_get h (ov_codes no_changes) of Some c \<Rightarrow> Some c | None \<Rightarrow> bt_get h (t_codes tb))"
    by (simp add: e(4) bt_simps)
  from pending_applies [OF assms(1,2) ok _ e(3) _ _ this, of ps "info_at tb" "sto tb", unfolded e, OF assms(4) refl refl]
  obtain tb' where t: "apply_pending v ps tb = Some (Inr tb')" "state_ok v A S tb'"
      "info_at tb' = ov_info (overlay_of ps) (info_at tb)" "sto tb' = ov_sto (overlay_of ps) (sto tb)"
      "\<And>h. bt_get h (t_codes tb') = (case bt_get h (ov_codes (overlay_of ps)) of Some c \<Rightarrow> Some c | None \<Rightarrow> bt_get h (t_codes tb))"
    unfolding overlay_of_def by blast
  have b: "basic_ref v t None a = Inr (info_at t a)" if "state_ok v A S t" for t a
    using that account_of_ok [of A t a] by (auto simp: basic_ref_def state_ok_def info_at_def info_of_def Let_def intro!: option.map_cong)
  have s: "storage_ref t None a k = Inr (case sto t (a, k) of Some x \<Rightarrow> x | None \<Rightarrow> 0)" for t a k
    by (simp add: storage_ref_def storage_of_def sto_def)
  have "ov_basic_ref v tb (overlay_of ps) a = basic_ref v tb' None a" for a
    unfolding ov_basic_ref_def b [OF ok(1)] b [OF t(2)] t(3) by (simp add: ov_info_def split: option.splits)
  moreover have "ov_storage_ref tb (overlay_of ps) a k = storage_ref tb' None a k" for a k
    unfolding ov_storage_ref_def s t(4) by (auto simp: ov_sto_def nz_def split: option.splits)
  moreover have "code_by_hash_ref v tb' h =
      try_bind (ov_code_by_hash_ref v tb (overlay_of ps) h) (\<lambda>c. map_option Inr (new_raw v c))" if "h \<noteq> cd_keccak v []" for h
    using that t(5) [of h]
    by (simp add: ov_code_by_hash_ref_def code_by_hash_ref_def code_of_def new_raw_def try_bind_def split: option.splits)
  ultimately show ?thesis using t(1) by blast
qed

theorem overlay_equals_commit_witness:
  "\<exists>r tb tb'. init_state demo_codec demo_alloc empty_tables = Some (Inr (r, tb))
    \<and> apply_pending demo_codec [(1, 9, demo_changes, demo_reverts)] tb = Some (Inr tb')
    \<and> ov_basic_ref demo_codec tb (overlay_of [(1, 9, demo_changes, demo_reverts)]) 2 = basic_ref demo_codec tb' None 2
    \<and> ov_storage_ref tb (overlay_of [(1, 9, demo_changes, demo_reverts)]) 1 0 = storage_ref tb' None 1 0"
proof -
  obtain r tb where g: "init_state demo_codec demo_alloc empty_tables = Some (Inr (r, tb))" "demo_reached tb r"
      "info_at tb = (\<lambda>a. if a = 1 then Some (0, 5, 0) else None)" using demo_genesis by blast
  have "plain_changes (info_at tb) demo_changes" using g(3) by (auto simp: plain_changes_def demo_changes_def touched_def)
  then have "pending_ok demo_codec UNIV UNIV [(1, 9, demo_changes, demo_reverts)] (info_at tb)" using demo_in by simp
  from overlay_equals_commit [OF demo_codec_ok g(2) this] show ?thesis using g(1) by blast
qed

end
