(* ===== verification/Spec2Isabelle.thy ===== *)
theory Spec2Isabelle
  imports Agreement Forks Mined Txpool Overlay
begin

text \<open>
  A verification library for Boltchain: a proof-of-work chain with stake-based finality that turns
  into a proof-of-stake chain.

  \<^bold>\<open>The program.\<close> Validators of an epoch run a consensus engine (\<^verbatim>\<open>crates/consensus\<close>) whose
  certificates are BLS aggregates over signer bitmaps (\<^verbatim>\<open>crates/primitives/src/bls.rs\<close>); panels drawn
  from them sign audit, verdict and attestation certificates. Before the switch to proof of stake,
  blocks are mined (\<^verbatim>\<open>crates/pow\<close>) and chosen by total difficulty (\<^verbatim>\<open>crates/chain/src/pow.rs\<close>), and the
  store (\<^verbatim>\<open>crates/store\<close>) can undo recent blocks. The store keeps accounts and slots in flat tables, two
  levels of Merkle Patricia tries over them, and the values before each recent block; blocks that wait
  for finality live in an overlay over it (\<^verbatim>\<open>crates/chain/src/overlay.rs\<close>). Transactions wait in a pool (\<^verbatim>\<open>crates/txpool\<close>). Peers
  with different fork tables recognise each other (\<^verbatim>\<open>crates/primitives/src/forks.rs\<close>).

  \<^bold>\<open>Theories.\<close>
  \<^item> \<open>Prelude\<close>: machine integers as words (arithmetic wraps, as in the release build), big-endian
    bytes, the ordered map \<open>btmap\<close> that stands for \<^verbatim>\<open>BTreeMap\<close> and \<^verbatim>\<open>HashMap\<close> with its contract
    \<open>map_impl\<close>.
  \<^item> \<open>Validators\<close> (\<^verbatim>\<open>types.rs\<close>: \<^verbatim>\<open>ValidatorSet\<close>, \<^verbatim>\<open>bitmap\<close>): weights, thresholds, leaders, signer bitmaps;
    the contract \<open>quorum_system\<close>.
  \<^item> \<open>Messages\<close> (\<^verbatim>\<open>types.rs\<close>, \<^verbatim>\<open>consensus/src/lib.rs\<close>): signed byte strings, certificates and their checks.
  \<^item> \<open>Bls\<close> (\<^verbatim>\<open>bls.rs\<close>, \<^verbatim>\<open>BlsScheme\<close>): the production scheme over the curve library as a parameter.
  \<^item> \<open>Panels\<close> (\<^verbatim>\<open>audit.rs\<close>): panel votes and certificates of the three kinds.
  \<^item> \<open>Engine\<close> (\<^verbatim>\<open>engine.rs\<close>): every handler of the engine on a record with the fields of \<^verbatim>\<open>Engine\<close>;
    \<open>Engine_Inv\<close> and \<open>Engine_Safe\<close>: what every handler keeps; \<open>Agreement\<close>: the abstract protocol
    \<open>voting\<close>, its interpretation on runs of engines with restarts, and agreement.
  \<^item> \<open>Params\<close> (\<^verbatim>\<open>params.rs\<close>, gas limit rules of \<^verbatim>\<open>chain/src/lib.rs\<close>), \<open>Forks\<close> (\<^verbatim>\<open>forks.rs\<close>), \<open>Pow\<close>
    (\<^verbatim>\<open>pow/src/lib.rs\<close>, \<^verbatim>\<open>asert.rs\<close>): emission, gas limit, fork ids, seals, nonce search, difficulty.
  \<^item> \<open>Mined\<close> (\<^verbatim>\<open>chain/src/pow.rs\<close>, the import path of \<^verbatim>\<open>chain/src/lib.rs\<close>, the block tables of
    \<^verbatim>\<open>store/src/db.rs\<close>): importing and undoing blocks.
  \<^item> \<open>Txpool\<close> (\<^verbatim>\<open>txpool/src/lib.rs\<close>): admission, replacement, removal and the order for block building.

  \<^item> \<open>Trie\<close> (\<^verbatim>\<open>store/src/trie.rs\<close>): nibbles, the node codec, the lazily loaded trie with \<^verbatim>\<open>insert\<close>,
    \<^verbatim>\<open>remove_key\<close>, \<^verbatim>\<open>commit\<close> and \<^verbatim>\<open>proof\<close>. \<open>Trie_Fun\<close>: tries as maps from nibble strings, their
    normal form; \<open>Trie_Refine\<close> and \<open>Trie_Ops\<close>: the lazy operations refine those maps; \<open>Trie_Commit\<close> and
    \<open>Trie_Store\<close>: what a commit writes, and proofs.
  \<^item> \<open>Flat_State\<close> (\<^verbatim>\<open>store/src/state.rs\<close>, the state tables of \<^verbatim>\<open>store/src/db.rs\<close>): changesets, applying and
    undoing them, history, pruning, past reads, proofs, the view the EVM reads, the root from scratch.
    \<open>State_Inv\<close>: the invariant that ties tables and tries (\<open>state_ok\<close>) and the history (\<open>hist_ok\<close>);
    \<open>State_Apply\<close>, \<open>State_History\<close>, \<open>State_Undo\<close>, \<open>State_Root\<close>: every operation keeps it, and its effect;
    \<open>State_Reads\<close>: reads, and the properties of the store.
  \<^item> \<open>Overlay\<close> (\<^verbatim>\<open>chain/src/overlay.rs\<close>): the changes of pending blocks over the committed view.

  \<^bold>\<open>What is shown.\<close> Blocks committed by correct engines lie on one chain when at most a third of the
  weight is faulty, through any sequence of inputs and restarts in which bitmaps have at most 8192 bytes
  and the hash of a block fixes its parent and round; the certificate checks hold a third accountable,
  under the same bound on bitmaps; bitmaps and signed bytes are unambiguous, with the exception of
  longer bitmaps, which one member can use to forge a certificate; the pool's indexes never disagree and block builders get the greedy
  order; the trie's incremental root is the root of the map it holds, whatever the order of the changes,
  and its proofs verify; after every sequence of blocks, undone blocks and pruning the state store is
  consistent: its root is the root computed from scratch, undoing a block restores every account, slot
  and the root, past reads return what the state was, pruning keeps the window of recent blocks, and
  no operation reports corruption; executing on the overlay of pending blocks reads what committing
  them first would; the emission, gas limit, difficulty and fork-id rules are what their documents say, apart
  from the deviations stated as theorems of kind error.

  \<^bold>\<open>Parameters.\<close> \<^verbatim>\<open>keccak256\<close>, the curve library, the RandomX hash, header hashing, the EVM, the
  decoders of alloy and the clock are arguments of the definitions. A panic, an endless walk along
  parent links or exhausted fuel is \<open>None\<close>. The engine's handlers take the fuel for nested rounds as an
  argument and their lemmas hold for every amount; walks over side blocks take one more step than there
  are side blocks. The keys of a trie are hashes of 32 bytes, 64 nibbles, and every step of a trie
  operation consumes a nibble, so their fuel of 66 is enough; the theorems on them are of total
  correctness. The statements on the state assume that no two addresses or slots in use have the same
  hash (\<open>apart\<close>) that RLP headers and strings decode to what was encoded, values and accounts having non-empty
  encodings below \<open>2 ^ 32\<close> bytes (\<open>codec_ok\<close>), and, for the root from scratch, that
  the roots alloy computes are the roots of the canonical tries under the node encoding of \<open>Trie\<close>
  (\<open>alloy_ok\<close>); the witnesses discharge them on a concrete codec.

  \<^bold>\<open>Not modelled.\<close> Block execution (\<^verbatim>\<open>crates/exec\<close> around revm, \<^verbatim>\<open>crates/system\<close>): its result is an
  argument. Snapshots and the address index of the store, receipts and the transaction index; the
  history archive (\<^verbatim>\<open>chain/src/history.rs\<close>), IPLD codecs, networking, synchronisation, RPC, the node
  (tasks, explorer, command line, key files), the simulator and the vault, which are mostly input and
  output; the Solidity contracts; the attestation parsers; the serde codecs.
\<close>

end
